(* ===== verification/Fixure_Prelude.thy ===== *)
theory Fixure_Prelude
  imports Main "HOL-Library.Word" "HOL-Library.Sublist"
begin

text \<open>
  Shared vocabulary of the development: the operations of \<open>std::string_view\<close>, the
  conversions \<open>std::from_chars\<close> and \<open>std::to_chars\<close>, the integer conversions the code
  performs, and the generic facts about them that the component theories use.  A byte
  of a buffer is a \<^typ>\<open>char\<close> (eight bits), a \<open>std::string_view\<close> or \<open>std::string\<close>
  is the list of its bytes, a position is a \<^typ>\<open>nat\<close>, and \<open>npos\<close> is \<open>None\<close>.
\<close>

named_theorems text_simps \<open>rewriting of searches and conversions over concrete layouts\<close>

section \<open>Searching and slicing\<close>

primrec index_of :: "char \<Rightarrow> string \<Rightarrow> nat option" where
  "index_of c [] = None"
| "index_of c (x # xs) = (if x = c then Some 0 else map_option Suc (index_of c xs))"

definition sv_find :: "string \<Rightarrow> char \<Rightarrow> nat \<Rightarrow> nat option" where
  "sv_find s c pos = map_option (\<lambda>i. pos + i) (index_of c (drop pos s))"

primrec index_of_sub :: "string \<Rightarrow> string \<Rightarrow> nat option" where
  "index_of_sub pat [] = (if pat = [] then Some 0 else None)"
| "index_of_sub pat (x # xs) =
     (if take (length pat) (x # xs) = pat then Some 0
      else map_option Suc (index_of_sub pat xs))"

definition sv_find_str :: "string \<Rightarrow> string \<Rightarrow> nat \<Rightarrow> nat option" where
  "sv_find_str s pat pos = map_option (\<lambda>i. pos + i) (index_of_sub pat (drop pos s))"

definition sv_substr :: "string \<Rightarrow> nat \<Rightarrow> nat \<Rightarrow> string" where
  "sv_substr s pos n = take n (drop pos s)"

lemma index_of_None: "index_of c s = None \<longleftrightarrow> c \<notin> set s"
  by (induction s) auto

lemma index_of_notin [simp]: "c \<notin> set s \<Longrightarrow> index_of c s = None"
  by (simp add: index_of_None)

lemma index_of_SomeD:
  "index_of c s = Some i \<Longrightarrow> i < length s \<and> s ! i = c \<and> c \<notin> set (take i s)"
  by (induction s arbitrary: i) (auto split: if_splits)

lemma index_of_append [text_simps]:
  "c \<notin> set xs \<Longrightarrow> index_of c (xs @ ys) = map_option (\<lambda>i. length xs + i) (index_of c ys)"
  by (cases "index_of c ys"; induction xs) auto

lemma index_of_split:
  assumes "index_of c s = Some i"
  obtains xs ys where "s = xs @ c # ys" "length xs = i" "c \<notin> set xs"
proof
  from index_of_SomeD [OF assms]
  show "s = take i s @ c # drop (Suc i) s" "length (take i s) = i" "c \<notin> set (take i s)"
    by (auto simp: id_take_nth_drop)
qed

lemma sv_find_None: "sv_find s c pos = None \<longleftrightarrow> c \<notin> set (drop pos s)"
  by (simp add: sv_find_def index_of_None)

lemma sv_find_bounds: "sv_find s c pos = Some i \<Longrightarrow> pos \<le> i \<and> i < length s"
  by (auto simp: sv_find_def dest!: index_of_SomeD)

lemma sv_find_append [text_simps]:
  "sv_find (pre @ s) c (length pre) = map_option (\<lambda>i. length pre + i) (index_of c s)"
  by (simp add: sv_find_def)

lemma sv_substr_append [text_simps]:
  "sv_substr (pre @ xs @ post) (length pre) (length xs) = xs"
  by (simp add: sv_substr_def)

lemma index_of_sub_bounds: "index_of_sub pat s = Some i \<Longrightarrow> i + length pat \<le> length s"
proof (induction s arbitrary: i)
  case (Cons x xs)
  show ?case
  proof (cases "take (length pat) (x # xs) = pat")
    case True
    then have "length pat \<le> length (x # xs)"
      by (metis length_take min.cobounded1)
    with Cons.prems True show ?thesis by simp
  next
    case False
    with Cons show ?thesis by fastforce
  qed
qed (simp split: if_splits)

lemma index_of_sub_SomeD:
  "index_of_sub pat s = Some i \<Longrightarrow>
     take (length pat) (drop i s) = pat \<and> (\<forall>j<i. take (length pat) (drop j s) \<noteq> pat)"
proof (induction s arbitrary: i)
  case (Cons x xs)
  show ?case
  proof (cases "take (length pat) (x # xs) = pat")
    case True
    with Cons.prems show ?thesis by simp
  next
    case False
    with Cons.prems obtain k where k: "index_of_sub pat xs = Some k" "i = Suc k" by auto
    from Cons.IH [OF k(1)] k(2) False show ?thesis
      by (auto simp: less_Suc_eq_0_disj)
  qed
qed (simp split: if_splits)

lemma index_of_sub_None:
  "index_of_sub pat s = None \<longleftrightarrow> (\<forall>j\<le>length s. take (length pat) (drop j s) \<noteq> pat)"
proof (induction s)
  case (Cons x xs)
  have "(\<forall>j\<le>length (x # xs). take (length pat) (drop j (x # xs)) \<noteq> pat) \<longleftrightarrow>
      take (length pat) (x # xs) \<noteq> pat \<and> (\<forall>j\<le>length xs. take (length pat) (drop j xs) \<noteq> pat)"
    unfolding less_Suc_eq_le [symmetric] by (simp add: All_less_Suc2)
  with Cons show ?case by simp
qed auto

text \<open>The first occurrence, characterised without reference to the search.\<close>

lemma index_of_sub_eqI:
  assumes "take (length pat) (drop i s) = pat" "i \<le> length s"
    and "\<And>j. j < i \<Longrightarrow> take (length pat) (drop j s) \<noteq> pat"
  shows "index_of_sub pat s = Some i"
proof (cases "index_of_sub pat s")
  case None
  with assms show ?thesis by (auto simp: index_of_sub_None)
next
  case (Some k)
  from index_of_sub_SomeD [OF Some] assms have "k = i"
    by (metis linorder_neqE_nat)
  with Some show ?thesis by simp
qed

lemma sv_find_str_0 [simp]: "sv_find_str s pat 0 = index_of_sub pat s"
  by (simp add: sv_find_str_def option.map_ident)

lemma index_of_sub_append_left:
  "index_of_sub pat s = Some i \<Longrightarrow> index_of_sub pat (s @ rest) = Some i"
proof -
  assume a: "index_of_sub pat s = Some i"
  note b = index_of_sub_bounds [OF a]
  have eq: "take (length pat) (drop j (s @ rest)) = take (length pat) (drop j s)" if "j \<le> i" for j
    using that b by simp
  show ?thesis
    by (rule index_of_sub_eqI) (use index_of_sub_SomeD [OF a] b eq in auto)
qed

text \<open>Cutting at the first occurrence.\<close>

lemma index_of_sub_cut:
  assumes "index_of_sub pat s = Some i"
  shows "s = take i s @ pat @ drop (i + length pat) s"
    and "pat \<noteq> [] \<Longrightarrow> index_of_sub pat (take i s) = None"
proof -
  have at: "take (length pat) (drop i s) = pat" and le: "i + length pat \<le> length s"
    using index_of_sub_SomeD [OF assms] index_of_sub_bounds [OF assms] by simp_all
  have "drop i s = pat @ drop (length pat) (drop i s)"
    using append_take_drop_id [of "length pat" "drop i s"] at by simp
  then show "s = take i s @ pat @ drop (i + length pat) s"
    using append_take_drop_id [of i s] by (simp add: add.commute)
  assume ne: "pat \<noteq> []"
  show "index_of_sub pat (take i s) = None"
  proof (cases "index_of_sub pat (take i s)")
    case (Some j)
    with index_of_sub_append_left [OF Some, of "drop i s"] assms have "j = i" by simp
    with index_of_sub_bounds [OF Some] ne le show ?thesis by simp
  qed
qed

text \<open>
  A pattern whose last character occurs in it once cannot begin inside the text before
  its own first occurrence.
\<close>

lemma index_of_sub_first:
  assumes "z \<notin> set u" "index_of_sub (u @ [z]) c = None"
  shows "index_of_sub (u @ [z]) (c @ (u @ [z]) @ s) = Some (length c)"
proof (rule index_of_sub_eqI)
  let ?p = "u @ [z]" and ?t = "c @ (u @ [z]) @ s"
  fix j assume j: "j < length c"
  show "take (length ?p) (drop j ?t) \<noteq> ?p"
  proof
    assume eq: "take (length ?p) (drop j ?t) = ?p"
    show False
    proof (cases "j + length ?p \<le> length c")
      case True
      with eq have "take (length ?p) (drop j c) = ?p" by simp
      with assms(2) j show False by (auto simp: index_of_sub_None)
    next
      case False
      have "T ! (j + length u) = z" if "take (length ?p) (drop j T) = ?p" "j \<le> length T" for T
        using arg_cong [OF that(1), of "\<lambda>l. l ! length u"] that(2) by simp
      from this [OF eq] j have "?t ! (j + length u) = z" by simp
      moreover have lt: "j + length u - length c < length u" "length c \<le> j + length u"
        using False j by simp_all
      moreover have "?t ! (j + length u) = u ! (j + length u - length c)"
        using lt by (simp add: nth_append)
      moreover have "u ! (j + length u - length c) \<in> set u" using lt(1) by (rule nth_mem)
      ultimately show False using assms(1) by simp
    qed
  qed
qed simp_all

lemma index_of_sub_notin: "c \<in> set pat \<Longrightarrow> c \<notin> set s \<Longrightarrow> index_of_sub pat s = None"
  unfolding index_of_sub_None by (metis in_set_dropD in_set_takeD)

definition double_quote :: char where "double_quote = CHR 0x22"
definition single_quote :: char where "single_quote = CHR 0x27"

text \<open>
  The lines of a text: what the loops over \<open>find('\n')\<close> and over \<open>std::getline\<close> visit.
  A final newline does not begin another line.
\<close>

definition newline :: char where "newline = CHR 0x0A"

function split_lines :: "string \<Rightarrow> string list" where
  "split_lines s =
     (if s = [] then []
      else takeWhile (\<lambda>c. c \<noteq> newline) s # split_lines (drop 1 (dropWhile (\<lambda>c. c \<noteq> newline) s)))"
  by pat_completeness auto
termination
proof (relation "measure length")
  fix s :: string
  assume "s \<noteq> []"
  then show "(drop 1 (dropWhile (\<lambda>c. c \<noteq> newline) s), s) \<in> measure length"
    using length_dropWhile_le [of "\<lambda>c. c \<noteq> newline" s] by (cases s) (simp_all del: dropWhile_eq_Nil_conv)
qed simp

declare split_lines.simps [simp del]

lemma split_lines_Nil [simp]: "split_lines [] = []"
  by (simp add: split_lines.simps)

lemma split_lines_line [simp]:
  "newline \<notin> set l \<Longrightarrow> split_lines (l @ newline # s) = l # split_lines s"
proof -
  assume "newline \<notin> set l"
  then have "takeWhile (\<lambda>c. c \<noteq> newline) (l @ newline # s) = l"
    "dropWhile (\<lambda>c. c \<noteq> newline) (l @ newline # s) = newline # s"
    by (subst takeWhile_append2 dropWhile_append2; force)+
  then show ?thesis by (subst split_lines.simps) simp
qed

lemma split_lines_last: "newline \<notin> set l \<Longrightarrow> l \<noteq> [] \<Longrightarrow> split_lines l = [l]"
proof -
  assume "newline \<notin> set l" "l \<noteq> []"
  moreover from this have "takeWhile (\<lambda>c. c \<noteq> newline) l = l" "dropWhile (\<lambda>c. c \<noteq> newline) l = []"
    by (auto simp: takeWhile_eq_all_conv)
  ultimately show ?thesis by (subst split_lines.simps) (simp del: dropWhile_eq_Nil_conv)
qed

section \<open>Decimal conversions\<close>

definition is_digit :: "char \<Rightarrow> bool" where
  "is_digit c \<longleftrightarrow> 48 \<le> (of_char c :: nat) \<and> (of_char c :: nat) \<le> 57"

definition digit_val :: "char \<Rightarrow> int" where
  "digit_val c = of_char c - 48"

definition digit_char :: "nat \<Rightarrow> char" where
  "digit_char d = char_of (48 + d)"

definition digits_val :: "string \<Rightarrow> int" where
  "digits_val ds = foldl (\<lambda>a c. 10 * a + digit_val c) 0 ds"

definition int_min :: int where "int_min = - 2147483648"
definition int_max :: int where "int_max = 2147483647"

definition int32 :: "int \<Rightarrow> bool" where
  "int32 z \<longleftrightarrow> int_min \<le> z \<and> z \<le> int_max"

text \<open>
  \<open>std::from_chars\<close> on an \<open>int\<close>: an optional minus sign and the longest run of digits;
  no white space and no plus sign are accepted.  \<open>FC_ok v n\<close> has consumed \<open>n\<close>
  characters, \<open>FC_range\<close> and \<open>FC_invalid\<close> are the two error codes, which leave the
  target variable unchanged.
\<close>

datatype from_chars_result = FC_invalid | FC_range nat | FC_ok int nat

definition from_chars :: "string \<Rightarrow> from_chars_result" where
  "from_chars s =
     (let neg = (s \<noteq> [] \<and> hd s = CHR ''-'');
          ds = takeWhile is_digit (if neg then tl s else s);
          n = length ds + (if neg then 1 else 0);
          v = (if neg then - digits_val ds else digits_val ds)
      in if ds = [] then FC_invalid else if int32 v then FC_ok v n else FC_range n)"

text \<open>The value left in a target that was initialised to 0 when the error code is ignored.\<close>

definition from_chars_or0 :: "string \<Rightarrow> int" where
  "from_chars_or0 s = (case from_chars s of FC_ok v _ \<Rightarrow> v | _ \<Rightarrow> 0)"

text \<open>\<open>std::to_chars\<close> and \<open>std::to_string\<close>: shortest decimal form.\<close>

fun show_nat :: "nat \<Rightarrow> string" where
  "show_nat n = (if n < 10 then [digit_char n] else show_nat (n div 10) @ [digit_char (n mod 10)])"

declare show_nat.simps [simp del]

definition show_int :: "int \<Rightarrow> string" where
  "show_int z = (if z < 0 then CHR ''-'' # show_nat (nat (- z)) else show_nat (nat z))"

lemma of_digit_char: "d < 10 \<Longrightarrow> of_char (digit_char d) = 48 + d"
  by (simp add: digit_char_def)

lemma of_digit_char_int: "d < 10 \<Longrightarrow> (of_char (digit_char d) :: int) = 48 + int d"
  using of_digit_char [of d] by (metis of_nat_add of_nat_numeral of_nat_of_char)

lemma is_digit_digit_char [simp]: "d < 10 \<Longrightarrow> is_digit (digit_char d)"
  by (simp add: is_digit_def of_digit_char)

lemma digit_val_digit_char [simp]: "d < 10 \<Longrightarrow> digit_val (digit_char d) = int d"
  by (simp add: digit_val_def of_digit_char_int)

lemma digits_val_Nil [simp]: "digits_val [] = 0"
  by (simp add: digits_val_def)

lemma digits_val_snoc [simp]: "digits_val (ds @ [c]) = 10 * digits_val ds + digit_val c"
  by (simp add: digits_val_def)

lemma show_nat_digits: "c \<in> set (show_nat n) \<Longrightarrow> is_digit c"
proof (induction n rule: show_nat.induct)
  case (1 n)
  from 1(2) show ?case
    by (subst (asm) show_nat.simps) (auto split: if_splits intro: 1(1))
qed

lemma show_nat_neq_Nil [simp]: "show_nat n \<noteq> []"
  by (subst show_nat.simps) simp

lemma digits_val_show_nat [simp]: "digits_val (show_nat n) = int n"
proof (induction n rule: show_nat.induct)
  case (1 n)
  show ?case
  proof (cases "n < 10")
    case True
    then show ?thesis
      using digits_val_snoc [of "[]"] by (subst show_nat.simps) simp
  next
    case False
    with 1 show ?thesis by (subst show_nat.simps) (simp add: zdiv_int zmod_int)
  qed
qed

lemma is_digit_minus [simp]: "\<not> is_digit (CHR ''-'')" and is_digit_eq [simp]: "\<not> is_digit (CHR ''='')"
  by (simp_all add: is_digit_def)

lemma hd_show_nat: "is_digit (hd (show_nat n))"
  by (rule show_nat_digits) (rule hd_in_set, simp)

lemma show_int_neq_Nil [simp]: "show_int z \<noteq> []"
  by (simp add: show_int_def)

lemma show_int_chars: "c \<in> set (show_int z) \<Longrightarrow> is_digit c \<or> c = CHR ''-''"
  by (auto simp: show_int_def show_nat_digits split: if_splits)

lemma takeWhile_digits_append:
  "(\<forall>c\<in>set ds. is_digit c) \<Longrightarrow> rest = [] \<or> \<not> is_digit (hd rest) \<Longrightarrow>
     takeWhile is_digit (ds @ rest) = ds"
  by (cases rest) auto

text \<open>What \<open>to_chars\<close> writes, \<open>from_chars\<close> reads back, stopping exactly at its end.\<close>

lemma from_chars_show_nat:
  assumes "int n \<le> int_max" "rest = [] \<or> \<not> is_digit (hd rest)"
  shows "from_chars (show_nat n @ rest) = FC_ok (int n) (length (show_nat n))"
proof -
  have "hd (show_nat n @ rest) \<noteq> CHR ''-''"
    using hd_show_nat [of n] by auto
  moreover have "takeWhile is_digit (show_nat n @ rest) = show_nat n"
    using assms(2) by (intro takeWhile_digits_append) (auto simp: show_nat_digits)
  ultimately show ?thesis
    using assms(1) by (simp add: from_chars_def int32_def int_min_def)
qed

lemma from_chars_show_int:
  assumes "int32 z" "rest = [] \<or> \<not> is_digit (hd rest)"
  shows "from_chars (show_int z @ rest) = FC_ok z (length (show_int z))"
proof (cases "z < 0")
  case True
  have "takeWhile is_digit (show_nat (nat (- z)) @ rest) = show_nat (nat (- z))"
    using assms(2) by (intro takeWhile_digits_append) (auto simp: show_nat_digits)
  with True assms(1) show ?thesis by (simp add: from_chars_def show_int_def)
next
  case False
  with assms show ?thesis
    using from_chars_show_nat [of "nat z" rest] by (simp add: show_int_def int32_def)
qed

lemma from_chars_show_int_exact [simp]:
  "int32 z \<Longrightarrow> from_chars (show_int z) = FC_ok z (length (show_int z))"
  using from_chars_show_int [of z "[]"] by simp

lemma from_chars_show_nat_exact [simp]:
  "int n \<le> int_max \<Longrightarrow> from_chars (show_nat n) = FC_ok (int n) (length (show_nat n))"
  using from_chars_show_nat [of n "[]"] by simp

lemma from_chars_int32: "from_chars s = FC_ok v n \<Longrightarrow> int32 v"
  by (auto simp: from_chars_def Let_def split: if_splits)

lemma from_chars_length: "from_chars s = FC_ok v n \<Longrightarrow> 0 < n \<and> n \<le> length s"
proof -
  assume a: "from_chars s = FC_ok v n"
  have "length (takeWhile is_digit (tl s)) + (if s \<noteq> [] then 1 else 0) \<le> length s"
    using length_takeWhile_le [of is_digit "tl s"] by (cases s) auto
  with a show ?thesis
    using length_takeWhile_le [of is_digit s]
    by (auto simp: from_chars_def Let_def split: if_splits)
qed

section \<open>Integer conversions\<close>

text \<open>
  \<open>size_t\<close> subtraction (64 bits, wraps) and \<open>static_cast<int>\<close> of a \<open>size_t\<close>.
\<close>

definition size_sub :: "nat \<Rightarrow> nat \<Rightarrow> nat" where
  "size_sub a b = (if b \<le> a then a - b else 2 ^ 64 + a - b)"

definition to_int32 :: "nat \<Rightarrow> int" where
  "to_int32 n = sint (word_of_nat n :: 32 word)"

lemma size_sub_le [simp]: "b \<le> a \<Longrightarrow> size_sub a b = a - b"
  by (simp add: size_sub_def)

definition npos :: nat where "npos = 2 ^ 64 - 1"

lemma size_sub_Suc [simp]: "size_sub n (Suc n) = npos"
  by (simp add: size_sub_def npos_def)

lemma size_sub_word:
  "a < 2 ^ 64 \<Longrightarrow> b < 2 ^ 64 \<Longrightarrow>
     size_sub a b = unat (word_of_nat a - word_of_nat b :: 64 word)"
  by (auto simp: size_sub_def unat_sub_if' unat_of_nat)

lemma to_int32_small [simp]: "n < 2 ^ 31 \<Longrightarrow> to_int32 n = int n"
  by (simp add: to_int32_def signed_of_nat signed_take_bit_int_eq_self)

lemma to_int32_range: "int32 (to_int32 n)"
  using sint_greater_eq [of "word_of_nat n :: 32 word"] sint_less [of "word_of_nat n :: 32 word"]
  by (simp add: to_int32_def int32_def int_min_def int_max_def)

end
