(* ===== verification/Parser.thy ===== *)
theory Parser
  imports Fixure_Prelude
begin

text \<open>
  The message parser of \<open>src/parser.cpp\<close> and \<open>include/fixure/parser.hpp\<close>:
  \<open>FixMessage::parse\<close>, \<open>get_field\<close>, \<open>get_int\<close> and the error names.  A message keeps
  its raw bytes and the prefix of the field array that is in use, as a list.  The
  specification is the wire format: \<open>wire\<close> lays out a list of tag texts and values,
  and \<open>frame_verdict\<close> says what a laid-out list deserves.
\<close>

section \<open>Data\<close>

datatype parse_error =
    ParseOk | EmptyBuffer | InvalidBeginString | MissingBodyLength | InvalidBodyLength
  | BodyLengthMismatch | MissingChecksum | InvalidChecksum | ChecksumMismatch
  | InvalidFormat | TooManyFields | TagNotFound

fun parse_error_name :: "parse_error \<Rightarrow> string" where
  "parse_error_name ParseOk = ''Ok''"
| "parse_error_name EmptyBuffer = ''EmptyBuffer''"
| "parse_error_name InvalidBeginString = ''InvalidBeginString''"
| "parse_error_name MissingBodyLength = ''MissingBodyLength''"
| "parse_error_name InvalidBodyLength = ''InvalidBodyLength''"
| "parse_error_name BodyLengthMismatch = ''BodyLengthMismatch''"
| "parse_error_name MissingChecksum = ''MissingChecksum''"
| "parse_error_name InvalidChecksum = ''InvalidChecksum''"
| "parse_error_name ChecksumMismatch = ''ChecksumMismatch''"
| "parse_error_name InvalidFormat = ''InvalidFormat''"
| "parse_error_name TooManyFields = ''TooManyFields''"
| "parse_error_name TagNotFound = ''TagNotFound''"

record fix_field =
  ftag :: int
  fvalue :: string

definition MAX_FIELDS :: nat where "MAX_FIELDS = 256"

definition SOH :: char where "SOH = CHR 0x01"

record fix_message =
  m_raw :: string
  m_fields :: "fix_field list"

section \<open>Field access\<close>

text \<open>The loop shared by \<open>FixMessage::get_field\<close> and \<open>GroupInstance::get_field\<close>.\<close>

fun find_tag :: "fix_field list \<Rightarrow> int \<Rightarrow> string option" where
  "find_tag [] t = None"
| "find_tag (f # fs) t = (if ftag f = t then Some (fvalue f) else find_tag fs t)"

text \<open>
  What the clients of a field container rely on, whatever the container: the value of the
  first field with the tag.  Presence, the laws over concatenation and the agreement with
  a map are derived once.
\<close>

locale tag_lookup =
  fixes fields_of :: "'m \<Rightarrow> fix_field list"
    and lookup :: "'m \<Rightarrow> int \<Rightarrow> string option"
  assumes lookup_None: "lookup m t = None \<longleftrightarrow> t \<notin> ftag ` set (fields_of m)"
    and lookup_first: "fields_of m = pre @ f # post \<Longrightarrow> t \<notin> ftag ` set pre \<Longrightarrow> ftag f = t \<Longrightarrow>
      lookup m t = Some (fvalue f)"
begin

lemma lookup_SomeE:
  assumes "lookup m t = Some v"
  obtains pre f post where "fields_of m = pre @ f # post" "t \<notin> ftag ` set pre" "ftag f = t"
    "fvalue f = v"
proof -
  have "\<exists>f\<in>set (fields_of m). ftag f = t"
    using assms lookup_None [of m t] by auto
  then obtain pre f post where *: "fields_of m = pre @ f # post" "ftag f = t" "\<forall>x\<in>set pre. ftag x \<noteq> t"
    using split_list_first_prop [of "fields_of m" "\<lambda>f. ftag f = t"] by blast
  then have "t \<notin> ftag ` set pre" by auto
  with * lookup_first [OF *(1) this *(2)] assms show thesis by (auto intro: that)
qed

lemma lookup_mem: "lookup m t = Some v \<Longrightarrow> \<lparr>ftag = t, fvalue = v\<rparr> \<in> set (fields_of m)"
  by (erule lookup_SomeE) (metis fix_field.surjective in_set_conv_decomp old.unit.exhaust)

lemma lookup_map: "lookup m t = map_of (map (\<lambda>f. (ftag f, fvalue f)) (fields_of m)) t"
proof (cases "lookup m t")
  case None
  have "map_of (map (\<lambda>f. (ftag f, fvalue f)) (fields_of m)) t = None \<longleftrightarrow> t \<notin> ftag ` set (fields_of m)"
    by (simp add: map_of_eq_None_iff image_image)
  with None lookup_None [of m t] show ?thesis by simp
next
  case (Some v)
  then obtain pre f post where *: "fields_of m = pre @ f # post" "t \<notin> ftag ` set pre" "ftag f = t"
    "fvalue f = v" by (rule lookup_SomeE)
  then have "map_of (map (\<lambda>f. (ftag f, fvalue f)) pre) t = None"
    by (force simp: map_of_eq_None_iff)
  with * Some show ?thesis by (simp add: map_add_def)
qed

end

definition get_field :: "fix_message \<Rightarrow> int \<Rightarrow> string option" where
  "get_field m t = find_tag (m_fields m) t"

lemma find_tag_None: "find_tag fs t = None \<longleftrightarrow> t \<notin> ftag ` set fs"
  by (induction fs) auto

lemma find_tag_append:
  "find_tag (fs @ gs) t = (case find_tag fs t of None \<Rightarrow> find_tag gs t | Some v \<Rightarrow> Some v)"
  by (induction fs) auto

interpretation message: tag_lookup m_fields get_field
  by unfold_locales (auto simp: get_field_def find_tag_None find_tag_append split: option.split
      dest!: sym [of _ "m_fields _"] simp flip: find_tag_None)

definition field_count :: "fix_message \<Rightarrow> nat" where
  "field_count m = length (m_fields m)"

definition get_int :: "fix_message \<Rightarrow> int \<Rightarrow> int option" where
  "get_int m t =
     (case get_field m t of
        None \<Rightarrow> None
      | Some v \<Rightarrow> (case from_chars v of FC_ok r _ \<Rightarrow> Some r | _ \<Rightarrow> None))"

text \<open>
  \<open>get_double\<close> copies the value into a buffer of 64 bytes and gives it to \<open>strtod\<close>, which
  stops at the first NUL.  The conversion to a binary floating-point number is a parameter:
  it returns the number and how many characters it has read.
\<close>

definition get_double :: "(string \<Rightarrow> 'd \<times> nat) \<Rightarrow> fix_message \<Rightarrow> int \<Rightarrow> 'd option" where
  "get_double strtod m t =
     (case get_field m t of
        None \<Rightarrow> None
      | Some v \<Rightarrow>
          if length v \<ge> 64 then None
          else (let (res, n) = strtod (takeWhile (\<lambda>c. c \<noteq> CHR 0x00) v)
                in if n = length v then Some res else None))"

text \<open>
  Where \<open>get_int\<close> refuses an empty value, \<open>get_double\<close> reads what \<open>strtod\<close> returns when it
  can convert nothing, which is documented to be zero with no character read.
\<close>

lemma get_double_empty:
  assumes "strtod [] = (zero, 0)" "get_field m t = Some []"
  shows "get_double strtod m t = Some zero" "get_int m t = None"
  using assms by (simp_all add: get_double_def get_int_def from_chars_def)

lemma get_double_whole:
  "get_double strtod m t = Some x \<Longrightarrow> (\<And>s. snd (strtod s) \<le> length s) \<Longrightarrow>
     \<exists>v. get_field m t = Some v \<and> length v < 64 \<and> CHR 0x00 \<notin> set v \<and> strtod v = (x, length v)"
proof -
  assume x: "get_double strtod m t = Some x" and le: "\<And>s. snd (strtod s) \<le> length s"
  from x obtain v where v: "get_field m t = Some v" "length v < 64"
      "strtod (takeWhile (\<lambda>c. c \<noteq> CHR 0x00) v) = (x, length v)"
    by (auto simp: get_double_def split: option.splits if_splits prod.splits)
  have "length v \<le> length (takeWhile (\<lambda>c. c \<noteq> CHR 0x00) v)"
    using le [of "takeWhile (\<lambda>c. c \<noteq> CHR 0x00) v"] v(3) by simp
  then have "take (length (takeWhile (\<lambda>c. c \<noteq> CHR 0x00) v)) v = v" by (rule take_all)
  then have all: "takeWhile (\<lambda>c. c \<noteq> CHR 0x00) v = v"
    using takeWhile_eq_take [of "\<lambda>c. c \<noteq> CHR 0x00" v] by (rule ssubst [rotated])
  then have "CHR 0x00 \<notin> set v" by (auto simp: takeWhile_eq_all_conv)
  with v all show ?thesis by auto
qed

section \<open>The parse loop\<close>

record parse_state =
  ps_pos :: nat
  ps_fields :: "fix_field list"
  ps_body_start :: "nat option"
  ps_body_end :: "nat option"
  ps_checksum_start :: "nat option"

definition parse_init :: parse_state where
  "parse_init = \<lparr>ps_pos = 0, ps_fields = [], ps_body_start = None, ps_body_end = None,
     ps_checksum_start = None\<rparr>"

definition trailing_char :: "char \<Rightarrow> char \<Rightarrow> bool" where
  "trailing_char sep c \<longleftrightarrow> c = sep \<or> c = CHR 0x0D \<or> c = CHR 0x0A \<or> c = CHR '' ''"

text \<open>
  One iteration of the loop: an error return, \<open>Inr None\<close> for the \<open>break\<close> on trailing
  white space, or the state after one more field.
\<close>

definition parse_field :: "string \<Rightarrow> char \<Rightarrow> parse_state \<Rightarrow> parse_error + parse_state option" where
  "parse_field raw sep st =
     (let pos = ps_pos st; idx = length (ps_fields st) in
      if idx \<ge> MAX_FIELDS then Inl TooManyFields
      else case sv_find raw CHR ''='' pos of
        None \<Rightarrow> if list_all (trailing_char sep) (drop pos raw) then Inr None else Inl InvalidFormat
      | Some eq \<Rightarrow>
          (case sv_find raw sep eq of
             None \<Rightarrow> Inl InvalidFormat
           | Some soh \<Rightarrow>
               (let tag_str = sv_substr raw pos (eq - pos);
                    val_str = sv_substr raw (eq + 1) (size_sub soh (eq + 1))
                in case from_chars tag_str of
                     FC_ok t n \<Rightarrow>
                       if n \<noteq> length tag_str then Inl InvalidFormat
                       else if idx = 0 \<and> t \<noteq> 8 then Inl InvalidBeginString
                       else if idx = 1 \<and> t \<noteq> 9 then Inl MissingBodyLength
                       else Inr (Some \<lparr>ps_pos = soh + 1,
                              ps_fields = ps_fields st @ [\<lparr>ftag = t, fvalue = val_str\<rparr>],
                              ps_body_start = (if idx = 1 then Some (soh + 1) else ps_body_start st),
                              ps_body_end = (if t = 10 then Some pos else ps_body_end st),
                              ps_checksum_start = (if t = 10 then Some pos else ps_checksum_start st)\<rparr>)
                   | _ \<Rightarrow> Inl InvalidFormat)))"

lemma parse_field_advances:
  "parse_field raw sep st = Inr (Some st') \<Longrightarrow> ps_pos st < ps_pos st' \<and> ps_pos st' \<le> length raw"
  by (auto simp: parse_field_def Let_def split: if_splits option.splits from_chars_result.splits
        dest!: sv_find_bounds)

function parse_loop :: "string \<Rightarrow> char \<Rightarrow> parse_state \<Rightarrow> parse_error + parse_state" where
  "parse_loop raw sep st =
     (if ps_pos st < length raw then
        (case parse_field raw sep st of
           Inl e \<Rightarrow> Inl e
         | Inr None \<Rightarrow> Inr st
         | Inr (Some st') \<Rightarrow> parse_loop raw sep st')
      else Inr st)"
  by pat_completeness auto
termination
  by (relation "measure (\<lambda>(raw, sep, st). length raw - ps_pos st)")
    (auto dest: parse_field_advances)

declare parse_loop.simps [simp del]

text \<open>The checksum accumulates in a 32-bit \<open>unsigned int\<close> and is reduced at the end.\<close>

definition byte_sum :: "string \<Rightarrow> 32 word" where
  "byte_sum s = foldl (\<lambda>a c. a + of_char c) 0 s"

definition checksum :: "string \<Rightarrow> 32 word" where
  "checksum s = byte_sum s mod 256"

definition parse_finish :: "string \<Rightarrow> parse_state \<Rightarrow> parse_error + fix_message" where
  "parse_finish raw st =
     (let fs = ps_fields st; msg = \<lparr>m_raw = raw, m_fields = fs\<rparr> in
      if length fs < 3 then Inl InvalidFormat
      else if ftag (fs ! (length fs - 1)) \<noteq> 10 then Inl MissingChecksum
      else case get_int msg 9 of
        None \<Rightarrow> Inl InvalidBodyLength
      | Some expected_body_len \<Rightarrow>
          (case (ps_body_start st, ps_body_end st) of
             (Some bs, Some be) \<Rightarrow>
               if to_int32 (size_sub be bs) \<noteq> expected_body_len then Inl BodyLengthMismatch
               else (case ps_checksum_start st of
                 None \<Rightarrow> Inl MissingChecksum
               | Some cs \<Rightarrow>
                   (case from_chars (fvalue (fs ! (length fs - 1))) of
                      FC_ok e n \<Rightarrow>
                        if e < 0 \<or> e > 255 then Inl InvalidChecksum
                        else if checksum (take cs raw) \<noteq> word_of_int e then Inl ChecksumMismatch
                        else Inr msg
                    | _ \<Rightarrow> Inl InvalidChecksum))
           | _ \<Rightarrow> Inl InvalidFormat))"

definition parse :: "string \<Rightarrow> char \<Rightarrow> parse_error + fix_message" where
  "parse raw sep =
     (if raw = [] then Inl EmptyBuffer
      else case parse_loop raw sep parse_init of
        Inl e \<Rightarrow> Inl e
      | Inr st \<Rightarrow> parse_finish raw st)"

end
