(* ===== verification/Wire_Format.thy ===== *)
theory Wire_Format
  imports Parser
begin

text \<open>
  The wire format as a specification, and the proof that \<open>FixMessage::parse\<close> decides it:
  \<open>wire\<close> concatenates \<open>tag=value<sep>\<close> texts, \<open>absorb\<close> is the effect of one such text on
  the loop of the parser, \<open>frame_verdict\<close> is the specification of the checks.
\<close>

section \<open>Layout of a message\<close>

type_synonym wire_pair = "string \<times> string"

definition wire_field :: "char \<Rightarrow> wire_pair \<Rightarrow> string" where
  "wire_field sep p = fst p @ CHR ''='' # snd p @ [sep]"

definition wire :: "char \<Rightarrow> wire_pair list \<Rightarrow> string" where
  "wire sep ps = concat (map (wire_field sep) ps)"

definition tag_num :: "string \<Rightarrow> int" where
  "tag_num t = from_chars_or0 t"

definition pair_field :: "wire_pair \<Rightarrow> fix_field" where
  "pair_field p = \<lparr>ftag = tag_num (fst p), fvalue = snd p\<rparr>"

text \<open>A tag text the parser reads to its end, and a value free of the separator.\<close>

definition tag_text :: "string \<Rightarrow> bool" where
  "tag_text t \<longleftrightarrow> from_chars t = FC_ok (tag_num t) (length t)"

definition clean_pair :: "char \<Rightarrow> wire_pair \<Rightarrow> bool" where
  "clean_pair sep p \<longleftrightarrow> tag_text (fst p) \<and> sep \<notin> set (snd p)"

definition trailer :: "char \<Rightarrow> string \<Rightarrow> bool" where
  "trailer sep s \<longleftrightarrow> list_all (trailing_char sep) s"

lemma wire_simps [simp]:
  "wire sep [] = []"
  "wire sep (p # ps) = wire_field sep p @ wire sep ps"
  "wire sep (ps @ qs) = wire sep ps @ wire sep qs"
  by (simp_all add: wire_def)

lemma wire_field_neq_Nil [simp]: "wire_field sep p \<noteq> []"
  by (simp add: wire_field_def)

lemma length_wire_field [simp]: "length (wire_field sep p) = length (fst p) + length (snd p) + 2"
  by (simp add: wire_field_def)

lemma from_chars_full_chars:
  assumes "from_chars t = FC_ok v (length t)" "c \<in> set t"
  shows "is_digit c \<or> c = CHR ''-''"
proof (cases "t \<noteq> [] \<and> hd t = CHR ''-''")
  case True
  then obtain u where t: "t = CHR ''-'' # u" by (cases t) auto
  with assms(1) have "length (takeWhile is_digit u) = length u"
    by (auto simp: from_chars_def Let_def split: if_splits)
  then have "takeWhile is_digit u = u"
    by (metis takeWhile_eq_take take_all_iff order_refl)
  with assms(2) t show ?thesis by (auto dest: set_takeWhileD)
next
  case False
  with assms(1) have "length (takeWhile is_digit t) = length t"
    by (auto simp: from_chars_def Let_def split: if_splits)
  then have "takeWhile is_digit t = t"
    by (metis takeWhile_eq_take take_all_iff order_refl)
  with assms(2) show ?thesis by (metis set_takeWhileD)
qed

lemma tag_text_no_eq: "tag_text t \<Longrightarrow> CHR ''='' \<notin> set t"
  unfolding tag_text_def using from_chars_full_chars [of t "tag_num t" "CHR ''=''"] by auto

lemma tag_text_show_int [simp]: "int32 z \<Longrightarrow> tag_text (show_int z)"
  by (simp add: tag_text_def tag_num_def from_chars_or0_def)

lemma tag_num_show_int [simp]: "int32 z \<Longrightarrow> tag_num (show_int z) = z"
  by (simp add: tag_num_def from_chars_or0_def)

lemma trailer_no_eq: "trailer sep s \<Longrightarrow> sep \<noteq> CHR ''='' \<Longrightarrow> CHR ''='' \<notin> set s"
  by (auto simp: trailer_def list_all_iff trailing_char_def)

section \<open>One step of the loop on a laid-out message\<close>

text \<open>What one more pair does to the loop state when no check fails.\<close>

definition absorb :: "char \<Rightarrow> parse_state \<Rightarrow> wire_pair \<Rightarrow> parse_state" where
  "absorb sep st p =
     (let idx = length (ps_fields st); nxt = ps_pos st + length (wire_field sep p);
          t = tag_num (fst p)
      in \<lparr>ps_pos = nxt, ps_fields = ps_fields st @ [pair_field p],
          ps_body_start = (if idx = 1 then Some nxt else ps_body_start st),
          ps_body_end = (if t = 10 then Some (ps_pos st) else ps_body_end st),
          ps_checksum_start = (if t = 10 then Some (ps_pos st) else ps_checksum_start st)\<rparr>)"

definition absorb_all :: "char \<Rightarrow> wire_pair list \<Rightarrow> parse_state" where
  "absorb_all sep ps = foldl (absorb sep) parse_init ps"

lemma absorb_all_snoc [simp]: "absorb_all sep (ps @ [p]) = absorb sep (absorb_all sep ps) p"
  by (simp add: absorb_all_def)

lemma absorb_all_Nil [simp]: "absorb_all sep [] = parse_init"
  by (simp add: absorb_all_def)

lemma absorb_all_fields [simp]: "ps_fields (absorb_all sep ps) = map pair_field ps"
  by (induction ps rule: rev_induct) (auto simp: absorb_def Let_def parse_init_def)

lemma absorb_all_pos [simp]: "ps_pos (absorb_all sep ps) = length (wire sep ps)"
  by (induction ps rule: rev_induct) (auto simp: absorb_def Let_def parse_init_def)

lemma absorb_all_body_start:
  "ps_body_start (absorb_all sep ps) =
     (if length ps < 2 then None else Some (length (wire sep (take 2 ps))))"
proof (induction ps rule: rev_induct)
  case (snoc p ps)
  show ?case
  proof (cases "length ps = 1")
    case True
    then obtain q where "ps = [q]" by (cases ps) auto
    then show ?thesis
      using absorb_all_snoc [of sep "[q]" p] absorb_all_pos [of sep "[q]"]
        absorb_all_fields [of sep "[q]"]
      by (simp add: absorb_def Let_def)
  next
    case False
    with snoc show ?thesis by (auto simp: absorb_def Let_def dest: less_2_cases)
  qed
qed (simp add: parse_init_def)

lemma absorb_all_last10:
  assumes "ps \<noteq> []" "tag_num (fst (last ps)) = 10"
  shows "ps_body_end (absorb_all sep ps) = Some (length (wire sep (butlast ps)))"
    and "ps_checksum_start (absorb_all sep ps) = Some (length (wire sep (butlast ps)))"
  using assms by (induction ps rule: rev_induct) (auto simp: absorb_def Let_def)

definition pair_verdict :: "nat \<Rightarrow> wire_pair \<Rightarrow> parse_error option" where
  "pair_verdict idx p =
     (if idx \<ge> MAX_FIELDS then Some TooManyFields
      else if idx = 0 \<and> tag_num (fst p) \<noteq> 8 then Some InvalidBeginString
      else if idx = 1 \<and> tag_num (fst p) \<noteq> 9 then Some MissingBodyLength
      else None)"

lemma parse_field_pair:
  assumes "sep \<noteq> CHR ''=''" "clean_pair sep p" "raw = pre @ wire_field sep p @ rest"
    "ps_pos st = length pre"
  shows "parse_field raw sep st =
     (case pair_verdict (length (ps_fields st)) p of
        Some e \<Rightarrow> Inl e | None \<Rightarrow> Inr (Some (absorb sep st p)))"
proof -
  let ?t = "fst p" and ?v = "snd p"
  have noeq: "CHR ''='' \<notin> set ?t" and nosep: "sep \<notin> set ?v" and ttext: "tag_text ?t"
    using assms(2) by (auto simp: clean_pair_def dest: tag_text_no_eq)
  have eq: "sv_find raw CHR ''='' (length pre) = Some (length pre + length ?t)"
    using noeq by (simp add: assms(3) wire_field_def text_simps)
  have raw2: "raw = (pre @ ?t) @ CHR ''='' # ?v @ sep # rest"
    by (simp add: assms(3) wire_field_def)
  have soh: "sv_find raw sep (length pre + length ?t) = Some (length pre + length ?t + 1 + length ?v)"
    using assms(1) nosep sv_find_append [of "pre @ ?t" "CHR ''='' # ?v @ sep # rest" sep]
    by (simp add: raw2 text_simps)
  have t: "sv_substr raw (length pre) (length pre + length ?t - length pre) = ?t"
    by (simp add: raw2 sv_substr_def)
  have v: "sv_substr raw (Suc (length pre + length ?t)) (length ?v) = ?v"
    by (simp add: raw2 sv_substr_def)
  have fc: "from_chars ?t = FC_ok (tag_num ?t) (length ?t)"
    using ttext by (simp add: tag_text_def)
  show ?thesis
    using assms(4) t v
    by (simp add: parse_field_def Let_def eq soh fc pair_verdict_def absorb_def pair_field_def)
qed

lemma parse_field_tail:
  assumes "sep \<noteq> CHR ''=''" "trailer sep tail" "drop (ps_pos st) raw = tail"
    "length (ps_fields st) < MAX_FIELDS"
  shows "parse_field raw sep st = Inr None"
  using assms trailer_no_eq [OF assms(2,1)]
  by (simp add: parse_field_def sv_find_def Let_def trailer_def)

text \<open>Conversely every iteration that goes on has read one clean pair.\<close>

lemma parse_field_SomeD:
  assumes "parse_field raw sep st = Inr (Some st')" "sep \<noteq> CHR ''=''" "raw = pre @ s"
    "ps_pos st = length pre"
  obtains p rest where "s = wire_field sep p @ rest" "clean_pair sep p" "st' = absorb sep st p"
    "pair_verdict (length (ps_fields st)) p = None"
proof -
  from assms obtain i where i: "index_of CHR ''='' s = Some i"
    by (auto simp: parse_field_def Let_def sv_find_append split: if_splits option.splits)
  obtain t r where t: "s = t @ CHR ''='' # r" "length t = i" "CHR ''='' \<notin> set t"
    by (rule index_of_split [OF i])
  have eq: "sv_find raw CHR ''='' (length pre) = Some (length pre + length t)"
    using t by (simp add: assms(3) text_simps)
  have soh: "sv_find raw sep (length pre + length t) =
      map_option (\<lambda>j. length pre + length t + 1 + j) (index_of sep r)"
    using assms(2) sv_find_append [of "pre @ t" "CHR ''='' # r" sep]
    by (cases "index_of sep r") (simp_all add: assms(3) t)
  from assms(1) obtain j where j: "index_of sep r = Some j"
    by (auto simp: parse_field_def Let_def assms(4) eq soh split: if_splits option.splits)
  obtain v rest where v: "r = v @ sep # rest" "length v = j" "sep \<notin> set v"
    by (rule index_of_split [OF j])
  have s: "s = wire_field sep (t, v) @ rest"
    by (simp add: t v wire_field_def)
  have ts: "sv_substr raw (length pre) (length t) = t"
    by (simp add: assms(3) t(1) sv_substr_def)
  from assms(1) have "tag_text t"
    by (auto simp: parse_field_def Let_def assms(4) eq soh j ts tag_text_def tag_num_def
          from_chars_or0_def
          split: if_splits from_chars_result.splits)
  then have clean: "clean_pair sep (t, v)"
    by (simp add: clean_pair_def v)
  have "parse_field raw sep st =
     (case pair_verdict (length (ps_fields st)) (t, v) of
        Some e \<Rightarrow> Inl e | None \<Rightarrow> Inr (Some (absorb sep st (t, v))))"
    using assms(2) clean _ assms(4) by (rule parse_field_pair) (simp add: assms(3) s)
  with assms(1) have "st' = absorb sep st (t, v)" "pair_verdict (length (ps_fields st)) (t, v) = None"
    by (auto split: option.splits)
  with s clean show thesis by (rule that)
qed

section \<open>The whole loop\<close>

fun pairs_verdict :: "nat \<Rightarrow> wire_pair list \<Rightarrow> parse_error option" where
  "pairs_verdict idx [] = None"
| "pairs_verdict idx (p # ps) =
     (case pair_verdict idx p of Some e \<Rightarrow> Some e | None \<Rightarrow> pairs_verdict (Suc idx) ps)"

definition loop_verdict :: "wire_pair list \<Rightarrow> string \<Rightarrow> parse_error option" where
  "loop_verdict ps tail =
     (case pairs_verdict 0 ps of
        Some e \<Rightarrow> Some e
      | None \<Rightarrow> if tail \<noteq> [] \<and> length ps \<ge> MAX_FIELDS then Some TooManyFields else None)"

lemma parse_loop_wire:
  assumes "sep \<noteq> CHR ''=''" "list_all (clean_pair sep) (qs @ ps)" "trailer sep tail"
    "raw = wire sep (qs @ ps) @ tail"
  shows "parse_loop raw sep (absorb_all sep qs) =
     (case pairs_verdict (length qs) ps of
        Some e \<Rightarrow> Inl e
      | None \<Rightarrow> if tail \<noteq> [] \<and> length (qs @ ps) \<ge> MAX_FIELDS then Inl TooManyFields
                else Inr (absorb_all sep (qs @ ps)))"
  using assms
proof (induction ps arbitrary: qs)
  case Nil
  have dr: "drop (ps_pos (absorb_all sep qs)) raw = tail" using Nil by simp
  show ?case
  proof (cases "tail = []")
    case True
    then show ?thesis using Nil by (simp add: parse_loop.simps)
  next
    case False
    have "parse_field raw sep (absorb_all sep qs) =
        (if length qs \<ge> MAX_FIELDS then Inl TooManyFields else Inr None)"
      using parse_field_tail [OF Nil(1,3) dr]
      by (auto simp: parse_field_def Let_def not_le)
    with False Nil show ?thesis by (simp add: parse_loop.simps)
  qed
next
  case (Cons p ps)
  have step: "parse_field raw sep (absorb_all sep qs) =
     (case pair_verdict (length qs) p of
        Some e \<Rightarrow> Inl e | None \<Rightarrow> Inr (Some (absorb_all sep (qs @ [p]))))"
    using parse_field_pair [of sep p raw "wire sep qs" "wire sep ps @ tail" "absorb_all sep qs"]
      Cons.prems by (simp split: option.split)
  have "ps_pos (absorb_all sep qs) < length raw" using Cons.prems by simp
  then show ?case
    using step Cons.IH [of "qs @ [p]"] Cons.prems
    by (subst parse_loop.simps) (auto split: option.splits)
qed

lemma parse_loop_InrD:
  assumes "parse_loop raw sep st = Inr st'" "sep \<noteq> CHR ''=''" "st = absorb_all sep qs"
    "raw = wire sep qs @ s" "list_all (clean_pair sep) qs"
  shows "\<exists>ps tail. s = wire sep ps @ tail \<and> trailer sep tail \<and> list_all (clean_pair sep) (qs @ ps)
    \<and> st' = absorb_all sep (qs @ ps)"
  using assms
proof (induction raw sep st arbitrary: qs s rule: parse_loop.induct)
  case (1 raw sep st)
  have pos: "ps_pos st = length (wire sep qs)" by (simp add: 1(4))
  show ?case
  proof (cases "ps_pos st < length raw")
    case False
    with 1(2,4,5,6) have "st' = absorb_all sep qs \<and> s = []"
      by (simp add: parse_loop.simps)
    then show ?thesis using 1(6) by (intro exI [of _ "[]"]) (simp add: trailer_def)
  next
    case True
    show ?thesis
    proof (cases "parse_field raw sep st")
      case (Inl e)
      with 1(2) True show ?thesis by (simp add: parse_loop.simps)
    next
      case (Inr o')
      show ?thesis
      proof (cases o')
        case None
        with 1(2) True Inr have "st' = st" by (simp add: parse_loop.simps)
        moreover have "trailer sep s"
          using Inr None pos 1(5)
          by (auto simp: parse_field_def Let_def trailer_def split: if_splits option.splits
              from_chars_result.splits)
        ultimately show ?thesis
          using 1(4,6) by (intro exI [of _ "[]"] exI [of _ s]) simp
      next
        case (Some st2)
        obtain p rest where p: "s = wire_field sep p @ rest" "clean_pair sep p" "st2 = absorb sep st p"
          by (rule parse_field_SomeD [of raw sep st st2 "wire sep qs" s])
            (use Inr Some 1(3,5) pos in auto)
        have "\<exists>ps tail. rest = wire sep ps @ tail \<and> trailer sep tail \<and>
            list_all (clean_pair sep) ((qs @ [p]) @ ps) \<and> st' = absorb_all sep ((qs @ [p]) @ ps)"
        proof (rule 1(1) [OF True Inr Some])
          show "parse_loop raw sep st2 = Inr st'"
            using 1(2) True Inr Some by (simp add: parse_loop.simps [of raw sep st])
        qed (use p 1(3,4,5,6) in auto)
        then obtain ps tail where "rest = wire sep ps @ tail" "trailer sep tail"
          "list_all (clean_pair sep) (qs @ p # ps)" "st' = absorb_all sep (qs @ p # ps)" by auto
        with p(1) show ?thesis by (intro exI [of _ "p # ps"] exI [of _ tail]) simp
      qed
    qed
  qed
qed

section \<open>The verdict on a laid-out message\<close>

definition body_pairs :: "wire_pair list \<Rightarrow> wire_pair list" where
  "body_pairs ps = butlast (drop 2 ps)"

definition byte_total :: "string \<Rightarrow> nat" where
  "byte_total s = sum_list (map of_char s)"

definition checksum_verdict :: "char \<Rightarrow> wire_pair list \<Rightarrow> parse_error option" where
  "checksum_verdict sep ps =
     (case from_chars (snd (last ps)) of
        FC_ok e _ \<Rightarrow>
          if e < 0 \<or> e > 255 then Some InvalidChecksum
          else if e \<noteq> int (byte_total (wire sep (butlast ps)) mod 256) then Some ChecksumMismatch
          else None
      | _ \<Rightarrow> Some InvalidChecksum)"

definition frame_verdict :: "char \<Rightarrow> wire_pair list \<Rightarrow> string \<Rightarrow> parse_error option" where
  "frame_verdict sep ps tail =
     (case loop_verdict ps tail of
        Some e \<Rightarrow> Some e
      | None \<Rightarrow>
          if length ps < 3 then Some InvalidFormat
          else if tag_num (fst (last ps)) \<noteq> 10 then Some MissingChecksum
          else (case from_chars (snd (ps ! 1)) of
             FC_ok n _ \<Rightarrow>
               if n \<noteq> to_int32 (length (wire sep (body_pairs ps))) then Some BodyLengthMismatch
               else checksum_verdict sep ps
           | _ \<Rightarrow> Some InvalidBodyLength))"

lemma byte_sum_append [simp]: "byte_sum (xs @ [c]) = byte_sum xs + of_char c"
  by (simp add: byte_sum_def)

lemma unat_of_char32: "unat (of_char c :: 32 word) = of_char c"
proof -
  have "(of_char c :: 32 word) = word_of_nat (of_char c)"
    by (metis of_nat_of_char)
  moreover have "of_char c < (256 :: nat)"
    by (metis of_char_mod_256 mod_less_divisor zero_less_numeral)
  then have "of_char c < (2 ^ 32 :: nat)"
    by (rule less_trans) simp
  then have "of_char c mod 2 ^ 32 = (of_char c :: nat)"
    by (rule mod_less)
  ultimately show ?thesis by (simp add: unat_of_nat)
qed

lemma byte_sum_unat: "unat (byte_sum s) = byte_total s mod 2 ^ 32"
proof (induction s rule: rev_induct)
  case Nil
  then show ?case by (simp add: byte_sum_def byte_total_def)
next
  case (snoc c s)
  then show ?case
    by (simp add: unat_word_ariths unat_of_char32 byte_total_def mod_add_left_eq)
qed

text \<open>The wrap-around of the 32-bit accumulator is invisible modulo 256.\<close>

lemma checksum_unat: "unat (checksum s) = byte_total s mod 256"
proof -
  have "(256 :: nat) dvd 2 ^ 32" by simp
  then have "(byte_total s mod 2 ^ 32) mod 256 = byte_total s mod 256"
    by (rule mod_mod_cancel)
  then show ?thesis by (simp add: checksum_def unat_mod byte_sum_unat)
qed

lemma checksum_eq_iff:
  assumes "0 \<le> e" "e \<le> 255"
  shows "checksum s = word_of_int e \<longleftrightarrow> e = int (byte_total s mod 256)"
proof -
  have "uint (word_of_int e :: 32 word) = e"
    using assms by (simp add: uint_word_of_int)
  moreover have "checksum s = word_of_int e \<longleftrightarrow> uint (checksum s) = uint (word_of_int e :: 32 word)"
    by (simp add: word_uint_eq_iff)
  moreover have "uint (checksum s) = int (byte_total s mod 256)"
    by (metis checksum_unat uint_nat)
  ultimately show ?thesis by auto
qed

lemma pairs_verdict_None:
  assumes "pairs_verdict k ps = None" "i < length ps"
  shows "pair_verdict (k + i) (ps ! i) = None"
  using assms
proof (induction ps arbitrary: k i)
  case (Cons p ps)
  then show ?case
    using Cons.IH [of "Suc k" "i - 1"] by (cases i) (auto split: option.splits)
qed simp

lemma loop_verdict_head:
  assumes "loop_verdict ps tail = None" "2 \<le> length ps"
  shows "tag_num (fst (ps ! 0)) = 8" "tag_num (fst (ps ! 1)) = 9"
proof -
  have "pairs_verdict 0 ps = None" using assms(1) by (auto simp: loop_verdict_def split: option.splits)
  from pairs_verdict_None [OF this, of 0] pairs_verdict_None [OF this, of 1] assms(2)
  have "pair_verdict 0 (ps ! 0) = None" "pair_verdict 1 (ps ! 1) = None" by force+
  then show "tag_num (fst (ps ! 0)) = 8" "tag_num (fst (ps ! 1)) = 9"
    by (auto simp: pair_verdict_def split: if_splits)
qed

lemma find_tag_second:
  assumes "loop_verdict ps tail = None" "2 \<le> length ps"
  shows "find_tag (map pair_field ps) 9 = Some (snd (ps ! 1))"
proof -
  obtain p q rs where ps: "ps = p # q # rs"
    using assms(2) by (cases ps; cases "tl ps") auto
  with loop_verdict_head [OF assms] show ?thesis by (simp add: pair_field_def)
qed

lemma wire_split3:
  assumes "3 \<le> length ps"
  shows "wire sep (butlast ps) = wire sep (take 2 ps) @ wire sep (body_pairs ps)"
    and "wire sep ps = wire sep (butlast ps) @ wire_field sep (last ps)"
proof -
  obtain p q rs where ps: "ps = p # q # rs" "rs \<noteq> []"
    using assms by (cases ps; cases "tl ps"; cases "tl (tl ps)") auto
  then show "wire sep (butlast ps) = wire sep (take 2 ps) @ wire sep (body_pairs ps)"
    by (simp add: body_pairs_def)
  from ps have "ps = butlast ps @ [last ps]" by simp
  then show "wire sep ps = wire sep (butlast ps) @ wire_field sep (last ps)"
    by (metis append_Nil2 wire_simps)
qed

lemma parse_finish_wire:
  assumes "loop_verdict ps tail = None" "raw = wire sep ps @ tail"
  shows "parse_finish raw (absorb_all sep ps) =
     (case frame_verdict sep ps tail of
        Some e \<Rightarrow> Inl e | None \<Rightarrow> Inr \<lparr>m_raw = raw, m_fields = map pair_field ps\<rparr>)"
proof (cases "length ps < 3 \<or> tag_num (fst (last ps)) \<noteq> 10")
  case True
  have "3 \<le> length ps \<Longrightarrow> ftag (map pair_field ps ! (length ps - 1)) = tag_num (fst (last ps))"
    by (cases "ps = []") (simp_all add: last_conv_nth pair_field_def)
  with True show ?thesis
    by (cases "length ps < 3") (simp_all add: parse_finish_def Let_def frame_verdict_def assms(1))
next
  case False
  then have ps: "3 \<le> length ps" "ps \<noteq> []" "tag_num (fst (last ps)) = 10" by auto
  have lastf: "map pair_field ps ! (length ps - 1) = pair_field (last ps)"
    using ps by (simp add: last_conv_nth)
  have g9: "get_int \<lparr>m_raw = raw, m_fields = map pair_field ps\<rparr> 9 =
      (case from_chars (snd (ps ! 1)) of FC_ok r _ \<Rightarrow> Some r | _ \<Rightarrow> None)"
    using find_tag_second [OF assms(1)] ps(1) by (simp add: get_int_def get_field_def)
  have bs: "ps_body_start (absorb_all sep ps) = Some (length (wire sep (take 2 ps)))"
    using ps(1) by (simp add: absorb_all_body_start)
  have be: "ps_body_end (absorb_all sep ps) =
      Some (length (wire sep (take 2 ps)) + length (wire sep (body_pairs ps)))"
    using absorb_all_last10(1) [OF ps(2,3)] wire_split3(1) [OF ps(1)] by simp
  have raw: "take (length (wire sep (butlast ps))) raw = wire sep (butlast ps)"
    using wire_split3(2) [OF ps(1), of sep] by (simp add: assms(2))
  have cs: "ps_checksum_start (absorb_all sep ps) = Some (length (wire sep (butlast ps)))"
    by (rule absorb_all_last10(2) [OF ps(2,3)])
  have tail_check: "(case from_chars (fvalue (pair_field (last ps))) of
        FC_ok e n \<Rightarrow>
          if e < 0 \<or> e > 255 then Inl InvalidChecksum
          else if checksum (take (length (wire sep (butlast ps))) raw) \<noteq> word_of_int e
          then Inl ChecksumMismatch else Inr msg
      | _ \<Rightarrow> Inl InvalidChecksum) =
      (case checksum_verdict sep ps of Some e \<Rightarrow> Inl e | None \<Rightarrow> Inr msg)" for msg
    unfolding raw by (cases "from_chars (snd (last ps))")
      (simp_all add: checksum_verdict_def pair_field_def checksum_eq_iff)
  have "\<not> length (map pair_field ps) < 3" "ftag (pair_field (last ps)) = 10"
    using ps by (simp_all add: pair_field_def)
  then show ?thesis
    unfolding parse_finish_def Let_def absorb_all_fields length_map lastf g9 bs be cs frame_verdict_def assms(1)
    using ps(1,3) by (cases "from_chars (snd (ps ! 1))") (simp_all add: tail_check)
qed

text \<open>On every laid-out text the parser returns exactly what the specification says.\<close>

lemma parse_wire:
  assumes "sep \<noteq> CHR ''=''" "list_all (clean_pair sep) ps" "trailer sep tail"
  shows "parse (wire sep ps @ tail) sep =
     (if wire sep ps @ tail = [] then Inl EmptyBuffer
      else case frame_verdict sep ps tail of
        Some e \<Rightarrow> Inl e
      | None \<Rightarrow> Inr \<lparr>m_raw = wire sep ps @ tail, m_fields = map pair_field ps\<rparr>)"
proof -
  have loop: "parse_loop (wire sep ps @ tail) sep parse_init =
     (case loop_verdict ps tail of Some e \<Rightarrow> Inl e | None \<Rightarrow> Inr (absorb_all sep ps))"
    using parse_loop_wire [of sep "[]" ps tail "wire sep ps @ tail"] assms
    by (simp add: loop_verdict_def split: option.split)
  show ?thesis
  proof (cases "loop_verdict ps tail")
    case None
    then show ?thesis
      using loop parse_finish_wire [OF None refl, of sep] by (simp add: parse_def)
  next
    case (Some e)
    then show ?thesis using loop by (simp add: parse_def frame_verdict_def)
  qed
qed

lemma parse_sound:
  assumes "parse raw sep = Inr m" "sep \<noteq> CHR ''=''"
  shows "\<exists>ps tail. raw = wire sep ps @ tail \<and> list_all (clean_pair sep) ps \<and> trailer sep tail \<and>
     frame_verdict sep ps tail = None \<and> m = \<lparr>m_raw = raw, m_fields = map pair_field ps\<rparr>"
proof -
  from assms(1) obtain st where st: "parse_loop raw sep parse_init = Inr st" "raw \<noteq> []"
    by (auto simp: parse_def split: if_splits sum.splits)
  from parse_loop_InrD [OF st(1) assms(2), of "[]" raw]
  obtain ps tail where ps: "raw = wire sep ps @ tail" "trailer sep tail" "list_all (clean_pair sep) ps"
    by auto
  with parse_wire [OF assms(2) ps(3,2)] assms(1) st(2) show ?thesis
    by (intro exI [of _ ps] exI [of _ tail]) (auto split: option.splits)
qed

section \<open>The equals sign as separator\<close>

lemma parse_field_stop:
  "parse_field raw sep st = Inr None \<Longrightarrow>
     list_all (trailing_char sep) (drop (ps_pos st) raw) \<and> CHR ''='' \<notin> set (drop (ps_pos st) raw)"
  by (cases "sv_find raw (CHR ''='') (ps_pos st)")
    (auto simp: parse_field_def Let_def sv_find_None
      split: if_splits option.splits from_chars_result.splits)

lemma sv_find_again: "sv_find s c pos = Some i \<Longrightarrow> sv_find s c i = Some i"
proof -
  assume "sv_find s c pos = Some i"
  then have "i < length s" "s ! i = c"
    by (auto simp: sv_find_def dest!: index_of_SomeD)
  then have "index_of c (drop i s) = Some 0"
    by (simp add: Cons_nth_drop_Suc [symmetric])
  then show ?thesis by (simp add: sv_find_def)
qed

text \<open>
  With \<open>=\<close> as separator the value wraps to the rest of the buffer (\<open>soh - (eq + 1)\<close>
  is \<open>npos\<close>), so the last value is what the loop leaves unread.
\<close>

lemma parse_field_eq_sep:
  "parse_field raw (CHR ''='') st = Inr (Some st') \<Longrightarrow>
     fvalue (last (ps_fields st')) = take npos (drop (ps_pos st') raw)"
  by (cases "sv_find raw (CHR ''='') (ps_pos st)")
    (auto simp: parse_field_def Let_def sv_find_again sv_substr_def
      split: if_splits from_chars_result.splits)

lemma parse_loop_eq_sep:
  assumes "parse_loop raw (CHR ''='') st = Inr st'"
    "ps_fields st = [] \<or> fvalue (last (ps_fields st)) = take npos (drop (ps_pos st) raw)"
  shows "list_all (trailing_char (CHR ''='')) (drop (ps_pos st') raw) \<and> CHR ''='' \<notin> set (drop (ps_pos st') raw) \<and>
    (ps_fields st' = [] \<or> fvalue (last (ps_fields st')) = take npos (drop (ps_pos st') raw))"
  using assms
proof (induction raw "CHR ''=''" st rule: parse_loop.induct)
  case (1 raw st)
  show ?case
  proof (cases "ps_pos st < length raw")
    case False
    with 1(2,3) show ?thesis by (simp add: parse_loop.simps)
  next
    case True
    note loop = 1(2) [unfolded parse_loop.simps [of raw _ st]]
    show ?thesis
    proof (cases "parse_field raw (CHR ''='') st")
      case (Inl e)
      with loop True show ?thesis by simp
    next
      case (Inr o')
      show ?thesis
      proof (cases o')
        case None
        with loop True Inr have "st' = st" by simp
        with parse_field_stop Inr None 1(3) show ?thesis by blast
      next
        case (Some st2)
        have "parse_loop raw (CHR ''='') st2 = Inr st'"
          using loop True Inr Some by simp
        with 1(1) [OF True Inr Some] parse_field_eq_sep Inr Some show ?thesis by blast
      qed
    qed
  qed
qed

lemma parse_finish_InrD:
  assumes "parse_finish raw st = Inr m"
  shows "3 \<le> length (ps_fields st)" "from_chars (fvalue (last (ps_fields st))) \<noteq> FC_invalid"
proof -
  show n: "3 \<le> length (ps_fields st)"
    using assms by (cases "length (ps_fields st) < 3") (simp_all add: parse_finish_def Let_def)
  then have "ps_fields st ! (length (ps_fields st) - 1) = last (ps_fields st)"
    by (metis last_conv_nth list.size(3) not_numeral_le_zero)
  then show "from_chars (fvalue (last (ps_fields st))) \<noteq> FC_invalid"
    using assms
    by (cases "from_chars (fvalue (last (ps_fields st)))")
      (simp_all add: parse_finish_def Let_def split: if_splits option.splits)
qed

lemma parse_eq_sep_rejects: "parse raw (CHR ''='') \<noteq> Inr m"
proof
  assume a: "parse raw (CHR ''='') = Inr m"
  then obtain st where st: "parse_loop raw (CHR ''='') parse_init = Inr st" "parse_finish raw st = Inr m"
    by (auto simp: parse_def split: if_splits sum.splits)
  have "ps_fields parse_init = []" by (simp add: parse_init_def)
  with parse_loop_eq_sep [OF st(1)]
  have tr: "list_all (trailing_char (CHR ''='')) (drop (ps_pos st) raw)" "CHR ''='' \<notin> set (drop (ps_pos st) raw)"
    "ps_fields st = [] \<or> fvalue (last (ps_fields st)) = take npos (drop (ps_pos st) raw)"
    by blast+
  define v where "v = fvalue (last (ps_fields st))"
  from parse_finish_InrD(1) [OF st(2)] have ne: "ps_fields st \<noteq> []" by auto
  have "c = CHR 0x0D \<or> c = CHR 0x0A \<or> c = CHR '' ''" if "c \<in> set (drop (ps_pos st) raw)" for c
    using tr(1,2) that unfolding list_all_iff trailing_char_def by metis
  moreover have "set v \<subseteq> set (drop (ps_pos st) raw)"
    using tr(3) ne by (simp add: v_def set_take_subset)
  ultimately have blank: "c = CHR 0x0D \<or> c = CHR 0x0A \<or> c = CHR '' ''" if "c \<in> set v" for c
    using that by blast
  have "from_chars v = FC_invalid"
    using blank [of "hd v"]
    by (cases v) (auto simp: from_chars_def Let_def is_digit_def)
  with parse_finish_InrD(2) [OF st(2)] show False by (simp add: v_def)
qed

section \<open>Bounds and error codes\<close>

lemma loop_verdict_count: "loop_verdict ps tail = None \<Longrightarrow> length ps \<le> MAX_FIELDS"
proof (cases ps rule: rev_cases)
  case (snoc qs q)
  assume "loop_verdict ps tail = None"
  then have "pairs_verdict 0 ps = None" by (simp add: loop_verdict_def split: option.splits)
  from pairs_verdict_None [OF this, of "length qs"] snoc show ?thesis
    by (simp add: pair_verdict_def split: if_splits)
qed simp

lemma sublist_wire_value: "p \<in> set ps \<Longrightarrow> sublist (snd p) (wire sep ps @ tail)"
proof -
  assume "p \<in> set ps"
  then obtain qs rs where "ps = qs @ p # rs" by (meson split_list)
  then have "wire sep ps @ tail =
      (wire sep qs @ fst p @ ''='') @ snd p @ ([sep] @ wire sep rs @ tail)"
    by (simp add: wire_field_def)
  then show ?thesis unfolding sublist_def by blast
qed

lemma parse_field_errors:
  "parse_field raw sep st = Inl e \<Longrightarrow>
     e \<in> {TooManyFields, InvalidFormat, InvalidBeginString, MissingBodyLength}"
  by (auto simp: parse_field_def Let_def split: if_splits option.splits from_chars_result.splits)

lemma parse_loop_errors:
  "parse_loop raw sep st = Inl e \<Longrightarrow>
     e \<in> {TooManyFields, InvalidFormat, InvalidBeginString, MissingBodyLength}"
proof (induction raw sep st rule: parse_loop.induct)
  case (1 raw sep st)
  from 1(2) show ?case
    by (subst (asm) parse_loop.simps)
      (auto dest: parse_field_errors 1(1) split: if_splits sum.splits option.splits)
qed

lemma parse_finish_errors:
  "parse_finish raw st = Inl e \<Longrightarrow> e \<notin> {EmptyBuffer, ParseOk, TagNotFound}"
  by (auto simp: parse_finish_def Let_def
      split: if_splits option.splits from_chars_result.splits)

section \<open>Properties\<close>

text \<open>
  C3: \<open>FixMessage::parse\<close> accepts a buffer exactly when the separator is not \<open>=\<close>
  and the buffer is a laid-out message that passes every check of the specification,
  followed by trailing separators and white space only; the message returned then has the
  laid-out tags and values, in order.
\<close>

theorem parse_accepts_iff:
  "parse raw sep = Inr m \<longleftrightarrow>
     sep \<noteq> CHR ''='' \<and>
     (\<exists>ps tail. raw = wire sep ps @ tail \<and> list_all (clean_pair sep) ps \<and> trailer sep tail \<and>
        frame_verdict sep ps tail = None \<and> m = \<lparr>m_raw = raw, m_fields = map pair_field ps\<rparr>)"
proof (cases "sep = CHR ''=''")
  case True
  then show ?thesis using parse_eq_sep_rejects by blast
next
  case False
  have "parse raw sep = Inr m"
    if "raw = wire sep ps @ tail" "list_all (clean_pair sep) ps" "trailer sep tail"
      "frame_verdict sep ps tail = None" "m = \<lparr>m_raw = raw, m_fields = map pair_field ps\<rparr>" for ps tail
  proof -
    have "3 \<le> length ps"
      using that(4) by (auto simp: frame_verdict_def split: option.splits if_splits)
    then have "wire sep ps \<noteq> []" by (cases ps) auto
    with parse_wire [OF False that(2,3)] that(1,4,5) show ?thesis by simp
  qed
  with False parse_sound [of raw sep m] show ?thesis by blast
qed

text \<open>
  C4: on every laid-out text, whatever its tags, lengths and checksum, the parser
  returns exactly the error that the first failing check of the specification names, and
  the message when none fails.
\<close>

theorem parse_verdict:
  assumes "sep \<noteq> CHR ''=''" "list_all (clean_pair sep) ps" "trailer sep tail"
  shows "parse (wire sep ps @ tail) sep =
     (if wire sep ps @ tail = [] then Inl EmptyBuffer
      else case frame_verdict sep ps tail of
        Some e \<Rightarrow> Inl e
      | None \<Rightarrow> Inr \<lparr>m_raw = wire sep ps @ tail, m_fields = map pair_field ps\<rparr>)"
  using assms by (rule parse_wire)

theorem parse_verdict_witness:
  "parse (wire (CHR ''|'') [(''8'', ''FIX.4.2''), (''9'', ''5''), (''35'', ''A''), (''10'', ''000'')] @ ''|'') (CHR ''|'')
     = Inl ChecksumMismatch"
  by (subst parse_verdict) code_simp+

text \<open>
  The checksum accumulated in a 32-bit unsigned integer is the sum of the bytes
  modulo 256, for buffers of any length.
\<close>

theorem checksum_is_byte_sum: "unat (checksum s) = sum_list (map of_char s) mod (256 :: nat)"
  using checksum_unat [of s] by (simp add: byte_total_def)

text \<open>
  C39: a parsed message holds between 3 and 256 fields, begins with tags 8 and 9 and ends
  with tag 10, and every value is a slice of the buffer that does not contain the separator.
\<close>

theorem parsed_message_shape:
  assumes "parse raw sep = Inr m"
  shows "m_raw m = raw \<and> 3 \<le> field_count m \<and> field_count m \<le> 256 \<and>
    ftag (m_fields m ! 0) = 8 \<and> ftag (m_fields m ! 1) = 9 \<and> ftag (last (m_fields m)) = 10 \<and>
    (\<forall>f\<in>set (m_fields m). sublist (fvalue f) raw \<and> sep \<notin> set (fvalue f) \<and> int32 (ftag f))"
proof -
  have "sep \<noteq> CHR ''=''" using assms parse_eq_sep_rejects by blast
  with parse_sound [OF assms] obtain ps tail where ps: "raw = wire sep ps @ tail"
    "list_all (clean_pair sep) ps" "frame_verdict sep ps tail = None"
    "m = \<lparr>m_raw = raw, m_fields = map pair_field ps\<rparr>" by blast
  have loop: "loop_verdict ps tail = None" and n: "3 \<le> length ps" "tag_num (fst (last ps)) = 10"
    using ps(3) by (auto simp: frame_verdict_def split: option.splits if_splits)
  have "length ps \<le> 256"
    by (rule loop_verdict_count [OF loop, unfolded MAX_FIELDS_def])
  moreover have "sublist (snd p) raw \<and> sep \<notin> set (snd p) \<and> int32 (tag_num (fst p))" if "p \<in> set ps" for p
    using that ps(1,2) by (auto simp: list_all_iff clean_pair_def tag_text_def
        intro: sublist_wire_value dest: from_chars_int32)
  moreover have "ps \<noteq> []" using n by auto
  ultimately show ?thesis
    using n loop_verdict_head [OF loop] by (auto simp: ps(4) field_count_def pair_field_def last_map)
qed

theorem parsed_message_shape_witness:
  "case parse ''8=FIX.4.2|9=5|35=A|10=035|'' (CHR ''|'') of
     Inl e \<Rightarrow> False
   | Inr m \<Rightarrow> field_count m \<le> 256 \<and> ftag (last (m_fields m)) = 10"
proof -
  have h: "parse ''8=FIX.4.2|9=5|35=A|10=035|'' (CHR ''|'') =
     Inr \<lparr>m_raw = ''8=FIX.4.2|9=5|35=A|10=035|'',
        m_fields = [\<lparr>ftag = 8, fvalue = ''FIX.4.2''\<rparr>, \<lparr>ftag = 9, fvalue = ''5''\<rparr>,
           \<lparr>ftag = 35, fvalue = ''A''\<rparr>, \<lparr>ftag = 10, fvalue = ''035''\<rparr>]\<rparr>"
    by code_simp
  show ?thesis unfolding h using parsed_message_shape [OF h] by simp
qed

text \<open>
  The parser fails with \<open>EmptyBuffer\<close> on the empty buffer only, and never with the
  two codes that are no parse errors.
\<close>

theorem parse_error_codes:
  "(parse raw sep = Inl EmptyBuffer \<longleftrightarrow> raw = []) \<and> parse raw sep \<noteq> Inl ParseOk \<and>
     parse raw sep \<noteq> Inl TagNotFound"
  by (auto simp: parse_def dest: parse_loop_errors parse_finish_errors split: sum.split)

end
