(* ===== verification/Machine.thy ===== *)
theory Machine
  imports Fixure_Prelude
begin

text \<open>
  What the stateful components share: results that may be undefined behaviour of C++
  (signed overflow, an index past the end), the run of a step function over a list of
  inputs, and the laws of such runs under the contract that steps keep an invariant.
\<close>

section \<open>Defined and undefined results\<close>

datatype 'a cpp = Undefined | Defined 'a

definition cpp_bind :: "'a cpp \<Rightarrow> ('a \<Rightarrow> 'b cpp) \<Rightarrow> 'b cpp" where
  "cpp_bind r f = (case r of Undefined \<Rightarrow> Undefined | Defined x \<Rightarrow> f x)"

lemma cpp_bind_simps [simp]:
  "cpp_bind Undefined f = Undefined" "cpp_bind (Defined x) f = f x"
  by (simp_all add: cpp_bind_def)

lemma cpp_bind_Defined:
  "cpp_bind r f = Defined y \<longleftrightarrow> (\<exists>x. r = Defined x \<and> f x = Defined y)"
  by (cases r) auto

text \<open>\<open>++\<close> on an \<open>int\<close>.\<close>

definition int_incr :: "int \<Rightarrow> int cpp" where
  "int_incr n = (if n = int_max then Undefined else Defined (n + 1))"

lemma int_incr_int32: "int32 n \<Longrightarrow> int_incr n = Defined k \<Longrightarrow> int32 k"
  by (auto simp: int_incr_def int32_def split: if_splits)

section \<open>Runs\<close>

fun run_steps :: "('s \<Rightarrow> 'i \<Rightarrow> ('o \<times> 's) cpp) \<Rightarrow> 's \<Rightarrow> 'i list \<Rightarrow> ('o list \<times> 's) cpp" where
  "run_steps step s [] = Defined ([], s)"
| "run_steps step s (i # is) =
     cpp_bind (step s i) (\<lambda>(out, s1).
       cpp_bind (run_steps step s1 is) (\<lambda>(outs, s2). Defined (out # outs, s2)))"

lemma run_steps_append:
  "run_steps step s (is @ js) =
     cpp_bind (run_steps step s is) (\<lambda>(outs, s1).
       cpp_bind (run_steps step s1 js) (\<lambda>(outs', s2). Defined (outs @ outs', s2)))"
  by (induction "is" arbitrary: s) (auto simp: cpp_bind_def split: cpp.split)

lemma run_steps_length: "run_steps step s is = Defined (outs, s') \<Longrightarrow> length outs = length is"
  by (induction "is" arbitrary: s outs) (auto simp: cpp_bind_Defined)

lemma run_steps_ConsE:
  assumes "run_steps step s (i # is) = Defined (outs, s')"
  obtains out s1 outs' where "step s i = Defined (out, s1)" "run_steps step s1 is = Defined (outs', s')"
    "outs = out # outs'"
  using assms by (auto simp: cpp_bind_Defined)

text \<open>
  The contract of a component whose every operation keeps an invariant.  A state is
  reachable when a run from an initial state ends in it.
\<close>

locale invariant_machine =
  fixes step :: "'s \<Rightarrow> 'i \<Rightarrow> ('o \<times> 's) cpp"
    and initial :: "'s \<Rightarrow> bool"
    and inv :: "'s \<Rightarrow> bool"
  assumes initial_inv: "initial s \<Longrightarrow> inv s"
    and step_inv: "inv s \<Longrightarrow> step s i = Defined (out, s') \<Longrightarrow> inv s'"
begin

lemma run_inv: "inv s \<Longrightarrow> run_steps step s is = Defined (outs, s') \<Longrightarrow> inv s'"
proof (induction "is" arbitrary: s outs)
  case (Cons i "is")
  from Cons.prems(2) show ?case
    by (rule run_steps_ConsE) (use Cons step_inv in blast)
qed simp

lemma reachable_inv: "initial s \<Longrightarrow> run_steps step s is = Defined (outs, s') \<Longrightarrow> inv s'"
  using run_inv initial_inv by blast

end

section \<open>Loops that may not end\<close>

text \<open>
  \<open>while (true)\<close> around a body that goes on with a new state (\<open>Inl\<close>) or leaves the loop
  (\<open>Inr\<close>); \<open>None\<close> is the value of a loop that never ends.
\<close>

partial_function (option) iterate :: "('s \<Rightarrow> ('s + 'r) cpp) \<Rightarrow> 's \<Rightarrow> 'r cpp option" where
  "iterate body s =
     (case body s of
        Undefined \<Rightarrow> Some Undefined
      | Defined (Inr r) \<Rightarrow> Some (Defined r)
      | Defined (Inl s') \<Rightarrow> iterate body s')"

declare iterate.simps [code]

lemma iterate_step:
  "body s = Undefined \<Longrightarrow> iterate body s = Some Undefined"
  "body s = Defined (Inr r) \<Longrightarrow> iterate body s = Some (Defined r)"
  "body s = Defined (Inl s') \<Longrightarrow> iterate body s = iterate body s'"
  by (simp_all add: iterate.simps)

text \<open>A loop ends when every further round brings a measure down.\<close>

lemma iterate_ends:
  assumes "P s"
    and step: "\<And>s s'. P s \<Longrightarrow> body s = Defined (Inl s') \<Longrightarrow> P s' \<and> m s' < (m s :: nat)"
  shows "\<exists>r. iterate body s = Some r"
  using assms(1)
proof (induction "m s" arbitrary: s rule: less_induct)
  case less
  show ?case
  proof (cases "body s")
    case Undefined
    then show ?thesis by (simp add: iterate_step)
  next
    case (Defined x)
    show ?thesis
    proof (cases x)
      case (Inl s')
      with Defined step [OF less.prems, of s'] less.hyps [of s'] show ?thesis
        by (simp add: iterate_step)
    qed (use Defined in \<open>simp add: iterate_step\<close>)
  qed
qed

text \<open>Two loops whose rounds correspond correspond as a whole, not ending included.\<close>

lemma iterate_corresponds:
  fixes body :: "'s \<Rightarrow> ('s + 'r) cpp" and body' :: "'t \<Rightarrow> ('t + 'q) cpp"
  assumes step: "\<And>s. body (h s) = map_cpp (map_sum h g) (body' s)"
  shows "iterate body (h s) = map_option (map_cpp g) (iterate body' s)"
proof -
  let ?rel = "\<lambda>body body'. \<forall>s. body (h s) = map_cpp (map_sum h g) (body' s)"
  have ends: "?rel body body' \<longrightarrow> iterate body (h s) = Some (map_cpp g x)" if "iterate body' s = Some x" for body' s x
  proof (rule iterate.raw_induct [OF _ that], intro impI)
    fix it and body' :: "'t \<Rightarrow> ('t + 'q) cpp" and s x
    assume IH: "\<And>body' s y. it body' s = Some y \<Longrightarrow> ?rel body body' \<longrightarrow> iterate body (h s) = Some (map_cpp g y)"
      and it: "(case body' s of Undefined \<Rightarrow> Some Undefined
        | Defined (Inl s') \<Rightarrow> it body' s' | Defined (Inr r) \<Rightarrow> Some (Defined r)) = Some x"
      and rel: "?rel body body'"
    from rel have "body (h s) = map_cpp (map_sum h g) (body' s)" by blast
    with it IH rel show "iterate body (h s) = Some (map_cpp g x)"
      by (auto simp: iterate_step split: cpp.splits sum.splits)
  qed
  have ended: "\<forall>s. ?rel body body' \<longrightarrow> t = h s \<longrightarrow> (\<exists>x. iterate body' s = Some x)" if "iterate body t = Some y" for body t y
  proof (rule iterate.raw_induct [OF _ that], intro allI impI)
    fix it and body :: "'s \<Rightarrow> ('s + 'r) cpp" and t y s
    assume IH: "\<And>body t y. it body t = Some y \<Longrightarrow>
        \<forall>s. ?rel body body' \<longrightarrow> t = h s \<longrightarrow> (\<exists>x. iterate body' s = Some x)"
      and it: "(case body t of Undefined \<Rightarrow> Some Undefined
        | Defined (Inl s') \<Rightarrow> it body s' | Defined (Inr r) \<Rightarrow> Some (Defined r)) = Some y"
      and rel: "?rel body body'" and t: "t = h s"
    show "\<exists>x. iterate body' s = Some x"
    proof (cases "body' s")
      case Undefined
      then show ?thesis by (simp add: iterate_step)
    next
      case (Defined z)
      show ?thesis
      proof (cases z)
        case (Inl s')
        with Defined rel t it have "it body (h s') = Some y" by simp
        with IH rel Inl Defined show ?thesis by (auto simp: iterate_step)
      qed (use Defined in \<open>simp add: iterate_step\<close>)
    qed
  qed
  show ?thesis
  proof (cases "iterate body' s")
    case None
    with ended [of body "h s"] step show ?thesis by (cases "iterate body (h s)") auto
  next
    case (Some x)
    with ends step show ?thesis by simp
  qed
qed

text \<open>What holds before a round and is kept by every round holds for the outcome.\<close>

lemma iterate_outcome:
  fixes P :: "'s \<Rightarrow> bool" and Q :: "'r cpp \<Rightarrow> bool"
  assumes "iterate body s = Some x" "P s"
    and rounds: "\<And>s. P s \<Longrightarrow> case body s of Undefined \<Rightarrow> Q Undefined
      | Defined (Inl s') \<Rightarrow> P s' | Defined (Inr r) \<Rightarrow> Q (Defined r)"
  shows "Q x"
proof -
  let ?ok = "\<lambda>body. \<forall>s. P s \<longrightarrow> (case body s of Undefined \<Rightarrow> Q Undefined
      | Defined (Inl s') \<Rightarrow> P s' | Defined (Inr r) \<Rightarrow> Q (Defined r))"
  have "?ok body \<longrightarrow> P s \<longrightarrow> Q x" if "iterate body s = Some x" for body s x
  proof (rule iterate.raw_induct [OF _ that], intro impI)
    fix it and body :: "'s \<Rightarrow> ('s + 'r) cpp" and s x
    assume IH: "\<And>body s y. it body s = Some y \<Longrightarrow> ?ok body \<longrightarrow> P s \<longrightarrow> Q y"
      and it: "(case body s of Undefined \<Rightarrow> Some Undefined
        | Defined (Inl s') \<Rightarrow> it body s' | Defined (Inr r) \<Rightarrow> Some (Defined r)) = Some x"
      and ok: "?ok body" and "P s"
    then have round: "case body s of Undefined \<Rightarrow> Q Undefined
      | Defined (Inl s') \<Rightarrow> P s' | Defined (Inr r) \<Rightarrow> Q (Defined r)" by simp
    show "Q x"
    proof (cases "body s")
      case Undefined
      with it round show ?thesis by simp
    next
      case (Defined y)
      show ?thesis
      proof (cases y)
        case (Inl s')
        with Defined it round have "it body s' = Some x" "P s'" by simp_all
        with IH ok show ?thesis by blast
      next
        case (Inr r)
        with Defined it round show ?thesis by simp
      qed
    qed
  qed
  with assms show ?thesis by blast
qed

definition round_ok :: "('s \<Rightarrow> bool) \<Rightarrow> ('r \<Rightarrow> bool) \<Rightarrow> ('s \<Rightarrow> ('s + 'r) cpp) \<Rightarrow> 's \<Rightarrow> bool" where
  "round_ok P Q body s \<longleftrightarrow>
     (case body s of Undefined \<Rightarrow> True | Defined (Inl s') \<Rightarrow> P s' | Defined (Inr r) \<Rightarrow> Q r)"

lemma iterate_result:
  assumes "iterate body s = Some (Defined r)" "P s" and rounds: "\<And>s. P s \<Longrightarrow> round_ok P Q body s"
  shows "Q r"
proof -
  have "case Defined r of Undefined \<Rightarrow> True | Defined r \<Rightarrow> Q r"
  proof (rule iterate_outcome [where P = P, OF assms(1,2)])
    fix s assume "P s"
    from rounds [OF this]
    show "case body s of Undefined \<Rightarrow> case Undefined of Undefined \<Rightarrow> True | Defined r \<Rightarrow> Q r
      | Defined (Inl s') \<Rightarrow> P s' | Defined (Inr r) \<Rightarrow> case Defined r of Undefined \<Rightarrow> True | Defined r \<Rightarrow> Q r"
      by (auto simp: round_ok_def split: cpp.splits sum.splits)
  qed
  then show ?thesis by simp
qed

end
