(* ===== verification/Serializer.thy ===== *)
theory Serializer
  imports Wire_Format Machine
begin

text \<open>
  \<open>serialize_message\<close> of \<open>src/parser.cpp\<close>: it formats the fields into a caller-supplied
  buffer, patches the body length by shifting the bytes written after it, and appends the
  checksum.  The buffer is modelled at its fixed capacity with a write offset, and the
  shift byte by byte, as \<open>std::move\<close> and \<open>std::move_backward\<close> do it.  The specification
  \<open>frame\<close> has neither: it concatenates the final texts.
\<close>

section \<open>The output buffer\<close>

datatype ser_error = Invalid_argument | No_buffer_space | Value_too_large

record out_buf =
  ob_data :: string
  ob_off :: nat

definition overwrite :: "string \<Rightarrow> nat \<Rightarrow> string \<Rightarrow> string" where
  "overwrite buf off s = take off buf @ s @ drop (off + length s) buf"

definition write_str :: "string \<Rightarrow> out_buf \<Rightarrow> out_buf option" where
  "write_str s b =
     (if ob_off b + length s > length (ob_data b) then None
      else Some \<lparr>ob_data = overwrite (ob_data b) (ob_off b) s, ob_off = ob_off b + length s\<rparr>)"

definition write_char :: "char \<Rightarrow> out_buf \<Rightarrow> out_buf option" where
  "write_char c b =
     (if ob_off b \<ge> length (ob_data b) then None
      else Some \<lparr>ob_data = (ob_data b)[ob_off b := c], ob_off = Suc (ob_off b)\<rparr>)"

text \<open>\<open>to_chars\<close> into a local array of 16 characters.\<close>

definition to_chars16 :: "string \<Rightarrow> string option" where
  "to_chars16 s = (if length s \<le> 16 then Some s else None)"

definition write_tag_val :: "char \<Rightarrow> int \<Rightarrow> string \<Rightarrow> out_buf \<Rightarrow> out_buf option" where
  "write_tag_val sep t v b =
     (case to_chars16 (show_int t) of
        None \<Rightarrow> None
      | Some tag_str \<Rightarrow>
          (case write_str tag_str b of
             None \<Rightarrow> None
           | Some b1 \<Rightarrow>
               (case write_char CHR ''='' b1 of
                  None \<Rightarrow> None
                | Some b2 \<Rightarrow>
                    (case write_str v b2 of
                       None \<Rightarrow> None
                     | Some b3 \<Rightarrow> write_char sep b3))))"

fun write_body :: "char \<Rightarrow> fix_field list \<Rightarrow> out_buf \<Rightarrow> out_buf option" where
  "write_body sep [] b = Some b"
| "write_body sep (f # fs) b =
     (if ftag f = 8 \<or> ftag f = 9 \<or> ftag f = 10 then write_body sep fs b
      else case write_tag_val sep (ftag f) (fvalue f) b of
        None \<Rightarrow> None
      | Some b' \<Rightarrow> write_body sep fs b')"

section \<open>Patching the body length\<close>

text \<open>\<open>std::move\<close>: \<open>n\<close> bytes from \<open>f\<close> to \<open>d\<close>, first to last.\<close>

fun move_fwd :: "string \<Rightarrow> nat \<Rightarrow> nat \<Rightarrow> nat \<Rightarrow> string" where
  "move_fwd buf f d 0 = buf"
| "move_fwd buf f d (Suc n) = move_fwd (buf[d := buf ! f]) (Suc f) (Suc d) n"

text \<open>\<open>std::move_backward\<close>: \<open>n\<close> bytes that end at \<open>l\<close>, to end at \<open>dl\<close>, last to first.\<close>

fun move_bwd :: "string \<Rightarrow> nat \<Rightarrow> nat \<Rightarrow> nat \<Rightarrow> string" where
  "move_bwd buf l dl 0 = buf"
| "move_bwd buf l dl (Suc n) = move_bwd (buf[dl - 1 := buf ! (l - 1)]) (l - 1) (dl - 1) n"

text \<open>
  The test adds in \<open>int\<close>: past the range of 32 bits it is undefined, and so would be a shift
  beyond the buffer or a checksum over bytes that are not there.
\<close>

definition patch_length :: "nat \<Rightarrow> string \<Rightarrow> out_buf \<Rightarrow> (ser_error + out_buf) cpp" where
  "patch_length tag_pos bl b =
     (let diff = int (length bl) - 5; off = ob_off b; room = length (ob_data b);
          moved = to_int32 off + diff;
          finish = (\<lambda>data off'. Defined (Inr \<lparr>ob_data = overwrite data (tag_pos + 2) bl, ob_off = off'\<rparr>))
      in if diff \<noteq> 0 then
           if \<not> int32 moved then Undefined
           else if moved > to_int32 room then Defined (Inl No_buffer_space)
           else if int off + diff > int room then Undefined
           else (let shift_start = tag_pos + 2 + 5;
                     data = (if diff > 0
                        then move_bwd (ob_data b) off (nat (int off + diff)) (off - shift_start)
                        else move_fwd (ob_data b) shift_start (nat (int shift_start + diff))
                               (off - shift_start));
                     off' = nat (moved mod 2 ^ 64)
                 in if off' > room then Undefined else finish data off')
         else finish (ob_data b) off)"

definition checksum_text :: "32 word \<Rightarrow> string" where
  "checksum_text cs =
     [digit_char (unat (cs div 100)), digit_char (unat ((cs div 10) mod 10)),
      digit_char (unat (cs mod 10))]"

definition view :: "out_buf \<Rightarrow> string" where
  "view b = take (ob_off b) (ob_data b)"

definition serialize_message :: "fix_field list \<Rightarrow> string \<Rightarrow> char \<Rightarrow> (ser_error + string) cpp" where
  "serialize_message flds buffer sep =
     (if flds = [] \<or> ftag (flds ! 0) \<noteq> 8 then Defined (Inl Invalid_argument)
      else case write_tag_val sep 8 (fvalue (flds ! 0)) \<lparr>ob_data = buffer, ob_off = 0\<rparr> of
        None \<Rightarrow> Defined (Inl No_buffer_space)
      | Some b1 \<Rightarrow>
          (case write_str ''9=00000'' b1 of
             None \<Rightarrow> Defined (Inl No_buffer_space)
           | Some b2 \<Rightarrow>
               (case write_char sep b2 of
                  None \<Rightarrow> Defined (Inl No_buffer_space)
                | Some b3 \<Rightarrow>
                    (case write_body sep (drop 1 flds) b3 of
                       None \<Rightarrow> Defined (Inl No_buffer_space)
                     | Some b4 \<Rightarrow>
                         (case to_chars16 (show_nat (size_sub (ob_off b4) (ob_off b3))) of
                            None \<Rightarrow> Defined (Inl Value_too_large)
                          | Some bl \<Rightarrow>
                              (case patch_length (ob_off b1) bl b4 of
                                 Undefined \<Rightarrow> Undefined
                               | Defined (Inl e) \<Rightarrow> Defined (Inl e)
                               | Defined (Inr b5) \<Rightarrow>
                                   (case write_tag_val sep 10 (checksum_text (checksum (view b5))) b5 of
                                      None \<Rightarrow> Defined (Inl No_buffer_space)
                                    | Some b6 \<Rightarrow> Defined (Inr (view b6)))))))))"

section \<open>Bounded sinks\<close>

text \<open>
  The interface of \<open>write_str\<close>: appending fits or is refused as a whole, and nothing
  else matters.  Sequences of writes are handled once, for any such sink.
\<close>

primrec put_all :: "(string \<Rightarrow> 'b \<Rightarrow> 'b option) \<Rightarrow> string list \<Rightarrow> 'b \<Rightarrow> 'b option" where
  "put_all put [] b = Some b"
| "put_all put (t # ts) b = (case put t b of None \<Rightarrow> None | Some b' \<Rightarrow> put_all put ts b')"

lemma put_all_append:
  "put_all put (ts @ us) b = (case put_all put ts b of None \<Rightarrow> None | Some b' \<Rightarrow> put_all put us b')"
  by (induction ts arbitrary: b) (auto split: option.split)

locale bounded_sink =
  fixes holds :: "nat \<Rightarrow> string \<Rightarrow> 'b \<Rightarrow> bool"
    and put :: "string \<Rightarrow> 'b \<Rightarrow> 'b option"
  assumes put_fits: "holds cap s b \<Longrightarrow> length s + length t \<le> cap \<Longrightarrow>
      \<exists>b'. put t b = Some b' \<and> holds cap (s @ t) b'"
    and put_full: "holds cap s b \<Longrightarrow> cap < length s + length t \<Longrightarrow> put t b = None"
begin

lemma put_all_fits:
  "holds cap s b \<Longrightarrow> length s + length (concat ts) \<le> cap \<Longrightarrow>
     \<exists>b'. put_all put ts b = Some b' \<and> holds cap (s @ concat ts) b'"
proof (induction ts arbitrary: s b)
  case (Cons t ts)
  then obtain b1 where b1: "put t b = Some b1" "holds cap (s @ t) b1"
    using put_fits [of cap s b t] by auto
  from Cons.IH [OF b1(2)] Cons.prems(2) b1(1) show ?case by simp
qed simp

lemma put_all_full:
  "holds cap s b \<Longrightarrow> length s \<le> cap \<Longrightarrow> cap < length s + length (concat ts) \<Longrightarrow>
     put_all put ts b = None"
proof (induction ts arbitrary: s b)
  case (Cons t ts)
  show ?case
  proof (cases "length s + length t \<le> cap")
    case True
    then obtain b1 where "put t b = Some b1" "holds cap (s @ t) b1"
      using put_fits Cons.prems(1) by blast
    with Cons.IH [of "s @ t" b1] Cons.prems(3) True show ?thesis by simp
  next
    case False
    with put_full [OF Cons.prems(1)] show ?thesis by simp
  qed
qed simp

end

definition buf_holds :: "nat \<Rightarrow> string \<Rightarrow> out_buf \<Rightarrow> bool" where
  "buf_holds cap s b \<longleftrightarrow> length (ob_data b) = cap \<and> ob_off b = length s \<and>
     length s \<le> cap \<and> view b = s"

interpretation buf: bounded_sink buf_holds write_str
  by unfold_locales (auto simp: buf_holds_def write_str_def overwrite_def view_def)

lemma write_char_str [simp]: "write_char c b = write_str [c] b"
  by (auto simp: write_char_def write_str_def overwrite_def upd_conv_take_nth_drop)

lemma buf_holds_start: "buf_holds (length buffer) [] \<lparr>ob_data = buffer, ob_off = 0\<rparr>"
  by (simp add: buf_holds_def view_def)

section \<open>The field writers as sequences of writes\<close>

lemma length_show_nat: "0 < k \<Longrightarrow> n < 10 ^ k \<Longrightarrow> length (show_nat n) \<le> k"
proof (induction n arbitrary: k rule: show_nat.induct)
  case (1 n)
  show ?case
  proof (cases "n < 10")
    case True
    with 1(2) show ?thesis by (subst show_nat.simps) simp
  next
    case False
    then obtain j where k: "k = Suc j" "0 < j"
      using 1(2,3) by (cases k; cases "k - 1") auto
    with 1(3) have "n div 10 < 10 ^ j" by (simp add: div_less_iff_less_mult mult.commute)
    with 1(1) [OF False k(2)] False k(1) show ?thesis by (subst show_nat.simps) simp
  qed
qed

lemma length_show_int: "int32 z \<Longrightarrow> length (show_int z) \<le> 11"
proof -
  assume "int32 z"
  then have "nat (- z) < 10 ^ 10" "nat z < 10 ^ 10"
    by (simp_all add: int32_def int_min_def int_max_def) linarith+
  then show ?thesis
    using length_show_nat [of 10 "nat (- z)"] length_show_nat [of 10 "nat z"]
    by (auto simp: show_int_def)
qed

definition tag_val_texts :: "char \<Rightarrow> int \<Rightarrow> string \<Rightarrow> string list" where
  "tag_val_texts sep t v = [show_int t, ''='', v, [sep]]"

lemma write_tag_val_put:
  "int32 t \<Longrightarrow> write_tag_val sep t v b = put_all write_str (tag_val_texts sep t v) b"
  using length_show_int [of t]
  by (auto simp: write_tag_val_def to_chars16_def tag_val_texts_def split: option.split)

definition field_pair :: "fix_field \<Rightarrow> wire_pair" where
  "field_pair f = (show_int (ftag f), fvalue f)"

definition framing_tag :: "int \<Rightarrow> bool" where
  "framing_tag t \<longleftrightarrow> t = 8 \<or> t = 9 \<or> t = 10"

definition body_fields :: "fix_field list \<Rightarrow> fix_field list" where
  "body_fields fs = filter (\<lambda>f. \<not> framing_tag (ftag f)) fs"

definition body_text :: "char \<Rightarrow> fix_field list \<Rightarrow> string" where
  "body_text sep fs = wire sep (map field_pair (body_fields fs))"

lemma concat_tag_val_texts: "concat (tag_val_texts sep t v) = wire_field sep (show_int t, v)"
  by (simp add: tag_val_texts_def wire_field_def)

lemma write_body_put:
  "\<forall>f\<in>set fs. int32 (ftag f) \<Longrightarrow>
     write_body sep fs b =
       put_all write_str (concat (map (\<lambda>f. tag_val_texts sep (ftag f) (fvalue f)) (body_fields fs))) b"
  by (induction fs arbitrary: b)
    (auto simp: body_fields_def framing_tag_def write_tag_val_put put_all_append split: option.split)

lemma concat_body_texts:
  "concat (concat (map (\<lambda>f. tag_val_texts sep (ftag f) (fvalue f)) fs)) = wire sep (map field_pair fs)"
  by (induction fs) (simp_all add: concat_tag_val_texts field_pair_def)

section \<open>The shift\<close>

lemma length_move_fwd [simp]: "length (move_fwd buf f d n) = length buf"
  by (induction buf f d n rule: move_fwd.induct) auto

lemma length_move_bwd [simp]: "length (move_bwd buf l dl n) = length buf"
  by (induction buf l dl n rule: move_bwd.induct) auto

lemma move_fwd_nth:
  "d \<le> f \<Longrightarrow> f + n \<le> length buf \<Longrightarrow> i < length buf \<Longrightarrow>
     move_fwd buf f d n ! i = (if d \<le> i \<and> i < d + n then buf ! (i - d + f) else buf ! i)"
proof (induction n arbitrary: buf f d)
  case (Suc n)
  then show ?case
    by (auto simp: nth_list_update Suc_diff_le le_less_Suc_eq intro!: arg_cong [of _ _ "(!) buf"])
qed auto

lemma move_bwd_nth:
  "l \<le> dl \<Longrightarrow> dl \<le> length buf \<Longrightarrow> n \<le> l \<Longrightarrow> i < length buf \<Longrightarrow>
     move_bwd buf l dl n ! i = (if dl - n \<le> i \<and> i < dl then buf ! (i + l - dl) else buf ! i)"
proof (induction n arbitrary: buf l dl)
  case (Suc n)
  then show ?case by (auto simp: nth_list_update)
qed auto

text \<open>Overlapping source and target are no problem in the direction the code moves.\<close>

lemma move_fwd_overwrite:
  assumes "d \<le> f" "f + n \<le> length buf"
  shows "move_fwd buf f d n = overwrite buf d (take n (drop f buf))"
proof (rule nth_equalityI)
  show "length (move_fwd buf f d n) = length (overwrite buf d (take n (drop f buf)))"
    using assms by (simp add: overwrite_def)
  fix i assume "i < length (move_fwd buf f d n)"
  with assms show "move_fwd buf f d n ! i = overwrite buf d (take n (drop f buf)) ! i"
    by (auto simp: move_fwd_nth overwrite_def nth_append min_def add.commute)
qed

lemma move_bwd_overwrite:
  assumes "l \<le> dl" "dl \<le> length buf" "n \<le> l"
  shows "move_bwd buf l dl n = overwrite buf (dl - n) (take n (drop (l - n) buf))"
proof (rule nth_equalityI)
  show "length (move_bwd buf l dl n) = length (overwrite buf (dl - n) (take n (drop (l - n) buf)))"
    using assms by (simp add: overwrite_def)
  fix i assume "i < length (move_bwd buf l dl n)"
  with assms show "move_bwd buf l dl n ! i = overwrite buf (dl - n) (take n (drop (l - n) buf)) ! i"
    by (auto simp: move_bwd_nth overwrite_def nth_append min_def intro!: arg_cong [of _ _ "(!) buf"])
qed

section \<open>Patching yields the final layout\<close>

lemma overwrite_middle:
  assumes "p + length m + length r \<le> length buf" "p + k + length r \<le> length buf" "length bl = k"
    "take p buf = h"
  shows "overwrite (overwrite buf (p + k) r) p bl = h @ bl @ r @ drop (p + k + length r) buf"
  using assms by (simp add: overwrite_def min_def)

lemma patch_length_holds:
  assumes b: "buf_holds cap (h @ ''9=00000'' @ r) b" and cap: "cap < 2 ^ 31" and p: "length h = p"
    and bl: "length bl \<le> 16"
  shows "if length h + 2 + length bl + length r \<le> cap
     then \<exists>b'. patch_length p bl b = Defined (Inr b') \<and> buf_holds cap (h @ ''9='' @ bl @ r) b'
     else patch_length p bl b =
       (if int_max < int (length h + 2 + length bl + length r) then Undefined else Defined (Inl No_buffer_space))"
proof -
  let ?d = "ob_data b" and ?n = "length r" and ?k = "length bl"
  have len: "length ?d = cap" "ob_off b = p + 7 + ?n" "p + 7 + ?n \<le> cap"
    and v: "take (p + 7 + ?n) ?d = h @ ''9=00000'' @ r"
    using b p by (auto simp: buf_holds_def view_def eval_nat_numeral)
  have r: "take ?n (drop (p + 7) ?d) = r"
    using v p by (simp add: take_drop add.commute)
  have h9: "take (p + 2) ?d = h @ ''9=''"
  proof -
    have "take (p + 2) (take (p + 7 + ?n) ?d) = h @ ''9=''"
      unfolding v using p by simp
    then show ?thesis by (simp add: min_def)
  qed
  have i32: "to_int32 (ob_off b) = int (p + 7 + ?n)" "to_int32 (length ?d) = int cap"
    using len cap by simp_all
  define data where "data = overwrite ?d (p + 2 + ?k) r"
  have fin: "buf_holds cap (h @ ''9='' @ bl @ r) \<lparr>ob_data = overwrite data (p + 2) bl, ob_off = p + 2 + ?k + ?n\<rparr>"
    if "p + 2 + ?k + ?n \<le> cap"
    using overwrite_middle [of "p + 2" "[]" r ?d ?k bl "h @ ''9=''"] that h9 len p
    by (simp add: buf_holds_def view_def data_def)
  show ?thesis
  proof (cases "?k = 5")
    case True
    have "overwrite ?d (p + 7) r = ?d"
      using r len by (simp add: overwrite_def) (metis append_take_drop_id drop_drop add.commute)
    then have "data = ?d" using True by (simp add: data_def add.commute)
    with True fin len p show ?thesis by (simp add: patch_length_def add.commute)
  next
    case False
    have moved: "to_int32 (ob_off b) + (int ?k - 5) = int (p + 2 + ?k + ?n)" "int (ob_off b) + (int ?k - 5) = int (p + 2 + ?k + ?n)"
      using i32 len(2) by simp_all
    have off': "nat ((to_int32 (ob_off b) + (int ?k - 5)) mod 2 ^ 64) = p + 2 + ?k + ?n"
      if "p + 2 + ?k + ?n \<le> cap"
    proof -
      have "to_int32 (ob_off b) + (int ?k - 5) = int (p + 2 + ?k + ?n)" by (simp add: i32)
      moreover have "int (p + 2 + ?k + ?n) mod 2 ^ 64 = int (p + 2 + ?k + ?n)"
        using that cap by (intro mod_pos_pos_trivial) simp_all
      ultimately show ?thesis by (simp only: nat_int)
    qed
    have shift: "(if int ?k - 5 > 0
        then move_bwd ?d (ob_off b) (nat (int (ob_off b) + (int ?k - 5))) (ob_off b - (p + 2 + 5))
        else move_fwd ?d (p + 2 + 5) (nat (int (p + 2 + 5) + (int ?k - 5))) (ob_off b - (p + 2 + 5)))
      = data" if fits: "p + 2 + ?k + ?n \<le> cap"
    proof (cases "5 < ?k")
      case True
      have "nat (int (ob_off b) + (int ?k - 5)) = p + 2 + ?k + ?n" using len(2) by simp
      then show ?thesis
        using True len fits r by (simp add: move_bwd_overwrite data_def add.commute)
    next
      case False
      then have "nat (int (p + 2 + 5) + (int ?k - 5)) = p + 2 + ?k" by simp
      then show ?thesis
        using False len r by (simp add: move_fwd_overwrite data_def add.commute)
    qed
    define N where "N = p + 2 + ?k + ?n"
    note facts = moved [folded N_def] off' [folded N_def] shift [folded N_def] len(1)
    have "patch_length p bl b =
        (if \<not> int32 (to_int32 (ob_off b) + (int ?k - 5)) then Undefined
         else if to_int32 (ob_off b) + (int ?k - 5) > to_int32 (length ?d) then Defined (Inl No_buffer_space)
         else if int (ob_off b) + (int ?k - 5) > int (length ?d) then Undefined
         else if nat ((to_int32 (ob_off b) + (int ?k - 5)) mod 2 ^ 64) > length ?d then Undefined
         else Defined (Inr \<lparr>ob_data = overwrite (if int ?k - 5 > 0
            then move_bwd ?d (ob_off b) (nat (int (ob_off b) + (int ?k - 5))) (ob_off b - (p + 2 + 5))
            else move_fwd ?d (p + 2 + 5) (nat (int (p + 2 + 5) + (int ?k - 5))) (ob_off b - (p + 2 + 5)))
            (p + 2) bl,
            ob_off = nat ((to_int32 (ob_off b) + (int ?k - 5)) mod 2 ^ 64)\<rparr>))"
      using False by (simp add: patch_length_def Let_def)
    also have "\<dots> = (if \<not> int32 (int N) then Undefined
         else if N > cap then Defined (Inl No_buffer_space)
         else Defined (Inr \<lparr>ob_data = overwrite data (p + 2) bl, ob_off = N\<rparr>))"
    proof (cases "N \<le> cap")
      case True
      then show ?thesis using i32(2) unfolding facts(3) [OF True] facts(4) [OF True] unfolding facts(1,2,5) by simp
    next
      case False
      then show ?thesis using i32(2) unfolding facts(1,2,5) by simp
    qed
    finally have "patch_length p bl b = \<dots>" .
    moreover have "int32 (int N) \<longleftrightarrow> \<not> int_max < int N"
      by (auto simp: int32_def int_min_def)
    moreover have "N \<le> cap \<Longrightarrow> \<not> int_max < int N"
      using cap by (simp add: int_max_def)
    moreover have "length h + 2 + ?k + length r = N" using p by (simp add: N_def)
    ultimately show ?thesis using fin [folded N_def] by simp
  qed
qed

section \<open>The specification of the serializer\<close>

definition checksum3 :: "nat \<Rightarrow> string" where
  "checksum3 n = [digit_char (n div 100), digit_char ((n div 10) mod 10), digit_char (n mod 10)]"

definition frame_pairs :: "char \<Rightarrow> string \<Rightarrow> fix_field list \<Rightarrow> wire_pair list" where
  "frame_pairs sep v8 fs =
     [(''8'', v8), (''9'', show_nat (length (body_text sep fs)))] @ map field_pair (body_fields fs)"

definition frame :: "char \<Rightarrow> string \<Rightarrow> fix_field list \<Rightarrow> string" where
  "frame sep v8 fs =
     (let pre = wire sep (frame_pairs sep v8 fs)
      in pre @ wire_field sep (''10'', checksum3 (byte_total pre mod 256)))"

text \<open>The placeholder layout written first needs room too.\<close>

definition frame_fits :: "char \<Rightarrow> string \<Rightarrow> fix_field list \<Rightarrow> nat \<Rightarrow> bool" where
  "frame_fits sep v8 fs cap \<longleftrightarrow>
     length v8 + 11 + length (body_text sep fs) \<le> cap \<and> length (frame sep v8 fs) \<le> cap"

lemma show_int_framing [simp]: "show_int 8 = ''8''" "show_int 9 = ''9''" "show_int 10 = ''10''"
  by code_simp+

lemma checksum_text_eq: "checksum_text (checksum s) = checksum3 (byte_total s mod 256)"
  by (simp add: checksum_text_def checksum3_def unat_div unat_mod checksum_unat)

lemma int32_framing [simp]: "int32 8" "int32 9" "int32 10"
  by (simp_all add: int32_def int_min_def int_max_def)

lemma length_checksum3 [simp]: "length (checksum3 n) = 3"
  by (simp add: checksum3_def)

lemma length_frame: "length (frame sep v8 fs) = length (wire sep (frame_pairs sep v8 fs)) + 7"
  by (simp add: frame_def Let_def)

text \<open>Everything up to the patch, then the patch, then the trailer.\<close>

lemma serialize_prefix:
  fixes buffer :: string and sep :: char and f :: fix_field and gs :: "fix_field list"
  defines "h \<equiv> wire_field sep (''8'', fvalue f)" and "body \<equiv> body_text sep gs"
    and "cap \<equiv> length buffer"
  assumes cap: "cap < 2 ^ 31" and gs: "\<forall>g\<in>set gs. int32 (ftag g)" and f: "ftag f = 8"
  shows "if length h + 8 + length body \<le> cap
     then \<exists>b4. buf_holds cap (h @ ''9=00000'' @ sep # body) b4 \<and>
       serialize_message (f # gs) buffer sep =
        (case patch_length (length h) (show_nat (length body)) b4 of
           Undefined \<Rightarrow> Undefined
         | Defined (Inl e) \<Rightarrow> Defined (Inl e)
         | Defined (Inr b5) \<Rightarrow>
             (case put_all write_str (tag_val_texts sep 10 (checksum3 (byte_total (view b5) mod 256))) b5 of
                None \<Rightarrow> Defined (Inl No_buffer_space)
              | Some b6 \<Rightarrow> Defined (Inr (view b6))))
     else serialize_message (f # gs) buffer sep = Defined (Inl No_buffer_space)"
proof -
  let ?b0 = "\<lparr>ob_data = buffer, ob_off = 0\<rparr>"
  let ?t1 = "tag_val_texts sep 8 (fvalue f)" and ?t2 = "[''9=00000'', [sep]]"
  let ?t3 = "concat (map (\<lambda>f. tag_val_texts sep (ftag f) (fvalue f)) (body_fields gs))"
  have c1: "concat ?t1 = h" and c3: "concat ?t3 = body"
    by (simp_all add: h_def body_def concat_tag_val_texts concat_body_texts body_text_def)
  note start = buf_holds_start [of buffer, folded cap_def]
  show ?thesis
  proof (cases "length h + 8 + length body \<le> cap")
    case False
    have "put_all write_str (?t1 @ ?t2 @ ?t3) ?b0 = None"
    proof (rule buf.put_all_full [OF start])
      have "concat (?t1 @ ?t2 @ ?t3) = h @ ''9=00000'' @ [sep] @ body"
        using c1 c3 by simp
      with False show "cap < length [] + length (concat (?t1 @ ?t2 @ ?t3))" by simp
    qed simp
    with False f gs show ?thesis
      by (auto simp: serialize_message_def write_tag_val_put write_body_put put_all_append
          split: option.splits)
  next
    case True
    obtain b1 where b1: "put_all write_str ?t1 ?b0 = Some b1" "buf_holds cap h b1"
      using buf.put_all_fits [OF start, of ?t1] True c1 by auto
    obtain b3 where b3: "put_all write_str ?t2 b1 = Some b3" "buf_holds cap (h @ ''9=00000'' @ [sep]) b3"
      using buf.put_all_fits [OF b1(2), of ?t2] True by auto
    obtain b4 where b4: "write_body sep gs b3 = Some b4" "buf_holds cap (h @ ''9=00000'' @ sep # body) b4"
      using buf.put_all_fits [OF b3(2), of ?t3] True c3 by (auto simp: write_body_put [OF gs])
    have off: "ob_off b1 = length h" "size_sub (ob_off b4) (ob_off b3) = length body"
      using b1(2) b3(2) b4(2) by (auto simp: buf_holds_def)
    have "length (show_nat (length body)) \<le> 16"
      using length_show_nat [of 10 "length body"] True cap by simp
    then have "serialize_message (f # gs) buffer sep =
        (case patch_length (length h) (show_nat (length body)) b4 of
           Undefined \<Rightarrow> Undefined
         | Defined (Inl e) \<Rightarrow> Defined (Inl e)
         | Defined (Inr b5) \<Rightarrow>
             (case put_all write_str (tag_val_texts sep 10 (checksum3 (byte_total (view b5) mod 256))) b5 of
                None \<Rightarrow> Defined (Inl No_buffer_space)
              | Some b6 \<Rightarrow> Defined (Inr (view b6))))"
      using f b1(1) b3(1) b4(1) off
      by (auto simp: serialize_message_def write_tag_val_put to_chars16_def checksum_text_eq
          split: option.splits cong: sum.case_cong cpp.case_cong)
    with True b4(2) show ?thesis by auto
  qed
qed

lemma trailer_write:
  assumes b: "buf_holds cap (wire sep (frame_pairs sep v8 gs)) b"
  shows "(case put_all write_str (tag_val_texts sep 10 (checksum3 (byte_total (view b) mod 256))) b of
       None \<Rightarrow> Defined (Inl No_buffer_space) | Some b' \<Rightarrow> Defined (Inr (view b'))) =
     (if length (frame sep v8 gs) \<le> cap then Defined (Inr (frame sep v8 gs)) else Defined (Inl No_buffer_space))"
proof -
  let ?pre = "wire sep (frame_pairs sep v8 gs)"
  let ?t = "tag_val_texts sep 10 (checksum3 (byte_total ?pre mod 256))"
  have t: "?pre @ concat ?t = frame sep v8 gs"
    by (simp add: frame_def Let_def concat_tag_val_texts)
  then have len: "length ?pre + length (concat ?t) = length (frame sep v8 gs)"
    by (metis length_append)
  have "view b = ?pre" "length ?pre \<le> cap" using b by (auto simp: buf_holds_def)
  then show ?thesis
    using buf.put_all_fits [OF b, of ?t] buf.put_all_full [OF b, of ?t] t
    by (auto simp: len not_le buf_holds_def)
qed

text \<open>
  The case in which the \<open>int\<close> addition of the patch overflows: the text with the placeholder
  has been written and would grow past the range of \<open>int\<close>.
\<close>

definition patch_overflows :: "char \<Rightarrow> string \<Rightarrow> fix_field list \<Rightarrow> nat \<Rightarrow> bool" where
  "patch_overflows sep v8 fs cap \<longleftrightarrow>
     length v8 + 11 + length (body_text sep fs) \<le> cap \<and>
     int_max < int (length (wire sep (frame_pairs sep v8 fs)))"

lemma patch_overflows_small: "cap + 6 < 2 ^ 31 \<Longrightarrow> \<not> patch_overflows sep v8 fs cap"
proof
  assume cap: "cap + 6 < 2 ^ 31" and "patch_overflows sep v8 fs cap"
  then have body: "length v8 + 11 + length (body_text sep fs) \<le> cap"
    and more: "int_max < int (length (wire sep (frame_pairs sep v8 fs)))" by (simp_all add: patch_overflows_def)
  have "length (show_nat (length (body_text sep fs))) \<le> 10"
    using length_show_nat [of 10 "length (body_text sep fs)"] body cap by simp
  with body more cap show False by (simp add: frame_pairs_def body_text_def int_max_def)
qed

lemma serialize_message_spec:
  assumes "length buffer < 2 ^ 31" "\<forall>f\<in>set fs. int32 (ftag f)"
  shows "serialize_message fs buffer sep =
     (case fs of
        [] \<Rightarrow> Defined (Inl Invalid_argument)
      | f # gs \<Rightarrow>
          if ftag f \<noteq> 8 then Defined (Inl Invalid_argument)
          else if frame_fits sep (fvalue f) gs (length buffer) then Defined (Inr (frame sep (fvalue f) gs))
          else if patch_overflows sep (fvalue f) gs (length buffer) then Undefined
          else Defined (Inl No_buffer_space))"
proof (cases "\<exists>f gs. fs = f # gs \<and> ftag f = 8")
  case False
  then show ?thesis by (cases fs) (auto simp: serialize_message_def)
next
  case True
  then obtain f gs where fs: "fs = f # gs" "ftag f = 8" by blast
  let ?cap = "length buffer" and ?h = "wire_field sep (''8'', fvalue f)"
  let ?body = "body_text sep gs" and ?pre = "wire sep (frame_pairs sep (fvalue f) gs)"
  have gs: "\<forall>f\<in>set gs. int32 (ftag f)" using assms(2) fs(1) by simp
  note prefix = serialize_prefix [OF assms(1) gs fs(2), of sep]
  show ?thesis
  proof (cases "length ?h + 8 + length ?body \<le> ?cap")
    case False
    with prefix fs show ?thesis by (simp add: frame_fits_def patch_overflows_def)
  next
    case True
    with prefix obtain b4 where b4: "buf_holds ?cap (?h @ ''9=00000'' @ sep # ?body) b4"
      and eq: "serialize_message fs buffer sep =
        (case patch_length (length ?h) (show_nat (length ?body)) b4 of
           Undefined \<Rightarrow> Undefined
         | Defined (Inl e) \<Rightarrow> Defined (Inl e)
         | Defined (Inr b5) \<Rightarrow>
             (case put_all write_str (tag_val_texts sep 10 (checksum3 (byte_total (view b5) mod 256))) b5 of
                None \<Rightarrow> Defined (Inl No_buffer_space)
              | Some b6 \<Rightarrow> Defined (Inr (view b6))))"
      unfolding fs(1) by auto
    have bl: "length (show_nat (length ?body)) \<le> 16"
      using length_show_nat [of 10 "length ?body"] True assms(1) by simp
    have pre: "?h @ ''9='' @ show_nat (length ?body) @ sep # ?body = ?pre"
      by (simp add: frame_pairs_def wire_field_def body_text_def)
    have len: "length ?h + 2 + length (show_nat (length ?body)) + length (sep # ?body) = length ?pre"
      unfolding pre [symmetric] by simp
    note patch = patch_length_holds [OF b4 assms(1) refl bl, unfolded pre len]
    have overflows: "patch_overflows sep (fvalue f) gs ?cap \<longleftrightarrow> int_max < int (length ?pre)"
      using True by (simp add: patch_overflows_def)
    show ?thesis
    proof (cases "length ?pre \<le> ?cap")
      case False
      with patch eq have "serialize_message fs buffer sep =
          (if int_max < int (length ?pre) then Undefined else Defined (Inl No_buffer_space))"
        by simp
      with False fs show ?thesis by (simp add: frame_fits_def length_frame overflows)
    next
      case fits: True
      then obtain b5 where b5: "patch_length (length ?h) (show_nat (length ?body)) b4 = Defined (Inr b5)"
          "buf_holds ?cap ?pre b5"
        using patch by auto
      have "serialize_message fs buffer sep =
          (if length (frame sep (fvalue f) gs) \<le> ?cap then Defined (Inr (frame sep (fvalue f) gs))
           else Defined (Inl No_buffer_space))"
        unfolding eq b5(1) sum.case cpp.case by (rule trailer_write [OF b5(2)])
      moreover have "\<not> int_max < int (length ?pre)" using fits assms(1) by (simp add: int_max_def)
      ultimately show ?thesis using True fs by (simp add: frame_fits_def overflows)
    qed
  qed
qed

section \<open>Reading back what was written\<close>

lemma digit_val_three:
  assumes "n < 1000"
  shows "digits_val (checksum3 n) = int n"
proof -
  have "n div 100 = n div 10 div 10" by (simp add: div_mult2_eq [symmetric])
  then have "n = 100 * (n div 100) + 10 * ((n div 10) mod 10) + n mod 10"
    using div_mult_mod_eq [of n 10] div_mult_mod_eq [of "n div 10" 10] by linarith
  moreover have "n div 100 < 10" using assms by simp
  ultimately show ?thesis
    by (simp add: digits_val_def checksum3_def)
qed

lemma from_chars_checksum3: "n < 256 \<Longrightarrow> from_chars (checksum3 n) = FC_ok (int n) 3"
proof -
  assume n: "n < 256"
  have d: "\<forall>c\<in>set (checksum3 n). is_digit c" using n by (simp add: checksum3_def)
  then have "hd (checksum3 n) \<noteq> CHR ''-''" by (auto simp: checksum3_def)
  moreover have tw: "takeWhile is_digit (checksum3 n) = checksum3 n" using d by simp
  moreover have "checksum3 n \<noteq> []" by (simp add: checksum3_def)
  ultimately show ?thesis
    using n digit_val_three [of n]
    by (simp add: from_chars_def Let_def tw int32_def int_min_def int_max_def)
qed

lemma clean_field_pair: "int32 (ftag f) \<Longrightarrow> sep \<notin> set (fvalue f) \<Longrightarrow> clean_pair sep (field_pair f)"
  by (simp add: clean_pair_def field_pair_def)

lemma pair_field_field_pair: "int32 (ftag f) \<Longrightarrow> pair_field (field_pair f) = f"
  by (simp add: pair_field_def field_pair_def)

lemma map_pair_field_body:
  "\<forall>f\<in>set fs. int32 (ftag f) \<Longrightarrow> map (pair_field \<circ> field_pair) (body_fields fs) = body_fields fs"
  by (auto simp: body_fields_def pair_field_field_pair intro!: map_idI)

lemma tag_text_framing [simp]: "tag_text ''8''" "tag_text ''9''" "tag_text ''10''"
  and tag_num_framing [simp]: "tag_num ''8'' = 8" "tag_num ''9'' = 9" "tag_num ''10'' = 10"
  using tag_text_show_int [of 8] tag_text_show_int [of 9] tag_text_show_int [of 10]
    tag_num_show_int [of 8] tag_num_show_int [of 9] tag_num_show_int [of 10] by simp_all

lemma pairs_verdict_ok:
  "2 \<le> k \<Longrightarrow> k + length ps \<le> MAX_FIELDS \<Longrightarrow> pairs_verdict k ps = None"
  by (induction ps arbitrary: k) (auto simp: pair_verdict_def)

text \<open>The fields of a message as the parser returns it.\<close>

definition framed_fields :: "char \<Rightarrow> string \<Rightarrow> fix_field list \<Rightarrow> fix_field list" where
  "framed_fields sep v8 fs =
     [\<lparr>ftag = 8, fvalue = v8\<rparr>, \<lparr>ftag = 9, fvalue = show_nat (length (body_text sep fs))\<rparr>]
     @ body_fields fs
     @ [\<lparr>ftag = 10, fvalue = checksum3 (byte_total (wire sep (frame_pairs sep v8 fs)) mod 256)\<rparr>]"

lemma show_nat_no_sep: "\<not> is_digit sep \<Longrightarrow> sep \<notin> set (show_nat n)"
  using show_nat_digits by blast

lemma parse_frame:
  assumes sep: "sep \<noteq> CHR ''=''" "\<not> is_digit sep" "sep \<notin> set v8"
    and fs: "\<forall>f\<in>set fs. int32 (ftag f) \<and> sep \<notin> set (fvalue f)"
    and n: "length (body_fields fs) + 3 \<le> MAX_FIELDS"
    and len: "length (body_text sep fs) < 2 ^ 31"
  shows "parse (frame sep v8 fs) sep =
     Inr \<lparr>m_raw = frame sep v8 fs, m_fields = framed_fields sep v8 fs\<rparr>"
proof -
  let ?pre = "frame_pairs sep v8 fs" and ?body = "map field_pair (body_fields fs)"
  let ?cs = "(''10'', checksum3 (byte_total (wire sep ?pre) mod 256))"
  let ?ps = "?pre @ [?cs]"
  have wire: "frame sep v8 fs = wire sep ?ps @ []"
    by (simp add: frame_def Let_def)
  have cs: "sep \<notin> set (checksum3 k)" if "k < 256" for k
    using that sep(2) by (auto simp: checksum3_def)
  have clean: "list_all (clean_pair sep) ?ps"
    using sep fs cs by (auto simp: list_all_iff frame_pairs_def clean_pair_def field_pair_def
        body_fields_def show_nat_no_sep)
  have "pairs_verdict 0 ?ps = None"
    using n pairs_verdict_ok [of 2 "?body @ [?cs]"]
    by (simp add: frame_pairs_def pair_verdict_def MAX_FIELDS_def numeral_2_eq_2)
  then have loop: "loop_verdict ?ps [] = None" by (simp add: loop_verdict_def)
  define ps where "ps = ?ps"
  have facts: "body_pairs ps = ?body" "last ps = ?cs" "butlast ps = ?pre"
    "ps ! Suc 0 = (''9'', show_nat (length (body_text sep fs)))" "3 \<le> length ps"
    by (simp_all add: ps_def body_pairs_def frame_pairs_def)
  have int: "int (length (body_text sep fs)) \<le> int_max"
    using len by (simp add: int_max_def)
  have "frame_verdict sep ps [] = None"
    using int len facts(5) loop
    by (simp add: frame_verdict_def checksum_verdict_def facts(1-4) body_text_def [symmetric]
        from_chars_checksum3 ps_def [symmetric])
  then have "frame_verdict sep ?ps [] = None" unfolding ps_def .
  then have "parse (frame sep v8 fs) sep =
      Inr \<lparr>m_raw = frame sep v8 fs, m_fields = map pair_field ?ps\<rparr>"
    using parse_wire [OF sep(1) clean, of "[]"] unfolding wire by (simp add: trailer_def)
  moreover have "map pair_field ?ps = framed_fields sep v8 fs"
    using map_pair_field_body [of fs] fs by (simp add: framed_fields_def frame_pairs_def pair_field_def)
  ultimately show ?thesis by simp
qed

section \<open>Properties\<close>

lemma frame_fits_iff: "frame_fits sep v8 fs cap \<longleftrightarrow> length (frame sep v8 fs) \<le> cap"
proof -
  have "1 \<le> length (show_nat k)" for k by (cases "show_nat k") auto
  from this [of "length (body_text sep fs)"]
  have "length v8 + 11 + length (body_text sep fs) \<le> length (frame sep v8 fs)"
    by (simp add: length_frame frame_pairs_def body_text_def)
  then show ?thesis by (auto simp: frame_fits_def)
qed

text \<open>
  C1: what \<open>serialize_message\<close> writes, \<open>FixMessage::parse\<close> reads back: the fields of
  the input without tags 8, 9 and 10, framed by the begin string, the body length and the
  checksum computed for them.
\<close>

theorem serialize_parse_roundtrip:
  assumes "serialize_message fs buffer sep = Defined (Inr s)" "length buffer < 2 ^ 31"
    and "sep \<noteq> CHR ''=''" "\<not> is_digit sep"
    and "\<forall>f\<in>set fs. int32 (ftag f) \<and> sep \<notin> set (fvalue f)"
    and "length (body_fields fs) + 3 \<le> MAX_FIELDS"
  shows "parse s sep =
     Inr \<lparr>m_raw = s, m_fields = framed_fields sep (fvalue (hd fs)) (tl fs)\<rparr>"
proof -
  have i32: "\<forall>f\<in>set fs. int32 (ftag f)" using assms(5) by simp
  from assms(1) serialize_message_spec [OF assms(2) i32, of sep] obtain f gs where
    fs: "fs = f # gs" "ftag f = 8" "s = frame sep (fvalue f) gs"
    and fits: "frame_fits sep (fvalue f) gs (length buffer)"
    by (auto split: list.splits if_splits)
  have "length (body_text sep gs) < 2 ^ 31"
    using fits assms(2) by (simp add: frame_fits_def)
  moreover have "length (body_fields gs) + 3 \<le> MAX_FIELDS"
    using assms(6) fs by (simp add: body_fields_def framing_tag_def)
  ultimately show ?thesis
    using parse_frame [OF assms(3,4), of "fvalue f" gs] assms(5) fs by simp
qed

theorem serialize_parse_roundtrip_witness:
  "parse ''8=FIX.4.2|9=30|35=0|49=SENDER|56=TARGET|34=2|10=100|'' (CHR ''|'') =
     Inr \<lparr>m_raw = ''8=FIX.4.2|9=30|35=0|49=SENDER|56=TARGET|34=2|10=100|'',
        m_fields = framed_fields (CHR ''|'') ''FIX.4.2''
          [\<lparr>ftag = 35, fvalue = ''0''\<rparr>, \<lparr>ftag = 49, fvalue = ''SENDER''\<rparr>,
           \<lparr>ftag = 56, fvalue = ''TARGET''\<rparr>, \<lparr>ftag = 34, fvalue = ''2''\<rparr>]\<rparr>"
proof -
  let ?fs = "[\<lparr>ftag = 8, fvalue = ''FIX.4.2''\<rparr>, \<lparr>ftag = 35, fvalue = ''0''\<rparr>,
     \<lparr>ftag = 49, fvalue = ''SENDER''\<rparr>, \<lparr>ftag = 56, fvalue = ''TARGET''\<rparr>, \<lparr>ftag = 34, fvalue = ''2''\<rparr>]"
  have h: "serialize_message ?fs (replicate 64 (CHR ''x'')) (CHR ''|'') =
      Defined (Inr ''8=FIX.4.2|9=30|35=0|49=SENDER|56=TARGET|34=2|10=100|'')"
    by code_simp
  have "\<forall>f\<in>set ?fs. int32 (ftag f) \<and> CHR ''|'' \<notin> set (fvalue f)" by code_simp
  moreover have "length (body_fields ?fs) + 3 \<le> MAX_FIELDS" "\<not> is_digit (CHR ''|'')"
    by code_simp+
  ultimately show ?thesis using serialize_parse_roundtrip [OF h] by simp
qed

text \<open>
  C2: for buffers below two gigabytes the serializer, with its placeholder, its patch and
  its overlapping shift, computes exactly the specified message \<open>frame\<close>: it succeeds
  whenever that message fits the buffer and otherwise fails; it refuses a field list that
  does not begin with tag 8.  It is undefined in one case, a body whose length has more
  digits than the placeholder in a buffer filled to less than five bytes below two
  gigabytes: there the \<open>int\<close> that is compared with the size of the buffer overflows.
\<close>

theorem serialize_refines_frame:
  assumes "length buffer < 2 ^ 31" "\<forall>f\<in>set fs. int32 (ftag f)"
  shows "serialize_message fs buffer sep =
     (if fs = [] \<or> ftag (hd fs) \<noteq> 8 then Defined (Inl Invalid_argument)
      else let spec = frame sep (fvalue (hd fs)) (tl fs);
               written = length (fvalue (hd fs)) + 11 + length (body_text sep (tl fs));
               digits = length (show_nat (length (body_text sep (tl fs))))
           in if length spec \<le> length buffer then Defined (Inr spec)
              else if written \<le> length buffer \<and> int written + (int digits - 5) > int_max then Undefined
              else Defined (Inl No_buffer_space))"
proof -
  have pre: "int (length (wire sep (frame_pairs sep v8 gs))) =
      int (length v8 + 11 + length (body_text sep gs)) + (int (length (show_nat (length (body_text sep gs)))) - 5)"
    for v8 gs
    by (simp add: frame_pairs_def body_text_def)
  show ?thesis
    using serialize_message_spec [OF assms]
    by (cases fs) (simp_all add: frame_fits_iff patch_overflows_def pre Let_def)
qed

theorem serialize_refines_frame_witness:
  "serialize_message [\<lparr>ftag = 8, fvalue = ''FIX.4.2''\<rparr>, \<lparr>ftag = 35, fvalue = ''0''\<rparr>]
     (replicate 26 (CHR ''x'')) SOH
   = Defined (Inr (frame SOH ''FIX.4.2'' [\<lparr>ftag = 35, fvalue = ''0''\<rparr>]))"
proof -
  let ?fs = "[\<lparr>ftag = 8, fvalue = ''FIX.4.2''\<rparr>, \<lparr>ftag = 35, fvalue = ''0''\<rparr>]"
  have "length (frame SOH ''FIX.4.2'' [\<lparr>ftag = 35, fvalue = ''0''\<rparr>]) = 26" by code_simp
  moreover have "length (replicate 26 (CHR ''x'')) < 2 ^ 31" "\<forall>f\<in>set ?fs. int32 (ftag f)"
    by (simp_all add: int32_def int_min_def int_max_def)
  ultimately show ?thesis using serialize_refines_frame [of "replicate 26 (CHR ''x'')" ?fs SOH] by simp
qed

text \<open>
  The undefined case exists: a value of some two gigabytes and a buffer with four bytes to
  spare.
\<close>

theorem serialize_overflow_exists:
  "\<exists>fs buffer. length buffer < 2 ^ 31 \<and> serialize_message fs buffer SOH = Undefined"
proof -
  obtain v :: string where v: "length v = 2147483630" using Ex_list_of_length by blast
  obtain buffer :: string where size: "length buffer = 2147483647" using Ex_list_of_length by blast
  let ?f = "\<lparr>ftag = 8, fvalue = []\<rparr>" and ?g = "\<lparr>ftag = 58, fvalue = v\<rparr>"
  have 58: "show_int 58 = ''58''" by code_simp
  have body: "length (body_text SOH [?g]) = 2147483634"
    by (simp add: body_text_def body_fields_def framing_tag_def field_pair_def wire_field_def 58 v)
  have digits: "length (show_nat 2147483634) = 10" by (simp add: show_nat.simps)
  have frame: "length (frame SOH [] [?g]) = 2147483657"
    using body digits by (simp add: length_frame frame_pairs_def body_text_def)
  then have pre: "length (wire SOH (frame_pairs SOH [] [?g])) = 2147483650" by (simp add: length_frame)
  have "serialize_message [?f, ?g] buffer SOH = Undefined"
    using serialize_message_spec [of buffer "[?f, ?g]" SOH]
    by (simp add: size frame_fits_iff frame patch_overflows_def body pre int32_def int_min_def int_max_def)
  with size show ?thesis by (intro exI [of _ "[?f, ?g]"] exI [of _ buffer]) simp
qed

end
