(* ===== verification/Repeating_Groups.thy ===== *)
theory Repeating_Groups
  imports Serializer
begin

text \<open>
  Repeating groups, \<open>FixMessage::get_group\<close> of \<open>src/parser.cpp\<close>.  The loop walks the field
  array by index, closes an instance when the delimiter tag comes again and stops at a
  framing tag, at the announced count or at 64 instances.  \<open>instances_of\<close> is the
  specification: cut the stretch of fields at every delimiter.
\<close>

record group_instance =
  gi_fields :: "fix_field list"

definition gi_get_field :: "group_instance \<Rightarrow> int \<Rightarrow> string option" where
  "gi_get_field g t = find_tag (gi_fields g) t"

interpretation instance_lookup: tag_lookup gi_fields gi_get_field
  by unfold_locales (auto simp: gi_get_field_def find_tag_None find_tag_append split: option.split
      dest!: sym [of _ "gi_fields _"] simp flip: find_tag_None)

definition MAX_INSTANCES :: nat where "MAX_INSTANCES = 64"

fun tag_index :: "fix_field list \<Rightarrow> int \<Rightarrow> nat option" where
  "tag_index [] t = None"
| "tag_index (f # fs) t = (if ftag f = t then Some 0 else map_option Suc (tag_index fs t))"

definition span_fields :: "fix_field list \<Rightarrow> nat \<Rightarrow> nat \<Rightarrow> fix_field list" where
  "span_fields fs first cur = take (cur - first) (drop first fs)"

record group_state =
  gs_cur :: nat
  gs_start :: "nat option"
  gs_insts :: "group_instance list"

text \<open>The \<open>view.instances[view.count++] = \<dots>\<close> of a started instance.\<close>

definition close_instance :: "fix_field list \<Rightarrow> group_state \<Rightarrow> group_instance list" where
  "close_instance fs st =
     (case gs_start st of
        None \<Rightarrow> gs_insts st
      | Some s \<Rightarrow> gs_insts st @ [\<lparr>gi_fields = span_fields fs s (gs_cur st)\<rparr>])"

function group_loop :: "fix_field list \<Rightarrow> int \<Rightarrow> nat \<Rightarrow> group_state \<Rightarrow> group_state" where
  "group_loop fs delim num st =
     (if gs_cur st < length fs \<and> length (gs_insts st) < num \<and> length (gs_insts st) < MAX_INSTANCES then
        (let t = ftag (fs ! gs_cur st) in
         if t = delim then
           group_loop fs delim num \<lparr>gs_cur = Suc (gs_cur st), gs_start = Some (gs_cur st),
             gs_insts = close_instance fs st\<rparr>
         else if t = 10 \<or> t = 8 \<or> t = 9 then st
         else group_loop fs delim num (st\<lparr>gs_cur := Suc (gs_cur st)\<rparr>))
      else st)"
  by pat_completeness auto
termination
  by (relation "measure (\<lambda>(fs, delim, num, st). length fs - gs_cur st)") auto

declare group_loop.simps [simp del]

definition group_finish :: "fix_field list \<Rightarrow> nat \<Rightarrow> group_state \<Rightarrow> group_instance list" where
  "group_finish fs num st =
     (if gs_start st \<noteq> None \<and> length (gs_insts st) < num \<and> length (gs_insts st) < MAX_INSTANCES
      then close_instance fs st else gs_insts st)"

definition get_group :: "fix_message \<Rightarrow> int \<Rightarrow> int \<Rightarrow> group_instance list" where
  "get_group m group_tag delim_tag =
     (case tag_index (m_fields m) group_tag of
        None \<Rightarrow> []
      | Some idx \<Rightarrow>
          (case get_int m group_tag of
             None \<Rightarrow> []
           | Some n \<Rightarrow>
               if n \<le> 0 then []
               else group_finish (m_fields m) (nat n)
                 (group_loop (m_fields m) delim_tag (nat n)
                    \<lparr>gs_cur = idx + 1, gs_start = None, gs_insts = []\<rparr>)))"

section \<open>The specification\<close>

function instances_of :: "int \<Rightarrow> fix_field list \<Rightarrow> fix_field list list" where
  "instances_of d [] = []"
| "instances_of d (f # fs) =
     (if ftag f = d
      then (f # takeWhile (\<lambda>x. ftag x \<noteq> d) fs) # instances_of d (dropWhile (\<lambda>x. ftag x \<noteq> d) fs)
      else instances_of d fs)"
  by pat_completeness auto
termination
  by (relation "measure (\<lambda>(d, fs). length fs)") (auto simp: length_dropWhile_le le_imp_less_Suc)

definition group_region :: "int \<Rightarrow> fix_field list \<Rightarrow> fix_field list" where
  "group_region d fs = takeWhile (\<lambda>f. ftag f = d \<or> \<not> framing_tag (ftag f)) fs"

definition instance_list :: "fix_field list list \<Rightarrow> group_instance list" where
  "instance_list xs = map (\<lambda>fs. \<lparr>gi_fields = fs\<rparr>) xs"

lemma instances_of_skip: "instances_of d (dropWhile (\<lambda>x. ftag x \<noteq> d) fs) = instances_of d fs"
  by (induction fs) auto

lemma span_fields_Suc:
  "s \<le> cur \<Longrightarrow> cur < length fs \<Longrightarrow> span_fields fs s (Suc cur) = span_fields fs s cur @ [fs ! cur]"
  by (simp add: span_fields_def Suc_diff_le take_Suc_conv_app_nth)

lemma group_region_Cons [simp]:
  "group_region d [] = []"
  "group_region d (f # fs) = (if ftag f = d \<or> \<not> framing_tag (ftag f) then f # group_region d fs else [])"
  by (simp_all add: group_region_def)

text \<open>A started instance absorbs the fields up to the next delimiter.\<close>

lemma group_loop_started:
  assumes "s < cur" "cur \<le> length fs" "length insts < num" "length insts < MAX_INSTANCES"
  shows "group_finish fs num (group_loop fs d num \<lparr>gs_cur = cur, gs_start = Some s, gs_insts = insts\<rparr>) =
    take (min num MAX_INSTANCES) (insts @ instance_list
      ((span_fields fs s cur @ takeWhile (\<lambda>x. ftag x \<noteq> d) (group_region d (drop cur fs)))
       # instances_of d (dropWhile (\<lambda>x. ftag x \<noteq> d) (group_region d (drop cur fs)))))"
  using assms
proof (induction "length fs - cur" arbitrary: s cur insts)
  case 0
  then show ?case
    by (simp add: group_loop.simps group_finish_def close_instance_def instance_list_def)
next
  case (Suc k)
  then have cur: "cur < length fs" "k = length fs - Suc cur" by auto
  let ?f = "fs ! cur" and ?lim = "min num MAX_INSTANCES"
  have dr: "drop cur fs = ?f # drop (Suc cur) fs" using cur(1) by (simp add: Cons_nth_drop_Suc)
  have one: "span_fields fs cur (Suc cur) = [?f]"
    using cur(1) by (simp add: span_fields_def dr)
  show ?case
  proof (cases "ftag ?f = d")
    case True
    let ?insts = "insts @ [\<lparr>gi_fields = span_fields fs s cur\<rparr>]"
    have step: "group_loop fs d num \<lparr>gs_cur = cur, gs_start = Some s, gs_insts = insts\<rparr> =
        group_loop fs d num \<lparr>gs_cur = Suc cur, gs_start = Some cur, gs_insts = ?insts\<rparr>"
      using True cur(1) Suc.prems
      by (subst group_loop.simps) (simp add: close_instance_def)
    show ?thesis
    proof (cases "length ?insts < ?lim")
      case more: True
      have "group_finish fs num (group_loop fs d num \<lparr>gs_cur = Suc cur, gs_start = Some cur, gs_insts = ?insts\<rparr>) =
          take ?lim (?insts @ instance_list
            ((span_fields fs cur (Suc cur) @ takeWhile (\<lambda>x. ftag x \<noteq> d) (group_region d (drop (Suc cur) fs)))
             # instances_of d (dropWhile (\<lambda>x. ftag x \<noteq> d) (group_region d (drop (Suc cur) fs)))))"
        by (rule Suc.hyps(1)) (use cur more in auto)
      then show ?thesis
        using True by (simp add: step dr one instance_list_def)
    next
      case False
      with Suc.prems have lim: "?lim = Suc (length insts)" by auto
      with False have "group_loop fs d num \<lparr>gs_cur = Suc cur, gs_start = Some cur, gs_insts = ?insts\<rparr> =
          \<lparr>gs_cur = Suc cur, gs_start = Some cur, gs_insts = ?insts\<rparr>"
        by (subst group_loop.simps) auto
      then show ?thesis
        using False True lim by (auto simp: step group_finish_def dr instance_list_def)
    qed
  next
    case notdelim: False
    show ?thesis
    proof (cases "framing_tag (ftag ?f)")
      case True
      then have "group_loop fs d num \<lparr>gs_cur = cur, gs_start = Some s, gs_insts = insts\<rparr> =
          \<lparr>gs_cur = cur, gs_start = Some s, gs_insts = insts\<rparr>"
        using notdelim by (subst group_loop.simps) (auto simp: framing_tag_def)
      with True notdelim Suc.prems show ?thesis
        by (auto simp: dr group_finish_def close_instance_def instance_list_def)
    next
      case False
      then have "group_loop fs d num \<lparr>gs_cur = cur, gs_start = Some s, gs_insts = insts\<rparr> =
          group_loop fs d num \<lparr>gs_cur = Suc cur, gs_start = Some s, gs_insts = insts\<rparr>"
        using notdelim cur(1) Suc.prems by (subst group_loop.simps) (auto simp: framing_tag_def)
      moreover have "span_fields fs s (Suc cur) = span_fields fs s cur @ [?f]"
        using Suc.prems cur(1) by (simp add: span_fields_Suc)
      ultimately show ?thesis
        using Suc.hyps(1) [OF cur(2), of s insts] Suc.prems cur(1) notdelim False
        by (simp add: dr)
    qed
  qed
qed

lemma group_loop_fresh:
  assumes "0 < num"
  shows "group_finish fs num (group_loop fs d num \<lparr>gs_cur = cur, gs_start = None, gs_insts = []\<rparr>) =
    take (min num MAX_INSTANCES) (instance_list (instances_of d (group_region d (drop cur fs))))"
proof (induction "length fs - cur" arbitrary: cur)
  case 0
  then show ?case
    by (simp add: group_loop.simps group_finish_def instance_list_def)
next
  case (Suc k)
  then have cur: "cur < length fs" "k = length fs - Suc cur" by auto
  let ?f = "fs ! cur"
  have lim: "0 < MAX_INSTANCES" by (simp add: MAX_INSTANCES_def)
  have dr: "drop cur fs = ?f # drop (Suc cur) fs" using cur(1) by (simp add: Cons_nth_drop_Suc)
  have one: "span_fields fs cur (Suc cur) = [?f]"
    using cur(1) by (simp add: span_fields_def dr)
  consider "ftag ?f = d" | "ftag ?f \<noteq> d" "framing_tag (ftag ?f)" | "ftag ?f \<noteq> d" "\<not> framing_tag (ftag ?f)"
    by blast
  then show ?case
  proof cases
    case 1
    then have "group_loop fs d num \<lparr>gs_cur = cur, gs_start = None, gs_insts = []\<rparr> =
        group_loop fs d num \<lparr>gs_cur = Suc cur, gs_start = Some cur, gs_insts = []\<rparr>"
      using cur(1) assms lim by (subst group_loop.simps) (simp add: close_instance_def)
    with 1 show ?thesis
      using group_loop_started [of cur "Suc cur" fs "[]" num d] cur(1) assms lim
      by (simp add: one dr)
  next
    case 2
    then show ?thesis
      by (subst group_loop.simps) (auto simp: framing_tag_def dr group_finish_def instance_list_def)
  next
    case 3
    then have "group_loop fs d num \<lparr>gs_cur = cur, gs_start = None, gs_insts = []\<rparr> =
        group_loop fs d num \<lparr>gs_cur = Suc cur, gs_start = None, gs_insts = []\<rparr>"
      using cur(1) assms lim by (subst group_loop.simps) (auto simp: framing_tag_def)
    with 3 Suc.hyps(1) [OF cur(2)] show ?thesis by (simp add: dr)
  qed
qed

lemma tag_index_Some:
  "tag_index fs t = Some i \<Longrightarrow> i < length fs \<and> ftag (fs ! i) = t \<and> find_tag fs t = Some (fvalue (fs ! i))"
  by (induction fs arbitrary: i) (auto split: if_splits)

lemma tag_index_None: "tag_index fs t = None \<longleftrightarrow> find_tag fs t = None"
  by (induction fs) auto

lemma get_group_spec:
  "get_group m g d =
     (case (tag_index (m_fields m) g, get_int m g) of
        (Some i, Some n) \<Rightarrow>
          take (min (nat n) MAX_INSTANCES)
            (instance_list (instances_of d (group_region d (drop (Suc i) (m_fields m)))))
      | _ \<Rightarrow> [])"
  by (auto simp: get_group_def group_loop_fresh split: option.split)

text \<open>Well-formed instances are recovered from their concatenation.\<close>

definition group_instance_ok :: "int \<Rightarrow> fix_field list \<Rightarrow> bool" where
  "group_instance_ok d fs \<longleftrightarrow> fs \<noteq> [] \<and> ftag (hd fs) = d \<and>
     (\<forall>f\<in>set (tl fs). ftag f \<noteq> d) \<and> (\<forall>f\<in>set fs. \<not> framing_tag (ftag f))"

lemma instances_of_concat:
  "\<forall>x\<in>set xs. group_instance_ok d x \<Longrightarrow> instances_of d (concat xs) = xs"
proof (induction xs)
  case (Cons x xs)
  then obtain f gs where x: "x = f # gs" "ftag f = d" "\<forall>f\<in>set gs. ftag f \<noteq> d"
    by (cases x) (auto simp: group_instance_ok_def)
  have next_d: "takeWhile (\<lambda>x. ftag x \<noteq> d) (concat xs) = []" "dropWhile (\<lambda>x. ftag x \<noteq> d) (concat xs) = concat xs"
    using Cons.prems by (cases xs; cases "hd xs"; force simp: group_instance_ok_def)+
  with x Cons show ?case by (simp add: takeWhile_append2 dropWhile_append2)
qed simp

lemma group_region_concat:
  assumes "\<forall>x\<in>set xs. group_instance_ok d x" "framing_tag (ftag f)" "ftag f \<noteq> d"
  shows "group_region d (concat xs @ f # rest) = concat xs"
proof -
  let ?P = "\<lambda>f. ftag f = d \<or> \<not> framing_tag (ftag f)"
  have "?P x" if "x \<in> set (concat xs)" for x
    using assms(1) that by (auto simp: group_instance_ok_def)
  then have "takeWhile ?P (concat xs @ f # rest) = concat xs @ takeWhile ?P (f # rest)"
    by (rule takeWhile_append2)
  with assms(2,3) show ?thesis by (simp add: group_region_def)
qed

definition delimited :: "int \<Rightarrow> fix_field list \<Rightarrow> bool" where
  "delimited d x \<longleftrightarrow> x \<noteq> [] \<and> ftag (hd x) = d \<and> list_all (\<lambda>f. ftag f \<noteq> d) (tl x)"

lemma list_all_takeWhile: "list_all P (takeWhile P xs)"
  by (induction xs) auto

lemma instances_of_starts: "list_all (delimited d) (instances_of d fs)"
  by (induction d fs rule: instances_of.induct) (auto simp: delimited_def list_all_takeWhile)

lemma prefix_region:
  "prefix (dropWhile (\<lambda>f. ftag f \<noteq> d) (group_region d fs)) (dropWhile (\<lambda>f. ftag f \<noteq> d) fs)"
proof (induction fs)
  case (Cons f fs)
  have "prefix (group_region d fs) fs"
    unfolding group_region_def by (rule takeWhile_is_prefix)
  with Cons show ?case by simp
qed simp

text \<open>Nothing between the first delimiter and the end of the region is lost or duplicated.\<close>

lemma concat_instances_of: "concat (instances_of d fs) = dropWhile (\<lambda>x. ftag x \<noteq> d) fs"
proof (induction d fs rule: instances_of.induct)
  case (2 d f fs)
  have "dropWhile (\<lambda>x. ftag x \<noteq> d) (dropWhile (\<lambda>x. ftag x \<noteq> d) fs) = dropWhile (\<lambda>x. ftag x \<noteq> d) fs"
    by (rule dropWhile_idem)
  with 2 show ?case by simp
qed simp

section \<open>Properties\<close>

text \<open>
  C23: \<open>get_group\<close> equals its specification on every message and every pair of tags: the
  stretch after the count field up to the first framing tag, cut at each delimiter, of
  which the announced number and at most 64 instances are kept; there is no instance when
  the count field is absent or unreadable or not positive.
\<close>

theorem get_group_equals_spec:
  "get_group m g d =
     (case (tag_index (m_fields m) g, get_int m g) of
        (Some i, Some n) \<Rightarrow>
          take (min (nat n) MAX_INSTANCES)
            (instance_list (instances_of d (group_region d (drop (Suc i) (m_fields m)))))
      | _ \<Rightarrow> [])"
  by (rule get_group_spec)

text \<open>
  C24: a message whose count field announces the instances that follow it, each started by
  the delimiter tag, gives back exactly these instances when a framing tag ends the
  group; a field is then found in the instance that holds it.
\<close>

theorem get_group_roundtrip:
  assumes "m_fields m = pre @ \<lparr>ftag = g, fvalue = show_nat (length xs)\<rparr> # concat xs @ f # post"
    and "g \<notin> ftag ` set pre" "\<forall>x\<in>set xs. group_instance_ok d x"
    and "framing_tag (ftag f)" "ftag f \<noteq> d" "length xs \<le> MAX_INSTANCES"
  shows "get_group m g d = instance_list xs \<and>
    (\<forall>i<length xs. \<forall>t. gi_get_field (get_group m g d ! i) t = find_tag (xs ! i) t)"
proof -
  have idx: "tag_index (m_fields m) g = Some (length pre)"
    using assms(2) unfolding assms(1) by (induction pre) auto
  have "get_field m g = Some (show_nat (length xs))"
    using message.lookup_first [OF assms(1,2)] by simp
  moreover have "int (length xs) \<le> int_max"
    using assms(6) by (simp add: MAX_INSTANCES_def int_max_def)
  ultimately have int: "get_int m g = Some (int (length xs))" by (simp add: get_int_def)
  have "drop (Suc (length pre)) (m_fields m) = concat xs @ f # post" by (simp add: assms(1))
  then have "get_group m g d = instance_list xs"
    using assms(6) group_region_concat [OF assms(3-5)] instances_of_concat [OF assms(3)]
    by (simp add: get_group_spec idx int instance_list_def)
  then show ?thesis by (simp add: instance_list_def gi_get_field_def)
qed

theorem get_group_roundtrip_witness:
  "get_group \<lparr>m_raw = [], m_fields = [\<lparr>ftag = 35, fvalue = ''D''\<rparr>] @
       \<lparr>ftag = 78, fvalue = show_nat 2\<rparr> #
       concat [[\<lparr>ftag = 79, fvalue = ''ACC1''\<rparr>, \<lparr>ftag = 80, fvalue = ''100''\<rparr>],
               [\<lparr>ftag = 79, fvalue = ''ACC2''\<rparr>, \<lparr>ftag = 80, fvalue = ''200''\<rparr>]] @
       \<lparr>ftag = 10, fvalue = ''134''\<rparr> # []\<rparr> 78 79 =
     [\<lparr>gi_fields = [\<lparr>ftag = 79, fvalue = ''ACC1''\<rparr>, \<lparr>ftag = 80, fvalue = ''100''\<rparr>]\<rparr>,
      \<lparr>gi_fields = [\<lparr>ftag = 79, fvalue = ''ACC2''\<rparr>, \<lparr>ftag = 80, fvalue = ''200''\<rparr>]\<rparr>]"
proof -
  let ?xs = "[[\<lparr>ftag = 79, fvalue = ''ACC1''\<rparr>, \<lparr>ftag = 80, fvalue = ''100''\<rparr>],
    [\<lparr>ftag = 79, fvalue = ''ACC2''\<rparr>, \<lparr>ftag = 80, fvalue = ''200''\<rparr>]]"
  let ?m = "\<lparr>m_raw = [], m_fields = [\<lparr>ftag = 35, fvalue = ''D''\<rparr>] @
    \<lparr>ftag = 78, fvalue = show_nat (length ?xs)\<rparr> # concat ?xs @ \<lparr>ftag = 10, fvalue = ''134''\<rparr> # []\<rparr>"
  have "get_group ?m 78 79 = instance_list ?xs \<and>
      (\<forall>i<length ?xs. \<forall>t. gi_get_field (get_group ?m 78 79 ! i) t = find_tag (?xs ! i) t)"
    by (rule get_group_roundtrip [where pre = "[\<lparr>ftag = 35, fvalue = ''D''\<rparr>]"
          and f = "\<lparr>ftag = 10, fvalue = ''134''\<rparr>" and post = "[]"])
      (simp_all add: group_instance_ok_def framing_tag_def MAX_INSTANCES_def)
  then show ?thesis by (simp add: instance_list_def numeral_2_eq_2)
qed

text \<open>
  C40: every instance starts with the delimiter tag, holds it once, and the instances are
  consecutive: put together they are a prefix of the fields from the first delimiter on.
\<close>

theorem get_group_instances:
  assumes "get_group m g d = gis" "gis \<noteq> []"
  shows "length gis \<le> 64 \<and> (\<forall>gi\<in>set gis. delimited d (gi_fields gi)) \<and>
    (\<exists>i. ftag (m_fields m ! i) = g \<and> i < length (m_fields m) \<and>
      prefix (concat (map gi_fields gis))
        (dropWhile (\<lambda>f. ftag f \<noteq> d) (drop (Suc i) (m_fields m))))"
proof -
  from assms obtain i n where i: "tag_index (m_fields m) g = Some i" "get_int m g = Some n"
    by (auto simp: get_group_spec split: option.splits)
  let ?r = "group_region d (drop (Suc i) (m_fields m))"
  have gis: "gis = take (min (nat n) MAX_INSTANCES) (instance_list (instances_of d ?r))"
    using assms(1) i by (simp add: get_group_spec)
  then have fields: "map gi_fields gis = take (min (nat n) MAX_INSTANCES) (instances_of d ?r)"
    by (simp add: instance_list_def take_map comp_def)
  have "prefix (concat (map gi_fields gis)) (concat (instances_of d ?r))"
    unfolding fields by (metis append_take_drop_id concat_append prefixI)
  moreover have "prefix (dropWhile (\<lambda>f. ftag f \<noteq> d) ?r) (dropWhile (\<lambda>f. ftag f \<noteq> d) (drop (Suc i) (m_fields m)))"
    by (rule prefix_region)
  ultimately have "prefix (concat (map gi_fields gis)) (dropWhile (\<lambda>f. ftag f \<noteq> d) (drop (Suc i) (m_fields m)))"
    unfolding concat_instances_of by (rule prefix_order.trans)
  moreover have "\<forall>gi\<in>set gis. delimited d (gi_fields gi)"
    using instances_of_starts [of d ?r] unfolding gis
    by (auto simp: instance_list_def list_all_iff dest!: in_set_takeD)
  moreover have "length gis \<le> 64" unfolding gis by (simp add: MAX_INSTANCES_def)
  ultimately show ?thesis using tag_index_Some [OF i(1)] by blast
qed

theorem get_group_instances_witness:
  "length (get_group \<lparr>m_raw = [], m_fields = [\<lparr>ftag = 78, fvalue = ''2''\<rparr>,
       \<lparr>ftag = 79, fvalue = ''A''\<rparr>, \<lparr>ftag = 58, fvalue = ''B''\<rparr>,
       \<lparr>ftag = 79, fvalue = ''C''\<rparr>]\<rparr> 78 79) = 2 \<and>
   list_all (\<lambda>gi. delimited 79 (gi_fields gi))
     (get_group \<lparr>m_raw = [], m_fields = [\<lparr>ftag = 78, fvalue = ''2''\<rparr>,
       \<lparr>ftag = 79, fvalue = ''A''\<rparr>, \<lparr>ftag = 58, fvalue = ''B''\<rparr>,
       \<lparr>ftag = 79, fvalue = ''C''\<rparr>]\<rparr> 78 79)"
proof -
  let ?m = "\<lparr>m_raw = [], m_fields = [\<lparr>ftag = 78, fvalue = ''2''\<rparr>,
       \<lparr>ftag = 79, fvalue = ''A''\<rparr>, \<lparr>ftag = 58, fvalue = ''B''\<rparr>,
       \<lparr>ftag = 79, fvalue = ''C''\<rparr>]\<rparr>"
  have len: "length (get_group ?m 78 79) = 2" by code_simp
  then have "get_group ?m 78 79 \<noteq> []" by force
  from get_group_instances [OF refl this] len show ?thesis by (simp add: list_all_iff)
qed

end
