(* ===== verification/Dictionary.thy ===== *)
theory Dictionary
  imports Parser
begin

text \<open>
  The QuickFIX data dictionary of \<open>src/dictionary.cpp\<close> and
  \<open>include/fixure/dictionary.hpp\<close>: the scanner \<open>parse_xml\<close>, the lookups and
  \<open>validate_message\<close>.  A \<open>std::unordered_map\<close> is a map; where the code iterates over one
  (the fields of a message) it is the list of its entries, and the order of iteration is
  an argument.  Opening a file is an argument that gives its contents.
\<close>

section \<open>Data\<close>

record message_def =
  md_name :: string
  md_msg_type :: string
  md_fields :: "(int \<times> bool) list"

definition empty_message_def :: message_def where
  "empty_message_def = \<lparr>md_name = [], md_msg_type = [], md_fields = []\<rparr>"

record dictionary =
  d_name_to_tag :: "string \<Rightarrow> int option"
  d_tag_to_name :: "int \<Rightarrow> string option"
  d_msg_name_to_type :: "string \<Rightarrow> string option"
  d_msg_type_to_name :: "string \<Rightarrow> string option"
  d_messages :: "string \<Rightarrow> message_def option"
  d_tag_to_type :: "int \<Rightarrow> string option"

definition empty_dictionary :: dictionary where
  "empty_dictionary = \<lparr>d_name_to_tag = Map.empty, d_tag_to_name = Map.empty,
     d_msg_name_to_type = Map.empty, d_msg_type_to_name = Map.empty,
     d_messages = Map.empty, d_tag_to_type = Map.empty\<rparr>"

text \<open>\<open>fields[k] = v\<close>: replaces the entry of the key or adds one.\<close>

fun assign :: "('k \<times> 'v) list \<Rightarrow> 'k \<Rightarrow> 'v \<Rightarrow> ('k \<times> 'v) list" where
  "assign [] k v = [(k, v)]"
| "assign ((k', v') # es) k v = (if k' = k then (k, v) # es else (k', v') # assign es k v)"

lemma map_of_assign [simp]: "map_of (assign es k v) = (map_of es)(k \<mapsto> v)"
  by (induction es k v rule: assign.induct) auto

lemma keys_assign [simp]: "fst ` set (assign es k v) = insert k (fst ` set es)"
  by (induction es k v rule: assign.induct) auto

lemma distinct_assign: "distinct (map fst es) \<Longrightarrow> distinct (map fst (assign es k v))"
proof (induction es k v rule: assign.induct)
  case (2 k' v' es k v)
  have "k' \<noteq> k \<Longrightarrow> k' \<notin> fst ` set es \<Longrightarrow> k' \<notin> fst ` set (assign es k v)" by simp
  with 2 show ?case by auto
qed simp

section \<open>Attributes\<close>

definition attribute_value :: "string \<Rightarrow> string \<Rightarrow> nat \<Rightarrow> string" where
  "attribute_value tag key start =
     (let start = start + length key in
      case sv_find tag (if last key = double_quote then double_quote else single_quote) start of
        None \<Rightarrow> []
      | Some end \<Rightarrow> sv_substr tag start (end - start))"

definition get_attribute :: "string \<Rightarrow> string \<Rightarrow> string" where
  "get_attribute tag attr =
     (let key = attr @ [CHR ''='', double_quote] in
      case sv_find_str tag key 0 of
        Some start \<Rightarrow> attribute_value tag key start
      | None \<Rightarrow>
          (let key = attr @ [CHR ''='', single_quote] in
           case sv_find_str tag key 0 of
             Some start \<Rightarrow> attribute_value tag key start
           | None \<Rightarrow> []))"

section \<open>The scanner\<close>

record xml_state =
  xs_pos :: nat
  xs_message_type :: string
  xs_in_fields :: bool
  xs_in_messages :: bool
  xs_dict :: dictionary

definition xml_init :: xml_state where
  "xml_init = \<lparr>xs_pos = 0, xs_message_type = [], xs_in_fields = False, xs_in_messages = False,
     xs_dict = empty_dictionary\<rparr>"

definition end_tag :: "string \<Rightarrow> xml_state \<Rightarrow> xml_state" where
  "end_tag end_name st =
     (if end_name = ''fields'' then st\<lparr>xs_in_fields := False\<rparr>
      else if end_name = ''messages'' then st\<lparr>xs_in_messages := False\<rparr>
      else if end_name = ''message'' then st\<lparr>xs_message_type := []\<rparr>
      else st)"

text \<open>A main field definition; a number that does not convert leaves the tag at 0.\<close>

definition define_field :: "string \<Rightarrow> dictionary \<Rightarrow> dictionary" where
  "define_field content d =
     (let num_str = get_attribute content ''number'';
          name_str = get_attribute content ''name'';
          type_str = get_attribute content ''type''
      in if num_str \<noteq> [] \<and> name_str \<noteq> [] then
           (let tag_num = from_chars_or0 num_str;
                d1 = d\<lparr>d_name_to_tag := (d_name_to_tag d)(name_str \<mapsto> tag_num),
                      d_tag_to_name := (d_tag_to_name d)(tag_num \<mapsto> name_str)\<rparr>
            in if type_str \<noteq> []
               then d1\<lparr>d_tag_to_type := (d_tag_to_type d1)(tag_num \<mapsto> type_str)\<rparr> else d1)
         else d)"

text \<open>A field listed in a message; names not defined so far are dropped.\<close>

definition refer_field :: "string \<Rightarrow> string \<Rightarrow> dictionary \<Rightarrow> dictionary" where
  "refer_field message_type content d =
     (let name_str = get_attribute content ''name'';
          req_str = get_attribute content ''required''
      in if name_str \<noteq> [] then
           (let req = (req_str = ''Y'' \<or> req_str = ''y'') in
            case d_name_to_tag d name_str of
              Some t \<Rightarrow>
                (let md = (case d_messages d message_type of Some md \<Rightarrow> md | None \<Rightarrow> empty_message_def)
                 in d\<lparr>d_messages := (d_messages d)(message_type \<mapsto>
                       md\<lparr>md_fields := assign (md_fields md) t req\<rparr>)\<rparr>)
            | None \<Rightarrow> d)
         else d)"

definition define_message :: "string \<Rightarrow> xml_state \<Rightarrow> xml_state" where
  "define_message content st =
     (let name_str = get_attribute content ''name'';
          type_str = get_attribute content ''msgtype'';
          d = xs_dict st
      in if name_str \<noteq> [] \<and> type_str \<noteq> [] then
           st\<lparr>xs_message_type := type_str,
              xs_dict := d\<lparr>d_msg_name_to_type := (d_msg_name_to_type d)(name_str \<mapsto> type_str),
                d_msg_type_to_name := (d_msg_type_to_name d)(type_str \<mapsto> name_str),
                d_messages := (d_messages d)(type_str \<mapsto>
                  \<lparr>md_name = name_str, md_msg_type = type_str, md_fields = []\<rparr>)\<rparr>\<rparr>
         else st)"

definition tag_name :: "string \<Rightarrow> string" where
  "tag_name content =
     (case sv_find content (CHR '' '') 0 of
        None \<Rightarrow> content
      | Some space_pos \<Rightarrow> sv_substr content 0 space_pos)"

definition process_tag :: "string \<Rightarrow> xml_state \<Rightarrow> xml_state" where
  "process_tag content st =
     (if prefix ''/'' content then end_tag (drop 1 content) st
      else if tag_name content = ''fields'' then st\<lparr>xs_in_fields := True\<rparr>
      else if tag_name content = ''messages'' then st\<lparr>xs_in_messages := True\<rparr>
      else if tag_name content = ''field'' then
        (if xs_in_fields st then st\<lparr>xs_dict := define_field content (xs_dict st)\<rparr>
         else if xs_message_type st \<noteq> [] then
           st\<lparr>xs_dict := refer_field (xs_message_type st) content (xs_dict st)\<rparr>
         else st)
      else if tag_name content = ''message'' \<and> xs_in_messages st then define_message content st
      else st)"

text \<open>One iteration: an error, \<open>Inr None\<close> for the \<open>break\<close>, or the next state.\<close>

definition xml_step :: "string \<Rightarrow> xml_state \<Rightarrow> string + xml_state option" where
  "xml_step xml st =
     (case sv_find xml (CHR ''<'') (xs_pos st) of
        None \<Rightarrow> Inr None
      | Some tag_start \<Rightarrow>
          if sv_substr xml tag_start 4 = ''<!--'' then
            (case sv_find_str xml ''-->'' (tag_start + 4) of
               None \<Rightarrow> Inl ''Malformed XML: unclosed comment''
             | Some comment_end \<Rightarrow> Inr (Some (st\<lparr>xs_pos := comment_end + 3\<rparr>)))
          else
            (case sv_find xml (CHR ''>'') tag_start of
               None \<Rightarrow> Inl ''Malformed XML: unclosed tag''
             | Some tag_end \<Rightarrow>
                 (let content = sv_substr xml (tag_start + 1) (tag_end - (tag_start + 1))
                  in Inr (Some (process_tag content (st\<lparr>xs_pos := tag_end + 1\<rparr>))))))"

lemma process_tag_pos [simp]: "xs_pos (process_tag content st) = xs_pos st"
  by (simp add: process_tag_def end_tag_def define_message_def Let_def)

lemma xml_step_advances:
  "xml_step xml st = Inr (Some st') \<Longrightarrow> xs_pos st < length xml \<Longrightarrow> xs_pos st < xs_pos st'"
  by (auto simp: xml_step_def Let_def sv_find_str_def split: option.splits if_splits
      dest!: sv_find_bounds)

function xml_loop :: "string \<Rightarrow> xml_state \<Rightarrow> string + dictionary" where
  "xml_loop xml st =
     (if xs_pos st < length xml then
        (case xml_step xml st of
           Inl e \<Rightarrow> Inl e
         | Inr None \<Rightarrow> Inr (xs_dict st)
         | Inr (Some st') \<Rightarrow> xml_loop xml st')
      else Inr (xs_dict st))"
  by pat_completeness auto
termination
  by (relation "measure (\<lambda>(xml, st). length xml - xs_pos st)") (auto dest: xml_step_advances)

declare xml_loop.simps [simp del]

definition parse_xml :: "string \<Rightarrow> string + dictionary" where
  "parse_xml xml = xml_loop xml xml_init"

definition load_xml :: "(string \<Rightarrow> string option) \<Rightarrow> string \<Rightarrow> string + dictionary" where
  "load_xml files path =
     (case files path of
        None \<Rightarrow> Inl (''Could not open file: '' @ path)
      | Some content \<Rightarrow> parse_xml content)"

section \<open>Lookups and validation\<close>

definition get_tag :: "dictionary \<Rightarrow> string \<Rightarrow> int option" where
  "get_tag d name = d_name_to_tag d name"

definition get_name :: "dictionary \<Rightarrow> int \<Rightarrow> string option" where
  "get_name d t = d_tag_to_name d t"

definition get_msg_type :: "dictionary \<Rightarrow> string \<Rightarrow> string option" where
  "get_msg_type d msg_name = d_msg_name_to_type d msg_name"

definition get_msg_name :: "dictionary \<Rightarrow> string \<Rightarrow> string option" where
  "get_msg_name d msg_type = d_msg_type_to_name d msg_type"

definition is_required :: "dictionary \<Rightarrow> string \<Rightarrow> int \<Rightarrow> bool" where
  "is_required d msg_type t =
     (case d_messages d msg_type of
        None \<Rightarrow> False
      | Some md \<Rightarrow> (case map_of (md_fields md) t of None \<Rightarrow> False | Some req \<Rightarrow> req))"

text \<open>The first required field that is missing, in the order of iteration.\<close>

fun first_missing :: "fix_message \<Rightarrow> (int \<times> bool) list \<Rightarrow> int option" where
  "first_missing m [] = None"
| "first_missing m ((t, req) # es) =
     (if req \<and> get_field m t = None then Some t else first_missing m es)"

text \<open>
  \<open>validate_message\<close>: \<open>None\<close> for \<open>true\<close>, otherwise the text left in \<open>out_error\<close>.
\<close>

definition validate_message ::
  "((int \<times> bool) list \<Rightarrow> (int \<times> bool) list) \<Rightarrow> dictionary \<Rightarrow> string \<Rightarrow> fix_message \<Rightarrow> string option" where
  "validate_message iter d msg_type m =
     (case d_messages d msg_type of
        None \<Rightarrow> Some (''Unknown MsgType: '' @ msg_type)
      | Some md \<Rightarrow>
          (case first_missing m (iter (md_fields md)) of
             None \<Rightarrow> None
           | Some t \<Rightarrow>
               (let field_name = (case get_name d t of Some n \<Rightarrow> n | None \<Rightarrow> show_int t)
                in Some (''Missing required field: '' @ field_name @ '' ('' @ show_int t @ '')''))))"


section \<open>Scanning a rendered document\<close>

datatype xml_item = Text string | Comment string | Tag string

fun render_item :: "xml_item \<Rightarrow> string" where
  "render_item (Text t) = t"
| "render_item (Comment c) = ''<!--'' @ c @ ''-->''"
| "render_item (Tag c) = CHR ''<'' # c @ ''>''"

fun item_ok :: "xml_item \<Rightarrow> bool" where
  "item_ok (Text t) \<longleftrightarrow> CHR ''<'' \<notin> set t"
| "item_ok (Comment c) \<longleftrightarrow> index_of_sub ''-->'' c = None"
| "item_ok (Tag c) \<longleftrightarrow> CHR ''>'' \<notin> set c \<and> \<not> prefix ''!--'' c"

definition render_xml :: "xml_item list \<Rightarrow> string" where
  "render_xml items = concat (map render_item items)"

text \<open>How a document can end: in text, inside a comment or inside a tag.\<close>

datatype xml_tail = Closed string | Open_comment string string | Open_tag string string

fun render_tail :: "xml_tail \<Rightarrow> string" where
  "render_tail (Closed t) = t"
| "render_tail (Open_comment t c) = t @ ''<!--'' @ c"
| "render_tail (Open_tag t c) = t @ CHR ''<'' # c"

fun tail_ok :: "xml_tail \<Rightarrow> bool" where
  "tail_ok (Closed t) \<longleftrightarrow> CHR ''<'' \<notin> set t"
| "tail_ok (Open_comment t c) \<longleftrightarrow> CHR ''<'' \<notin> set t \<and> index_of_sub ''-->'' c = None"
| "tail_ok (Open_tag t c) \<longleftrightarrow> CHR ''<'' \<notin> set t \<and> CHR ''>'' \<notin> set c \<and> \<not> prefix ''!--'' c"

fun item_tags :: "xml_item list \<Rightarrow> string list" where
  "item_tags [] = []"
| "item_tags (Tag c # is) = c # item_tags is"
| "item_tags (_ # is) = item_tags is"

fun tail_verdict :: "xml_tail \<Rightarrow> dictionary \<Rightarrow> string + dictionary" where
  "tail_verdict (Closed t) d = Inr d"
| "tail_verdict (Open_comment t c) d = Inl ''Malformed XML: unclosed comment''"
| "tail_verdict (Open_tag t c) d = Inl ''Malformed XML: unclosed tag''"

lemma render_xml_simps [simp]:
  "render_xml [] = []" "render_xml (i # is) = render_item i @ render_xml is"
  by (simp_all add: render_xml_def)

lemma end_tag_set_pos: "end_tag c (st\<lparr>xs_pos := n\<rparr>) = (end_tag c st)\<lparr>xs_pos := n\<rparr>"
  by (simp add: end_tag_def)

lemma define_message_set_pos:
  "define_message c (st\<lparr>xs_pos := n\<rparr>) = (define_message c st)\<lparr>xs_pos := n\<rparr>"
  unfolding define_message_def Let_def by (cases st) simp

lemma process_tag_set_pos: "process_tag c (st\<lparr>xs_pos := n\<rparr>) = (process_tag c st)\<lparr>xs_pos := n\<rparr>"
  unfolding process_tag_def by (simp add: end_tag_set_pos define_message_set_pos)

lemma fold_process_tag_set_pos [simp]:
  "fold process_tag cs (st\<lparr>xs_pos := n\<rparr>) = (fold process_tag cs st)\<lparr>xs_pos := n\<rparr>"
  by (induction cs arbitrary: st) (simp_all add: process_tag_set_pos)

text \<open>One iteration in front of a tag, of a comment, and of either left open.\<close>

lemma find_open: "CHR ''<'' \<notin> set t \<Longrightarrow>
   sv_find (pre @ t @ CHR ''<'' # s) (CHR ''<'') (length pre) = Some (length pre + length t)"
  by (simp add: sv_find_append index_of_append)

lemma not_comment_start:
  "CHR ''>'' \<notin> set c \<Longrightarrow> \<not> prefix ''!--'' c \<Longrightarrow> s = [] \<or> hd s = CHR ''>'' \<Longrightarrow>
     take 4 (CHR ''<'' # c @ s) \<noteq> ''<!--''"
  by (cases c; cases "tl c"; cases "tl (tl c)"; cases s)
    (auto simp: numeral_eq_Suc)

lemma xml_step_tag:
  assumes "CHR ''<'' \<notin> set t" "CHR ''>'' \<notin> set c" "\<not> prefix ''!--'' c"
    and xml: "xml = pre @ t @ CHR ''<'' # c @ CHR ''>'' # s" and "xs_pos st = length pre"
  shows "xml_step xml st =
    Inr (Some (process_tag c (st\<lparr>xs_pos := length (pre @ t @ render_item (Tag c))\<rparr>)))"
proof -
  let ?pt = "pre @ t"
  have fo: "sv_find xml (CHR ''<'') (length pre) = Some (length ?pt)"
    using find_open [OF assms(1), of pre "c @ CHR ''>'' # s"] by (simp add: xml)
  have xml2: "xml = ?pt @ CHR ''<'' # c @ CHR ''>'' # s" by (simp add: xml)
  have "sv_substr xml (length ?pt) 4 \<noteq> ''<!--''"
    using not_comment_start [OF assms(2,3), of "CHR ''>'' # s"] unfolding xml2 sv_substr_def by simp
  moreover have "sv_find xml (CHR ''>'') (length ?pt) = Some (length ?pt + (1 + length c))"
    using assms(2) unfolding xml2 sv_find_append by (simp add: index_of_append)
  moreover have "sv_substr xml (length ?pt + 1) (length c) = c"
    unfolding xml2 sv_substr_def by simp
  ultimately show ?thesis
    using assms(5) fo by (simp add: xml_step_def Let_def algebra_simps)
qed

lemma xml_step_comment:
  assumes "CHR ''<'' \<notin> set t" "index_of_sub ''-->'' c = None"
    and xml: "xml = pre @ t @ ''<!--'' @ c @ ''-->'' @ s" and "xs_pos st = length pre"
  shows "xml_step xml st = Inr (Some (st\<lparr>xs_pos := length (pre @ t @ render_item (Comment c))\<rparr>))"
proof -
  let ?pt = "pre @ t"
  have fo: "sv_find xml (CHR ''<'') (length pre) = Some (length ?pt)"
    using find_open [OF assms(1), of pre "''!--'' @ c @ ''-->'' @ s"] by (simp add: xml)
  have start: "sv_substr xml (length ?pt) 4 = ''<!--''"
    by (simp add: xml sv_substr_def)
  have drop: "drop (length ?pt + 4) xml = c @ (''--'' @ [CHR ''>'']) @ s"
    by (simp add: xml)
  have "index_of_sub (''--'' @ [CHR ''>'']) (c @ (''--'' @ [CHR ''>'']) @ s) = Some (length c)"
    using assms(2) by (intro index_of_sub_first) simp_all
  then have "sv_find_str xml ''-->'' (length ?pt + 4) = Some (length ?pt + 4 + length c)"
    unfolding sv_find_str_def drop by simp
  then show ?thesis
    using assms(4) fo start by (simp add: xml_step_def algebra_simps)
qed

lemma xml_step_tail:
  assumes "tail_ok tail" "xml = pre @ render_tail tail" "xs_pos st = length pre"
  shows "xml_step xml st = (case tail of
      Closed _ \<Rightarrow> Inr None
    | Open_comment _ _ \<Rightarrow> Inl ''Malformed XML: unclosed comment''
    | Open_tag _ _ \<Rightarrow> Inl ''Malformed XML: unclosed tag'')"
proof (cases tail)
  case (Closed t)
  with assms show ?thesis by (simp add: xml_step_def sv_find_append)
next
  case (Open_comment t c)
  then have xml: "xml = (pre @ t) @ ''<!--'' @ c" and ok: "CHR ''<'' \<notin> set t" "index_of_sub ''-->'' c = None"
    using assms by simp_all
  have "sv_find xml (CHR ''<'') (length pre) = Some (length (pre @ t))"
    using find_open [OF ok(1), of pre "''!--'' @ c"] by (simp add: xml)
  moreover have "sv_substr xml (length (pre @ t)) 4 = ''<!--''"
    by (simp add: xml sv_substr_def)
  moreover have "sv_find_str xml ''-->'' (length (pre @ t) + 4) = None"
    using ok(2) by (simp add: xml sv_find_str_def)
  ultimately show ?thesis
    using assms(3) Open_comment by (simp add: xml_step_def)
next
  case (Open_tag t c)
  then have xml: "xml = (pre @ t) @ CHR ''<'' # c" and
    ok: "CHR ''<'' \<notin> set t" "CHR ''>'' \<notin> set c" "\<not> prefix ''!--'' c"
    using assms by simp_all
  have "sv_find xml (CHR ''<'') (length pre) = Some (length (pre @ t))"
    using find_open [OF ok(1), of pre c] by (simp add: xml)
  moreover have "sv_substr xml (length (pre @ t)) 4 \<noteq> ''<!--''"
    using not_comment_start [OF ok(2,3), of "[]"] by (simp add: xml sv_substr_def)
  moreover have "sv_find xml (CHR ''>'') (length (pre @ t)) = None"
    using ok(2) unfolding xml sv_find_append by simp
  ultimately show ?thesis
    using assms(3) Open_tag by (simp add: xml_step_def)
qed

lemma tail_ok_text: "tail_ok tail \<Longrightarrow> CHR ''<'' \<notin> set t \<Longrightarrow>
  \<exists>tail'. tail_ok tail' \<and> render_tail tail' = t @ render_tail tail \<and> tail_verdict tail' = tail_verdict tail"
proof (cases tail)
  case (Closed u)
  assume "tail_ok tail" "CHR ''<'' \<notin> set t"
  with Closed show ?thesis by (intro exI [of _ "Closed (t @ u)"]) (auto simp: fun_eq_iff)
next
  case (Open_comment u c)
  assume "tail_ok tail" "CHR ''<'' \<notin> set t"
  with Open_comment show ?thesis by (intro exI [of _ "Open_comment (t @ u) c"]) (auto simp: fun_eq_iff)
next
  case (Open_tag u c)
  assume "tail_ok tail" "CHR ''<'' \<notin> set t"
  with Open_tag show ?thesis by (intro exI [of _ "Open_tag (t @ u) c"]) (auto simp: fun_eq_iff)
qed

lemma xml_loop_tail:
  assumes "tail_ok tail" "xml = pre @ render_tail tail" "xs_pos st = length pre"
  shows "xml_loop xml st = tail_verdict tail (xs_dict st)"
  using xml_step_tail [OF assms] assms(2,3)
  by (subst xml_loop.simps) (cases tail, auto)

text \<open>
  The loop over items: \<open>t\<close> is text already passed over by no iteration yet, because the
  scanner skips to the next \<open><\<close>.
\<close>

lemma xml_loop_items:
  assumes "list_all item_ok is" "tail_ok tail" "CHR ''<'' \<notin> set t"
    "xml = pre @ t @ render_xml is @ render_tail tail" "xs_pos st = length pre"
  shows "xml_loop xml st = tail_verdict tail (xs_dict (fold process_tag (item_tags is) st))"
  using assms
proof (induction "is" arbitrary: pre t st)
  case Nil
  obtain tail' where "tail_ok tail'" "render_tail tail' = t @ render_tail tail"
    "tail_verdict tail' = tail_verdict tail"
    using tail_ok_text [OF Nil(2,3)] by blast
  with xml_loop_tail [of tail' xml pre st] Nil(4,5) show ?case by simp
next
  case (Cons i "is")
  show ?case
  proof (cases i)
    case (Text u)
    have "xml_loop xml st = tail_verdict tail (xs_dict (fold process_tag (item_tags is) st))"
      by (rule Cons.IH [of "t @ u" pre]) (use Cons.prems Text in auto)
    with Text show ?thesis by simp
  next
    case (Comment c)
    let ?pre = "pre @ t @ render_item (Comment c)"
    have "xml_step xml st = Inr (Some (st\<lparr>xs_pos := length ?pre\<rparr>))"
      by (rule xml_step_comment [where s = "render_xml is @ render_tail tail"])
        (use Cons.prems Comment in auto)
    moreover have "xml_loop xml (st\<lparr>xs_pos := length ?pre\<rparr>) =
        tail_verdict tail (xs_dict (fold process_tag (item_tags is) (st\<lparr>xs_pos := length ?pre\<rparr>)))"
      by (rule Cons.IH [of "[]" ?pre]) (use Cons.prems Comment in auto)
    moreover have "xs_pos st < length xml" using Cons.prems Comment by simp
    ultimately show ?thesis using Comment by (subst xml_loop.simps) simp
  next
    case (Tag c)
    let ?pre = "pre @ t @ render_item (Tag c)"
    have "xml_step xml st = Inr (Some (process_tag c (st\<lparr>xs_pos := length ?pre\<rparr>)))"
      by (rule xml_step_tag [where s = "render_xml is @ render_tail tail"])
        (use Cons.prems Tag in auto)
    moreover have "xml_loop xml (process_tag c (st\<lparr>xs_pos := length ?pre\<rparr>)) =
        tail_verdict tail (xs_dict (fold process_tag (item_tags is) (process_tag c (st\<lparr>xs_pos := length ?pre\<rparr>))))"
      by (rule Cons.IH [of "[]" ?pre]) (use Cons.prems Tag in auto)
    moreover have "xs_pos st < length xml" using Cons.prems Tag by simp
    ultimately show ?thesis using Tag by (subst xml_loop.simps) (simp add: process_tag_set_pos)
  qed
qed

lemma parse_xml_render:
  "list_all item_ok is \<Longrightarrow> tail_ok tail \<Longrightarrow>
     parse_xml (render_xml is @ render_tail tail) =
       tail_verdict tail (xs_dict (fold process_tag (item_tags is) xml_init))"
  using xml_loop_items [of "is" tail "[]" "render_xml is @ render_tail tail" "[]" xml_init]
  by (simp add: parse_xml_def xml_init_def)

text \<open>Every text is a rendered document.\<close>

lemma xml_decompose: "\<exists>is tail. xml = render_xml is @ render_tail tail \<and> list_all item_ok is \<and> tail_ok tail"
proof (induction "length xml" arbitrary: xml rule: less_induct)
  case less
  show ?case
  proof (cases "index_of CHR ''<'' xml")
    case None
    then show ?thesis
      by (intro exI [of _ "[]"] exI [of _ "Closed xml"]) (simp add: index_of_None)
  next
    case (Some i)
    then obtain t r where t: "xml = t @ CHR ''<'' # r" "CHR ''<'' \<notin> set t"
      by (rule index_of_split)
    have peel: ?thesis if "item_ok i" "xml = t @ render_item i @ s" "render_item i \<noteq> []" for i s
    proof -
      have "length s < length xml" using that(2,3) by (cases "render_item i") auto
      then obtain "is" tail where "s = render_xml is @ render_tail tail" "list_all item_ok is" "tail_ok tail"
        using less by blast
      with that t(2) show ?thesis by (intro exI [of _ "Text t # i # is"] exI [of _ tail]) simp
    qed
    show ?thesis
    proof (cases "prefix ''!--'' r")
      case True
      then obtain c where c: "r = ''!--'' @ c" by (auto simp: prefix_def)
      show ?thesis
      proof (cases "index_of_sub ''-->'' c")
        case None
        with t c show ?thesis
          by (intro exI [of _ "[]"] exI [of _ "Open_comment t c"]) simp
      next
        case (Some k)
        have "c = take k c @ ''-->'' @ drop (k + 3) c" "index_of_sub ''-->'' (take k c) = None"
          using index_of_sub_cut [OF Some] by (simp_all add: numeral_3_eq_3)
        with t c show ?thesis by (intro peel [of "Comment (take k c)" "drop (k + 3) c"]) auto
      qed
    next
      case False
      show ?thesis
      proof (cases "index_of (CHR ''>'') r")
        case None
        with t False show ?thesis
          by (intro exI [of _ "[]"] exI [of _ "Open_tag t r"]) (simp add: index_of_None)
      next
        case (Some k)
        then obtain c s where c: "r = c @ CHR ''>'' # s" "CHR ''>'' \<notin> set c" by (rule index_of_split)
        with False have "\<not> prefix ''!--'' c" by (auto simp: prefix_def)
        with t c show ?thesis by (intro peel [of "Tag c" s]) auto
      qed
    qed
  qed
qed


section \<open>Attributes of a rendered tag\<close>

definition plain_text :: "string \<Rightarrow> bool" where
  "plain_text s \<longleftrightarrow> list_all (\<lambda>c. c \<notin> {CHR ''='', double_quote, single_quote, CHR ''<'', CHR ''>''}) s"

definition plain_name :: "string \<Rightarrow> bool" where
  "plain_name s \<longleftrightarrow> plain_text s \<and> CHR '' '' \<notin> set s"

definition render_attr :: "string \<times> string \<Rightarrow> string" where
  "render_attr kv = CHR '' '' # fst kv @ [CHR ''='', double_quote] @ snd kv @ [double_quote]"

definition render_attrs :: "(string \<times> string) list \<Rightarrow> string" where
  "render_attrs kvs = concat (map render_attr kvs)"

lemma render_attrs_simps [simp]:
  "render_attrs [] = []" "render_attrs (kv # kvs) = render_attr kv @ render_attrs kvs"
  by (simp_all add: render_attrs_def)

lemma plain_text_simps [simp]:
  "plain_text []"
  "plain_text (c # s) \<longleftrightarrow> c \<noteq> CHR ''='' \<and> c \<noteq> double_quote \<and> c \<noteq> single_quote \<and> c \<noteq> CHR ''<'' \<and>
     c \<noteq> CHR ''>'' \<and> plain_text s"
  "plain_text (s @ t) \<longleftrightarrow> plain_text s \<and> plain_text t"
  by (auto simp: plain_text_def)

lemma plain_text_notin:
  "plain_text s \<Longrightarrow> CHR ''='' \<notin> set s" "plain_text s \<Longrightarrow> double_quote \<notin> set s"
  "plain_text s \<Longrightarrow> single_quote \<notin> set s" "plain_text s \<Longrightarrow> CHR ''<'' \<notin> set s"
  "plain_text s \<Longrightarrow> CHR ''>'' \<notin> set s"
  by (auto simp: plain_text_def list_all_iff)

text \<open>
  Searching for \<open>a="\<close> in text with one equals sign: only the name just before it
  matters, and it matches when it ends in \<open>a\<close>.
\<close>

lemma takeWhile_until: "z \<notin> set a \<Longrightarrow> takeWhile (\<lambda>c. c \<noteq> z) (a @ z # q) = a"
  by (subst takeWhile_append2) auto

lemma take_pattern_eq:
  assumes "take (length (a @ z # q)) (w @ z # s) = a @ z # q" "z \<notin> set a" "z \<notin> set w"
  shows "w = a"
proof -
  have len: "length w < length (a @ z # q)"
  proof (rule ccontr)
    assume "\<not> ?thesis"
    then have "a @ z # q = take (length (a @ z # q)) w" using assms(1) by simp
    then have "z \<in> set (take (length (a @ z # q)) w)" by (metis in_set_conv_decomp)
    then show False using assms(3) by (meson in_set_takeD)
  qed
  then obtain k where k: "length (a @ z # q) = Suc (length w + k)"
    by (metis add_Suc_right less_natE)
  have "a @ z # q = w @ z # take k s" using assms(1) unfolding k by simp
  then have "takeWhile (\<lambda>c. c \<noteq> z) (a @ z # q) = takeWhile (\<lambda>c. c \<noteq> z) (w @ z # take k s)"
    by (rule arg_cong)
  then show "w = a" using assms(2,3) by (simp add: takeWhile_until)
qed

lemma index_of_sub_attr:
  assumes "CHR ''='' \<notin> set a" "CHR ''='' \<notin> set w"
  shows "index_of_sub (a @ CHR ''='' # q) (w @ CHR ''='' # s) =
     (if suffix a w \<and> take (length q) s = q then Some (length w - length a)
      else map_option (\<lambda>i. Suc (length w + i)) (index_of_sub (a @ CHR ''='' # q) s))"
  using assms(2)
proof (induction w)
  case Nil
  have "a \<noteq> [] \<Longrightarrow> take (length (a @ CHR ''='' # q)) (CHR ''='' # s) \<noteq> a @ CHR ''='' # q"
    using take_pattern_eq [of a "CHR ''=''" q "[]" s] assms(1) by auto
  then show ?case by (cases "a = []") (auto simp: suffix_def)
next
  case (Cons x w)
  let ?p = "a @ CHR ''='' # q"
  show ?case
  proof (cases "a = x # w")
    case True
    then show ?thesis
      using Cons by (auto simp: suffix_Cons option.map_comp comp_def dest: suffix_length_le)
  next
    case False
    then have "take (length ?p) ((x # w) @ CHR ''='' # s) \<noteq> ?p"
      using take_pattern_eq [of a "CHR ''=''" q "x # w" s] assms(1) Cons.prems by auto
    moreover have "suffix a (x # w) = suffix a w" using False by (auto simp: suffix_Cons)
    moreover have "suffix a w \<Longrightarrow> Suc (length w - length a) = Suc (length w) - length a"
      by (auto dest: suffix_length_le)
    ultimately show ?thesis
      using Cons by (auto simp: option.map_comp comp_def)
  qed
qed

definition attr_ok :: "string \<times> string \<Rightarrow> bool" where
  "attr_ok kv \<longleftrightarrow> plain_name (fst kv) \<and> plain_text (snd kv)"

lemma quote_neq [simp]:
  "double_quote \<noteq> single_quote" "single_quote \<noteq> double_quote"
  "double_quote \<noteq> CHR ''=''" "CHR ''='' \<noteq> double_quote" "single_quote \<noteq> CHR ''=''"
  "CHR ''='' \<noteq> single_quote" "double_quote \<noteq> CHR '' ''" "single_quote \<noteq> CHR '' ''"
  "double_quote \<noteq> CHR ''<''" "double_quote \<noteq> CHR ''>''" "single_quote \<noteq> CHR ''<''"
  "single_quote \<noteq> CHR ''>''" "CHR '' '' \<noteq> double_quote" "CHR '' '' \<noteq> single_quote"
  "CHR ''/'' \<noteq> double_quote" "CHR ''/'' \<noteq> single_quote"
  "CHR ''<'' \<noteq> double_quote" "CHR ''>'' \<noteq> double_quote"
  by (simp_all add: double_quote_def single_quote_def)

lemma suffix_behind_space: "CHR '' '' \<notin> set a \<Longrightarrow> suffix a (w @ CHR '' '' # k) \<longleftrightarrow> suffix a k"
  by (auto simp: suffix_append suffix_Cons)

text \<open>What a search for the attribute pattern finds in \<open>T\<close>: nothing, or the place of \<open>v\<close>.\<close>

definition found_at :: "string \<Rightarrow> string \<Rightarrow> (string \<times> string) option \<Rightarrow> bool" where
  "found_at a T r \<longleftrightarrow>
     (case r of
        None \<Rightarrow> index_of_sub (a @ [CHR ''='', double_quote]) T = None
      | Some kv \<Rightarrow> \<exists>x y. T = x @ (a @ [CHR ''='', double_quote]) @ snd kv @ double_quote # y \<and>
          index_of_sub (a @ [CHR ''='', double_quote]) T = Some (length x))"

lemma found_at_SomeE:
  assumes "found_at a T (Some kv)"
  obtains x y where "T = x @ (a @ [CHR ''='', double_quote]) @ snd kv @ double_quote # y"
    "index_of_sub (a @ [CHR ''='', double_quote]) T = Some (length x)"
  using assms unfolding found_at_def option.case by (elim exE conjE) (rule that)

lemma found_at_skip:
  assumes "plain_name a" "CHR ''='' \<notin> set w" "\<not> suffix a w" "found_at a (double_quote # s) r"
  shows "found_at a (w @ CHR ''='' # double_quote # s) r"
proof -
  have a: "CHR ''='' \<notin> set a"
    using assms(1) by (auto simp: plain_name_def dest: plain_text_notin)
  have at: "index_of_sub (a @ [CHR ''='', double_quote]) (w @ CHR ''='' # double_quote # s) =
      map_option (\<lambda>i. Suc (length w + i)) (index_of_sub (a @ [CHR ''='', double_quote]) (double_quote # s))"
    using index_of_sub_attr [OF a assms(2), of "[double_quote]" "double_quote # s"] assms(3) by simp
  show ?thesis
  proof (cases r)
    case None
    with assms(4) at show ?thesis by (simp only: found_at_def option.case option.map)
  next
    case (Some kv)
    from assms(4) [unfolded Some] obtain x y where
      xy: "double_quote # s = x @ (a @ [CHR ''='', double_quote]) @ snd kv @ double_quote # y"
      "index_of_sub (a @ [CHR ''='', double_quote]) (double_quote # s) = Some (length x)"
      by (rule found_at_SomeE)
    then have "w @ CHR ''='' # double_quote # s =
        (w @ CHR ''='' # x) @ (a @ [CHR ''='', double_quote]) @ snd kv @ double_quote # y" by simp
    moreover have "index_of_sub (a @ [CHR ''='', double_quote]) (w @ CHR ''='' # double_quote # s) =
        Some (length (w @ CHR ''='' # x))"
      unfolding at xy(2) by simp
    ultimately show ?thesis unfolding found_at_def Some option.case by blast
  qed
qed

lemma found_at_here:
  assumes "plain_name a" "CHR ''='' \<notin> set (w @ a)"
  shows "found_at a (w @ a @ CHR ''='' # double_quote # snd kv @ double_quote # s) (Some kv)"
proof -
  have a: "CHR ''='' \<notin> set a" using assms(2) by simp
  have "index_of_sub (a @ [CHR ''='', double_quote]) ((w @ a) @ CHR ''='' # double_quote # snd kv @ double_quote # s) =
      Some (length w)"
    using index_of_sub_attr [OF a assms(2), of "[double_quote]"] by (simp add: suffix_def)
  then show ?thesis unfolding found_at_def option.case by (intro exI conjI) simp_all
qed

lemma attr_search:
  assumes "plain_name a" "CHR ''='' \<notin> set w" "list_all attr_ok kvs" "CHR ''='' \<notin> set suf"
  shows "found_at a (w @ render_attrs kvs @ suf) (find (\<lambda>kv. suffix a (fst kv)) kvs)"
  using assms(2,3)
proof (induction kvs arbitrary: w)
  case Nil
  then show ?case
    using assms(4) by (auto simp: found_at_def intro: index_of_sub_notin [of "CHR ''=''"])
next
  case (Cons kv kvs)
  obtain k v where kv: "kv = (k, v)" by (cases kv)
  from Cons.prems kv have k: "plain_name k" "plain_text v" by (simp_all add: attr_ok_def)
  let ?w = "w @ CHR '' '' # k" and ?s = "v @ double_quote # render_attrs kvs @ suf"
  have T: "w @ render_attrs (kv # kvs) @ suf = ?w @ CHR ''='' # double_quote # ?s"
    by (simp add: kv render_attr_def)
  have a: "CHR '' '' \<notin> set a" using assms(1) by (simp add: plain_name_def)
  have w: "CHR ''='' \<notin> set ?w" "CHR ''='' \<notin> set (double_quote # v @ [double_quote])"
    using Cons.prems(1) k by (auto simp: plain_name_def dest: plain_text_notin)
  show ?case
  proof (cases "suffix a k")
    case True
    then obtain k1 where "k = k1 @ a" by (auto simp: suffix_def)
    with found_at_here [OF assms(1), of "w @ CHR '' '' # k1" kv "render_attrs kvs @ suf"] w(1) True kv
    show ?thesis unfolding T by simp
  next
    case False
    have "found_at a ((double_quote # v @ [double_quote]) @ render_attrs kvs @ suf) (find (\<lambda>kv. suffix a (fst kv)) kvs)"
      by (rule Cons.IH) (use w(2) Cons.prems(2) in simp_all)
    then have "found_at a (?w @ CHR ''='' # double_quote # ?s) (find (\<lambda>kv. suffix a (fst kv)) kvs)"
      by (intro found_at_skip [OF assms(1) w(1)]) (use suffix_behind_space [OF a] False in simp_all)
    with False kv show ?thesis unfolding T by simp
  qed
qed

text \<open>
  On a rendered tag the attribute found is the first one whose name ends in the name asked for.
\<close>

lemma get_attribute_attrs:
  assumes "plain_name a" "plain_text w" "list_all attr_ok kvs" "plain_text suf"
  shows "get_attribute (w @ render_attrs kvs @ suf) a =
     (case find (\<lambda>kv. suffix a (fst kv)) kvs of None \<Rightarrow> [] | Some kv \<Rightarrow> snd kv)"
proof -
  let ?T = "w @ render_attrs kvs @ suf"
  have eq: "CHR ''='' \<notin> set w" "CHR ''='' \<notin> set suf"
    using assms(2,4) by (auto dest: plain_text_notin)
  note search = attr_search [OF assms(1) eq(1) assms(3) eq(2)]
  show ?thesis
  proof (cases "find (\<lambda>kv. suffix a (fst kv)) kvs")
    case None
    have "single_quote \<notin> set (render_attrs kvs)"
      using assms(3) by (induction kvs) (auto simp: render_attr_def attr_ok_def plain_name_def dest: plain_text_notin)
    then have "single_quote \<notin> set ?T"
      using assms(2,4) by (auto dest: plain_text_notin)
    then have "index_of_sub (a @ CHR ''='' # [single_quote]) ?T = None"
      by (intro index_of_sub_notin [of single_quote]) simp_all
    with None search show ?thesis by (simp add: get_attribute_def found_at_def)
  next
    case (Some kv)
    from search [unfolded Some] obtain x y where xy: "?T = x @ (a @ [CHR ''='', double_quote]) @ snd kv @ double_quote # y"
      "index_of_sub (a @ CHR ''='' # [double_quote]) ?T = Some (length x)"
      by (rule found_at_SomeE)
    from Some have "kv \<in> set kvs" by (metis find_Some_iff nth_mem)
    then have v: "double_quote \<notin> set (snd kv)"
      using assms(3) by (auto simp: list_all_iff attr_ok_def dest: plain_text_notin)
    let ?pre = "x @ a @ [CHR ''='', double_quote]"
    have T: "?T = ?pre @ snd kv @ double_quote # y" using xy(1) by simp
    have "sv_find ?T double_quote (length ?pre) = Some (length ?pre + length (snd kv))"
      unfolding T sv_find_append using v by (simp add: index_of_append)
    moreover have "sv_substr ?T (length ?pre) (length (snd kv)) = snd kv"
      unfolding T by (rule sv_substr_append)
    moreover have "length x + length (a @ [CHR ''='', double_quote]) = length ?pre" by simp
    ultimately have "attribute_value ?T (a @ [CHR ''='', double_quote]) (length x) = snd kv"
      unfolding attribute_value_def Let_def by simp
    with Some xy(2) show ?thesis by (simp add: get_attribute_def)
  qed
qed


section \<open>Rendered dictionaries\<close>

type_synonym field_decl = "int \<times> string \<times> string"
type_synonym member_decl = "string \<times> bool"
type_synonym message_decl = "string \<times> string \<times> member_decl list"

fun field_content :: "field_decl \<Rightarrow> string" where
  "field_content (n, nm, ty) =
     ''field'' @ render_attrs [(''number'', show_int n), (''name'', nm), (''type'', ty)] @ ''/''"

fun member_content :: "member_decl \<Rightarrow> string" where
  "member_content (nm, req) =
     ''field'' @ render_attrs [(''name'', nm), (''required'', if req then ''Y'' else ''N'')] @ ''/''"

definition message_content :: "string \<Rightarrow> string \<Rightarrow> string" where
  "message_content nm mt = ''message'' @ render_attrs [(''name'', nm), (''msgtype'', mt)]"

fun message_contents :: "message_decl \<Rightarrow> string list" where
  "message_contents (nm, mt, fs) =
     [message_content nm mt] @ map member_content fs @ [''/message'']"

definition fields_section :: "field_decl list \<Rightarrow> string list" where
  "fields_section fds = [''fields''] @ map field_content fds @ [''/fields'']"

definition messages_section :: "message_decl list \<Rightarrow> string list" where
  "messages_section mds = [''messages''] @ concat (map message_contents mds) @ [''/messages'']"

definition xml_document :: "string list \<Rightarrow> string" where
  "xml_document contents = render_xml (map Tag ([''fix''] @ contents @ [''/fix'']))"

text \<open>What the declarations mean for the dictionary.\<close>

fun add_field :: "field_decl \<Rightarrow> dictionary \<Rightarrow> dictionary" where
  "add_field (n, nm, ty) d =
     (let d1 = d\<lparr>d_name_to_tag := (d_name_to_tag d)(nm \<mapsto> n), d_tag_to_name := (d_tag_to_name d)(n \<mapsto> nm)\<rparr>
      in if ty \<noteq> [] then d1\<lparr>d_tag_to_type := (d_tag_to_type d1)(n \<mapsto> ty)\<rparr> else d1)"

fun add_members :: "(string \<Rightarrow> int option) \<Rightarrow> member_decl list \<Rightarrow> (int \<times> bool) list \<Rightarrow> (int \<times> bool) list" where
  "add_members tags [] es = es"
| "add_members tags ((nm, req) # fs) es =
     add_members tags fs (case tags nm of Some t \<Rightarrow> assign es t req | None \<Rightarrow> es)"

fun add_message :: "message_decl \<Rightarrow> dictionary \<Rightarrow> dictionary" where
  "add_message (nm, mt, fs) d =
     d\<lparr>d_msg_name_to_type := (d_msg_name_to_type d)(nm \<mapsto> mt),
       d_msg_type_to_name := (d_msg_type_to_name d)(mt \<mapsto> nm),
       d_messages := (d_messages d)(mt \<mapsto>
         \<lparr>md_name = nm, md_msg_type = mt, md_fields = add_members (d_name_to_tag d) fs []\<rparr>)\<rparr>"

fun field_decl_ok :: "field_decl \<Rightarrow> bool" where
  "field_decl_ok (n, nm, ty) \<longleftrightarrow> int32 n \<and> nm \<noteq> [] \<and> plain_text nm \<and> plain_text ty"

definition member_decl_ok :: "member_decl \<Rightarrow> bool" where
  "member_decl_ok f \<longleftrightarrow> fst f \<noteq> [] \<and> plain_text (fst f)"

fun message_decl_ok :: "message_decl \<Rightarrow> bool" where
  "message_decl_ok (nm, mt, fs) \<longleftrightarrow>
     nm \<noteq> [] \<and> plain_text nm \<and> mt \<noteq> [] \<and> plain_text mt \<and> list_all member_decl_ok fs"

lemma plain_show_int: "plain_text (show_int n)"
proof -
  have "plain_text s" if "\<forall>c\<in>set s. is_digit c \<or> c = CHR ''-''" for s
    using that by (induction s)
      (auto simp: is_digit_def double_quote_def single_quote_def)
  then show ?thesis using show_int_chars by blast
qed

lemma plain_literals:
  "plain_name ''number''" "plain_name ''name''" "plain_name ''type''" "plain_name ''msgtype''"
  "plain_name ''required''" "plain_text ''field''" "plain_text ''message''" "plain_text ''/''"
  "plain_text ''Y''" "plain_text ''N''"
  by (simp_all add: plain_name_def plain_text_def double_quote_def single_quote_def)

lemma attr_suffixes:
  "\<not> suffix ''name'' ''number''" "\<not> suffix ''type'' ''number''" "\<not> suffix ''type'' ''name''"
  "\<not> suffix ''msgtype'' ''name''" "\<not> suffix ''required'' ''name''"
  by code_simp+

lemma tag_name_attrs:
  "CHR '' '' \<notin> set w \<Longrightarrow> tag_name (w @ render_attrs (kv # kvs) @ suf) = w"
  by (simp add: tag_name_def render_attr_def sv_find_def index_of_append sv_substr_def)

lemma field_content_attrs:
  assumes "field_decl_ok (n, nm, ty)"
  shows "get_attribute (field_content (n, nm, ty)) ''number'' = show_int n"
    and "get_attribute (field_content (n, nm, ty)) ''name'' = nm"
    and "get_attribute (field_content (n, nm, ty)) ''type'' = ty"
    and "tag_name (field_content (n, nm, ty)) = ''field''"
proof -
  let ?kvs = "[(''number'', show_int n), (''name'', nm), (''type'', ty)]"
  have kvs: "list_all attr_ok ?kvs"
    using assms plain_literals by (simp add: attr_ok_def plain_show_int del: plain_text_simps)
  have "get_attribute (field_content (n, nm, ty)) a =
      (case find (\<lambda>kv. suffix a (fst kv)) ?kvs of None \<Rightarrow> [] | Some kv \<Rightarrow> snd kv)"
    if "plain_name a" for a
    unfolding field_content.simps
    by (rule get_attribute_attrs [OF that plain_literals(6) kvs plain_literals(8)])
  from this [OF plain_literals(1)] this [OF plain_literals(2)] this [OF plain_literals(3)]
  show "get_attribute (field_content (n, nm, ty)) ''number'' = show_int n"
    "get_attribute (field_content (n, nm, ty)) ''name'' = nm"
    "get_attribute (field_content (n, nm, ty)) ''type'' = ty"
    by (simp_all add: attr_suffixes del: field_content.simps)
  show "tag_name (field_content (n, nm, ty)) = ''field''"
    unfolding field_content.simps by (rule tag_name_attrs) simp
qed

lemma member_content_attrs:
  assumes "member_decl_ok (nm, req)"
  shows "get_attribute (member_content (nm, req)) ''name'' = nm"
    and "get_attribute (member_content (nm, req)) ''required'' = (if req then ''Y'' else ''N'')"
    and "tag_name (member_content (nm, req)) = ''field''"
proof -
  let ?kvs = "[(''name'', nm), (''required'', if req then ''Y'' else ''N'')]"
  have kvs: "list_all attr_ok ?kvs"
    using assms plain_literals by (simp add: attr_ok_def member_decl_ok_def del: plain_text_simps)
  have "get_attribute (member_content (nm, req)) a =
      (case find (\<lambda>kv. suffix a (fst kv)) ?kvs of None \<Rightarrow> [] | Some kv \<Rightarrow> snd kv)"
    if "plain_name a" for a
    unfolding member_content.simps
    by (rule get_attribute_attrs [OF that plain_literals(6) kvs plain_literals(8)])
  from this [OF plain_literals(2)] this [OF plain_literals(5)]
  show "get_attribute (member_content (nm, req)) ''name'' = nm"
    "get_attribute (member_content (nm, req)) ''required'' = (if req then ''Y'' else ''N'')"
    by (simp_all add: attr_suffixes del: member_content.simps)
  show "tag_name (member_content (nm, req)) = ''field''"
    unfolding member_content.simps by (rule tag_name_attrs) simp
qed

lemma message_content_attrs:
  assumes "plain_text nm" "plain_text mt"
  shows "get_attribute (message_content nm mt) ''name'' = nm"
    and "get_attribute (message_content nm mt) ''msgtype'' = mt"
    and "tag_name (message_content nm mt) = ''message''"
proof -
  let ?kvs = "[(''name'', nm), (''msgtype'', mt)]"
  have kvs: "list_all attr_ok ?kvs"
    using assms plain_literals by (simp add: attr_ok_def del: plain_text_simps)
  have "get_attribute (message_content nm mt) a =
      (case find (\<lambda>kv. suffix a (fst kv)) ?kvs of None \<Rightarrow> [] | Some kv \<Rightarrow> snd kv)"
    if "plain_name a" for a
    using get_attribute_attrs [OF that plain_literals(7) kvs, of "[]"]
    by (simp add: message_content_def)
  from this [OF plain_literals(2)] this [OF plain_literals(4)]
  show "get_attribute (message_content nm mt) ''name'' = nm"
    "get_attribute (message_content nm mt) ''msgtype'' = mt"
    by (simp_all add: attr_suffixes)
  show "tag_name (message_content nm mt) = ''message''"
    using tag_name_attrs [of "''message''" "(''name'', nm)" "[(''msgtype'', mt)]" "[]"]
    by (simp add: message_content_def)
qed

text \<open>The scanner on the tags of each kind of declaration.\<close>

lemma not_end_tag [simp]:
  "\<not> prefix ''/'' (field_content f)" "\<not> prefix ''/'' (member_content g)"
  "\<not> prefix ''/'' (message_content nm mt)"
  by (cases f, simp) (cases g, simp, simp add: message_content_def)

lemma define_field_add:
  assumes "field_decl_ok f"
  shows "define_field (field_content f) d = add_field f d"
proof -
  obtain n nm ty where f: "f = (n, nm, ty)" by (cases f)
  show ?thesis
    using assms unfolding f
    by (simp add: define_field_def field_content_attrs from_chars_or0_def del: field_content.simps)
qed

lemma process_fields:
  "list_all field_decl_ok fds \<Longrightarrow> xs_in_fields st \<Longrightarrow>
     fold process_tag (map field_content fds) st = st\<lparr>xs_dict := fold add_field fds (xs_dict st)\<rparr>"
proof (induction fds arbitrary: st)
  case (Cons f fds)
  obtain n nm ty where f: "f = (n, nm, ty)" by (cases f)
  have "process_tag (field_content f) st = st\<lparr>xs_dict := add_field f (xs_dict st)\<rparr>"
    using Cons.prems define_field_add [of f] field_content_attrs(4) [of n nm ty]
    by (simp add: process_tag_def f del: field_content.simps add_field.simps)
  with Cons show ?case by simp
qed simp

text \<open>
  The members of a message, once the message is in the dictionary as \<open>md\<close>.
\<close>

definition put_message :: "string \<Rightarrow> message_def \<Rightarrow> dictionary \<Rightarrow> dictionary" where
  "put_message mt md d = d\<lparr>d_messages := (d_messages d)(mt \<mapsto> md)\<rparr>"

lemma put_message_twice [simp]: "put_message mt md (put_message mt md' d) = put_message mt md d"
  by (simp add: put_message_def)

lemma refer_field_put:
  assumes "member_decl_ok (nm, req)"
  shows "refer_field mt (member_content (nm, req)) (put_message mt md d) =
     put_message mt (md\<lparr>md_fields := (case d_name_to_tag d nm of
         Some t \<Rightarrow> assign (md_fields md) t req | None \<Rightarrow> md_fields md)\<rparr>) d"
  using assms
  by (cases "d_name_to_tag d nm")
    (simp_all add: refer_field_def member_content_attrs put_message_def member_decl_ok_def
      del: member_content.simps)

lemma process_members:
  "list_all member_decl_ok fs \<Longrightarrow> \<not> xs_in_fields st \<Longrightarrow> xs_message_type st = mt \<Longrightarrow> mt \<noteq> [] \<Longrightarrow>
     xs_dict st = put_message mt md d \<Longrightarrow>
     fold process_tag (map member_content fs) st =
       st\<lparr>xs_dict := put_message mt (md\<lparr>md_fields := add_members (d_name_to_tag d) fs (md_fields md)\<rparr>) d\<rparr>"
proof (induction fs arbitrary: st md)
  case Nil
  then show ?case by simp
next
  case (Cons f fs)
  obtain nm req where f: "f = (nm, req)" by (cases f)
  let ?md = "md\<lparr>md_fields := (case d_name_to_tag d nm of
         Some t \<Rightarrow> assign (md_fields md) t req | None \<Rightarrow> md_fields md)\<rparr>"
  have "process_tag (member_content f) st = st\<lparr>xs_dict := put_message mt ?md d\<rparr>"
    using Cons.prems refer_field_put [of nm req mt md d] member_content_attrs(3) [of nm req]
    by (simp add: process_tag_def f del: member_content.simps)
  with Cons.IH [of "st\<lparr>xs_dict := put_message mt ?md d\<rparr>" ?md] Cons.prems show ?case
    by (simp add: f del: member_content.simps)
qed

lemma process_message:
  assumes "message_decl_ok m" "xs_in_messages st" "\<not> xs_in_fields st" "xs_message_type st = []"
  shows "fold process_tag (message_contents m) st = st\<lparr>xs_dict := add_message m (xs_dict st)\<rparr>"
proof -
  obtain nm mt fs where m: "m = (nm, mt, fs)" by (cases m)
  let ?d = "xs_dict st"
  let ?d1 = "?d\<lparr>d_msg_name_to_type := (d_msg_name_to_type ?d)(nm \<mapsto> mt),
       d_msg_type_to_name := (d_msg_type_to_name ?d)(mt \<mapsto> nm)\<rparr>"
  let ?md = "\<lparr>md_name = nm, md_msg_type = mt, md_fields = []\<rparr>"
  let ?st = "st\<lparr>xs_message_type := mt, xs_dict := put_message mt ?md ?d1\<rparr>"
  have ok: "nm \<noteq> []" "mt \<noteq> []" "plain_text nm" "plain_text mt" "list_all member_decl_ok fs"
    using assms(1) m by simp_all
  have 1: "process_tag (message_content nm mt) st = ?st"
    using assms(2) ok
    by (simp add: process_tag_def define_message_def message_content_attrs put_message_def Let_def)
  have 2: "fold process_tag (map member_content fs) ?st =
      ?st\<lparr>xs_dict := put_message mt (?md\<lparr>md_fields := add_members (d_name_to_tag ?d1) fs (md_fields ?md)\<rparr>) ?d1\<rparr>"
    by (rule process_members) (use ok assms(3) in simp_all)
  have 3: "process_tag ''/message'' s = s\<lparr>xs_message_type := []\<rparr>" for s
    by (simp add: process_tag_def end_tag_def)
  show ?thesis
    using 1 2 assms(4) by (simp add: m 3 put_message_def)
qed

lemma process_messages:
  "list_all message_decl_ok mds \<Longrightarrow> xs_in_messages st \<Longrightarrow> \<not> xs_in_fields st \<Longrightarrow> xs_message_type st = [] \<Longrightarrow>
     fold process_tag (concat (map message_contents mds)) st =
       st\<lparr>xs_dict := fold add_message mds (xs_dict st)\<rparr>"
  by (induction mds arbitrary: st) (simp_all add: process_message del: message_contents.simps add_message.simps)

text \<open>The two sections, in either order.\<close>

definition between_sections :: "xml_state \<Rightarrow> bool" where
  "between_sections st \<longleftrightarrow> \<not> xs_in_fields st \<and> \<not> xs_in_messages st \<and> xs_message_type st = []"

lemma process_fields_section:
  assumes "list_all field_decl_ok fds" "between_sections st"
  shows "fold process_tag (fields_section fds) st = st\<lparr>xs_dict := fold add_field fds (xs_dict st)\<rparr>"
proof -
  have "process_tag ''fields'' st = st\<lparr>xs_in_fields := True\<rparr>"
    by (simp add: process_tag_def tag_name_def sv_find_def)
  moreover have "process_tag ''/fields'' s = s\<lparr>xs_in_fields := False\<rparr>" for s
    by (simp add: process_tag_def end_tag_def)
  moreover have "st\<lparr>xs_in_fields := False\<rparr> = st"
    using assms(2) by (simp add: between_sections_def)
  ultimately show ?thesis
    using assms process_fields [of fds "st\<lparr>xs_in_fields := True\<rparr>"]
    by (simp add: fields_section_def between_sections_def)
qed

lemma process_messages_section:
  assumes "list_all message_decl_ok mds" "between_sections st"
  shows "fold process_tag (messages_section mds) st = st\<lparr>xs_dict := fold add_message mds (xs_dict st)\<rparr>"
proof -
  have "process_tag ''messages'' st = st\<lparr>xs_in_messages := True\<rparr>"
    by (simp add: process_tag_def tag_name_def sv_find_def)
  moreover have "process_tag ''/messages'' s = s\<lparr>xs_in_messages := False\<rparr>" for s
    by (simp add: process_tag_def end_tag_def)
  moreover have "st\<lparr>xs_in_messages := False\<rparr> = st"
    using assms(2) by (simp add: between_sections_def)
  ultimately show ?thesis
    using assms process_messages [of mds "st\<lparr>xs_in_messages := True\<rparr>"]
    by (simp add: messages_section_def between_sections_def)
qed

text \<open>Rendered declarations are well-formed tags.\<close>

definition content_ok :: "string \<Rightarrow> bool" where
  "content_ok c \<longleftrightarrow> CHR ''>'' \<notin> set c \<and> \<not> prefix ''!--'' c"

lemma render_attrs_no_gt:
  "list_all attr_ok kvs \<Longrightarrow> CHR ''>'' \<notin> set (render_attrs kvs)"
  by (induction kvs) (auto simp: render_attr_def attr_ok_def plain_name_def dest: plain_text_notin)

lemma contents_ok:
  "list_all field_decl_ok fds \<Longrightarrow> list_all content_ok (fields_section fds)"
  "list_all message_decl_ok mds \<Longrightarrow> list_all content_ok (messages_section mds)"
proof -
  have "content_ok (field_content f)" if "field_decl_ok f" for f
    using that render_attrs_no_gt [of "[(''number'', show_int (fst f)), (''name'', fst (snd f)), (''type'', snd (snd f))]"]
      plain_literals by (cases f) (simp add: content_ok_def attr_ok_def plain_show_int del: plain_text_simps)
  then show "list_all field_decl_ok fds \<Longrightarrow> list_all content_ok (fields_section fds)"
    by (auto simp: fields_section_def list_all_iff content_ok_def)
  have "content_ok (member_content g)" if "member_decl_ok g" for g
    using that render_attrs_no_gt [of "[(''name'', fst g), (''required'', if snd g then ''Y'' else ''N'')]"]
      plain_literals
    by (cases g) (simp add: content_ok_def attr_ok_def member_decl_ok_def del: plain_text_simps)
  moreover have "content_ok (message_content nm mt)" if "plain_text nm" "plain_text mt" for nm mt
    using that render_attrs_no_gt [of "[(''name'', nm), (''msgtype'', mt)]"] plain_literals
    by (simp add: content_ok_def message_content_def attr_ok_def del: plain_text_simps)
  ultimately show "list_all message_decl_ok mds \<Longrightarrow> list_all content_ok (messages_section mds)"
    by (fastforce simp: messages_section_def list_all_iff content_ok_def)
qed

lemma parse_xml_document:
  assumes "list_all content_ok cs"
  shows "parse_xml (xml_document cs) = Inr (xs_dict (fold process_tag cs xml_init))"
proof -
  have tags: "item_tags (map Tag xs) = xs" for xs by (induction xs) simp_all
  have "list_all item_ok (map Tag ([''fix''] @ cs @ [''/fix'']))"
    using assms by (simp add: list_all_iff content_ok_def)
  moreover have "process_tag ''fix'' st = st" "process_tag ''/fix'' st = st" for st
    by (simp_all add: process_tag_def tag_name_def sv_find_def end_tag_def)
  ultimately show ?thesis
    using parse_xml_render [of "map Tag ([''fix''] @ cs @ [''/fix''])" "Closed []"]
    unfolding xml_document_def tags by (simp del: render_xml_simps map_append)
qed

section \<open>The dictionary of a list of declarations\<close>

definition names_of :: "field_decl list \<Rightarrow> (string \<times> int) list" where
  "names_of fds = map (\<lambda>(n, nm, ty). (nm, n)) fds"

definition tags_of :: "field_decl list \<Rightarrow> (int \<times> string) list" where
  "tags_of fds = map (\<lambda>(n, nm, ty). (n, nm)) fds"

lemma fold_add_field:
  "d_name_to_tag (fold add_field fds d) = d_name_to_tag d ++ map_of (rev (names_of fds))"
  "d_tag_to_name (fold add_field fds d) = d_tag_to_name d ++ map_of (rev (tags_of fds))"
  "d_messages (fold add_field fds d) = d_messages d"
  "d_msg_name_to_type (fold add_field fds d) = d_msg_name_to_type d"
  "d_msg_type_to_name (fold add_field fds d) = d_msg_type_to_name d"
  by (induction fds arbitrary: d) (auto simp: names_of_def tags_of_def Let_def)

lemma fold_add_message:
  "d_name_to_tag (fold add_message mds d) = d_name_to_tag d"
  "d_tag_to_name (fold add_message mds d) = d_tag_to_name d"
  "d_msg_name_to_type (fold add_message mds d) =
     d_msg_name_to_type d ++ map_of (rev (map (\<lambda>(nm, mt, fs). (nm, mt)) mds))"
  "d_msg_type_to_name (fold add_message mds d) =
     d_msg_type_to_name d ++ map_of (rev (map (\<lambda>(nm, mt, fs). (mt, nm)) mds))"
  "d_messages (fold add_message mds d) =
     d_messages d ++ map_of (rev (map (\<lambda>(nm, mt, fs). (mt, \<lparr>md_name = nm, md_msg_type = mt,
       md_fields = add_members (d_name_to_tag d) fs []\<rparr>)) mds))"
  by (induction mds arbitrary: d) (auto simp: Let_def)

lemma add_members_snoc:
  "add_members tags (fs @ [(nm, req)]) es =
     (case tags nm of Some t \<Rightarrow> assign (add_members tags fs es) t req | None \<Rightarrow> add_members tags fs es)"
  by (induction tags fs es rule: add_members.induct) (auto split: option.split)

lemma add_members_lookup:
  assumes "distinct (map fst fs)" "\<And>a b t. tags a = Some t \<Longrightarrow> tags b = Some t \<Longrightarrow> a = b"
    and "tags nm = Some t"
  shows "map_of (add_members tags fs []) t = map_of fs nm"
  using assms(1)
proof (induction fs rule: rev_induct)
  case (snoc f fs)
  obtain a r where f: "f = (a, r)" by (cases f)
  have "nm \<noteq> a \<Longrightarrow> tags a \<noteq> Some t" using assms(2,3) by blast
  moreover have "map_of fs a = None" using snoc.prems f by (auto simp: map_of_eq_None_iff)
  ultimately show ?case
    using snoc assms(3) by (auto simp: f add_members_snoc map_add_def split: option.split)
qed simp

lemma map_of_rev_Some: "distinct (map fst xs) \<Longrightarrow> (k, v) \<in> set xs \<Longrightarrow> map_of (rev xs) k = Some v"
  by (simp add: rev_map [symmetric])

definition decls_ok :: "field_decl list \<Rightarrow> message_decl list \<Rightarrow> bool" where
  "decls_ok fds mds \<longleftrightarrow>
     list_all field_decl_ok fds \<and> distinct (map fst fds) \<and> distinct (map (fst \<circ> snd) fds) \<and>
     list_all message_decl_ok mds \<and> distinct (map fst mds) \<and> distinct (map (fst \<circ> snd) mds) \<and>
     list_all (\<lambda>m. distinct (map fst (snd (snd m)))) mds"

lemma names_of_Some:
  assumes "distinct (map (fst \<circ> snd) fds)"
  shows "map_of (rev (names_of fds)) nm = Some n \<longleftrightarrow> (\<exists>ty. (n, nm, ty) \<in> set fds)"
proof -
  have "distinct (map fst (rev (names_of fds)))"
    using assms by (simp add: names_of_def rev_map [symmetric] comp_def case_prod_unfold)
  then show ?thesis by (force simp: names_of_def)
qed

lemma tags_of_Some:
  assumes "distinct (map fst fds)"
  shows "map_of (rev (tags_of fds)) n = Some nm \<longleftrightarrow> (\<exists>ty. (n, nm, ty) \<in> set fds)"
proof -
  have "distinct (map fst (rev (tags_of fds)))"
    using assms by (simp add: tags_of_def rev_map [symmetric] comp_def case_prod_unfold)
  then show ?thesis by (force simp: tags_of_def)
qed


section \<open>Invariant\<close>

definition message_ok :: "dictionary \<Rightarrow> string \<Rightarrow> message_def \<Rightarrow> bool" where
  "message_ok d mt md \<longleftrightarrow> mt \<noteq> [] \<and> md_msg_type md = mt \<and>
     d_msg_type_to_name d mt = Some (md_name md) \<and> distinct (map fst (md_fields md)) \<and>
     (\<forall>t\<in>fst ` set (md_fields md). d_tag_to_name d t \<noteq> None)"

definition dict_ok :: "dictionary \<Rightarrow> bool" where
  "dict_ok d \<longleftrightarrow>
     (\<forall>nm t. d_name_to_tag d nm = Some t \<longrightarrow> int32 t \<and> d_tag_to_name d t \<noteq> None) \<and>
     (\<forall>nm mt. d_msg_name_to_type d nm = Some mt \<longrightarrow> d_messages d mt \<noteq> None) \<and>
     (\<forall>mt md. d_messages d mt = Some md \<longrightarrow> message_ok d mt md)"

definition xml_ok :: "xml_state \<Rightarrow> bool" where
  "xml_ok st \<longleftrightarrow> dict_ok (xs_dict st) \<and>
     (xs_message_type st \<noteq> [] \<longrightarrow> d_messages (xs_dict st) (xs_message_type st) \<noteq> None)"

lemma from_chars_or0_int32: "int32 (from_chars_or0 s)"
  by (auto simp: from_chars_or0_def int32_def int_min_def int_max_def
      dest!: from_chars_int32 split: from_chars_result.split)

lemma xml_ok_init: "xml_ok xml_init"
  by (simp add: xml_ok_def xml_init_def dict_ok_def empty_dictionary_def)

lemma define_field_ok: "dict_ok d \<Longrightarrow> dict_ok (define_field c d)"
  unfolding dict_ok_def
  by (intro conjI allI impI)
    (auto simp: define_field_def Let_def message_ok_def from_chars_or0_int32 split: if_splits)

lemma define_field_messages [simp]: "d_messages (define_field c d) = d_messages d"
  by (simp add: define_field_def Let_def)

lemma refer_field_ok:
  assumes "dict_ok d" "d_messages d mt \<noteq> None"
  shows "dict_ok (refer_field mt c d) \<and> d_messages (refer_field mt c d) mt \<noteq> None"
proof (cases "get_attribute c ''name'' = [] \<or> d_name_to_tag d (get_attribute c ''name'') = None")
  case True
  then have "refer_field mt c d = d" by (auto simp: refer_field_def Let_def)
  with assms show ?thesis by simp
next
  case False
  then obtain t where t: "d_name_to_tag d (get_attribute c ''name'') = Some t" by auto
  from assms(2) obtain md where md: "d_messages d mt = Some md" by auto
  let ?req = "get_attribute c ''required'' = ''Y'' \<or> get_attribute c ''required'' = ''y''"
  let ?md = "md\<lparr>md_fields := assign (md_fields md) t ?req\<rparr>"
  have eq: "refer_field mt c d = d\<lparr>d_messages := (d_messages d)(mt \<mapsto> ?md)\<rparr>"
    using False t md by (simp add: refer_field_def Let_def)
  have "message_ok d mt md" "d_tag_to_name d t \<noteq> None"
    using assms(1) md t by (auto simp: dict_ok_def)
  then have "message_ok d mt ?md"
    by (simp add: message_ok_def distinct_assign)
  moreover have "message_ok (d\<lparr>d_messages := f\<rparr>) = message_ok d" for f
    by (intro ext) (simp add: message_ok_def)
  ultimately show ?thesis
    using assms(1) unfolding eq dict_ok_def by simp
qed

lemma define_message_ok:
  assumes "xml_ok st"
  shows "xml_ok (define_message c st)"
proof -
  have "dict_ok (xs_dict st)" using assms by (simp add: xml_ok_def)
  then show ?thesis
    using assms unfolding xml_ok_def dict_ok_def define_message_def Let_def
    by (auto simp: message_ok_def)
qed

lemma process_tag_ok: "xml_ok st \<Longrightarrow> xml_ok (process_tag c st)"
proof -
  assume ok: "xml_ok st"
  then have "xml_ok (end_tag (drop 1 c) st)" by (auto simp: end_tag_def xml_ok_def)
  moreover have "xml_ok (st\<lparr>xs_in_fields := True\<rparr>)" "xml_ok (st\<lparr>xs_in_messages := True\<rparr>)"
    using ok by (simp_all add: xml_ok_def)
  moreover have "xml_ok (st\<lparr>xs_dict := define_field c (xs_dict st)\<rparr>)"
    using ok by (simp add: xml_ok_def define_field_ok)
  moreover have "xs_message_type st \<noteq> [] \<Longrightarrow>
      xml_ok (st\<lparr>xs_dict := refer_field (xs_message_type st) c (xs_dict st)\<rparr>)"
    using ok refer_field_ok by (simp add: xml_ok_def)
  ultimately show ?thesis
    using ok define_message_ok [OF ok] unfolding process_tag_def by (simp split: if_split)
qed

lemma fold_process_tag_ok: "xml_ok st \<Longrightarrow> xml_ok (fold process_tag cs st)"
  by (induction cs arbitrary: st) (simp_all add: process_tag_ok)

lemma parse_xml_dict_ok:
  assumes "parse_xml xml = Inr d"
  shows "dict_ok d"
proof -
  obtain "is" tail where "xml = render_xml is @ render_tail tail" "list_all item_ok is" "tail_ok tail"
    using xml_decompose by blast
  with assms parse_xml_render have "tail_verdict tail (xs_dict (fold process_tag (item_tags is) xml_init)) = Inr d"
    by metis
  then have "d = xs_dict (fold process_tag (item_tags is) xml_init)"
    by (cases tail) simp_all
  with fold_process_tag_ok [OF xml_ok_init] show ?thesis by (simp add: xml_ok_def)
qed


section \<open>Validation\<close>

lemma first_missing_Some:
  "first_missing m es = Some t \<Longrightarrow> (t, True) \<in> set es \<and> get_field m t = None"
  by (induction m es rule: first_missing.induct) (auto split: if_splits)

lemma first_missing_None:
  "first_missing m es = None \<longleftrightarrow> (\<forall>(t, req)\<in>set es. req \<longrightarrow> get_field m t \<noteq> None)"
  by (induction m es rule: first_missing.induct) auto

lemma is_required_map:
  "is_required d mt t \<longleftrightarrow>
     (\<exists>md. d_messages d mt = Some md \<and> map_of (md_fields md) t = Some True)"
  by (auto simp: is_required_def split: option.split)

section \<open>Properties\<close>

text \<open>
  C27: the scanner reads a document as its sequence of text, comments and tags.  A document
  that ends outside a comment and outside a tag yields the dictionary its tags build, in
  order; one that ends inside a comment or a tag is refused with the error for it.
\<close>

theorem parse_xml_verdict:
  assumes "list_all item_ok is" "tail_ok tail"
  shows "parse_xml (render_xml is @ render_tail tail) =
    (case tail of
       Closed _ \<Rightarrow> Inr (xs_dict (fold process_tag (item_tags is) xml_init))
     | Open_comment _ _ \<Rightarrow> Inl ''Malformed XML: unclosed comment''
     | Open_tag _ _ \<Rightarrow> Inl ''Malformed XML: unclosed tag'')"
  using parse_xml_render [OF assms] by (cases tail) simp_all

theorem parse_xml_verdict_witness:
  "parse_xml ''<fix><!-- a>b --><fields> </fields><!-- x'' = Inl ''Malformed XML: unclosed comment''"
proof -
  let ?is = "[Tag ''fix'', Comment '' a>b '', Tag ''fields'', Text '' '', Tag ''/fields'']"
  have "list_all item_ok ?is" "tail_ok (Open_comment [] '' x'')" by code_simp+
  from parse_xml_verdict [OF this] show ?thesis by simp
qed

text \<open>
  On a rendered tag, \<open>get_attribute\<close> returns the value of the first attribute whose
  name ends in the name asked for, whatever the other attributes, and nothing when there
  is none.
\<close>

theorem attribute_lookup:
  assumes "plain_name a" "plain_text w" "list_all attr_ok kvs" "plain_text suf"
  shows "get_attribute (w @ render_attrs kvs @ suf) a =
     (case find (\<lambda>kv. suffix a (fst kv)) kvs of None \<Rightarrow> [] | Some kv \<Rightarrow> snd kv)"
  by (rule get_attribute_attrs [OF assms])

theorem attribute_lookup_witness:
  "get_attribute (''message'' @ render_attrs [(''msgname'', ''X''), (''name'', ''Logon'')] @ []) ''name'' = ''X''"
proof -
  have *: "plain_name ''name''" "plain_text ''message''"
    "list_all attr_ok [(''msgname'', ''X''), (''name'', ''Logon'')]" "plain_text []" by code_simp+
  show ?thesis unfolding attribute_lookup [OF *] by code_simp
qed

text \<open>
  C26: a rendered QuickFIX document, fields section first, is read back: every field is
  found by its name and its tag, every message by its name and its type, and a field is
  required in a message exactly when the message lists it as required.
\<close>

theorem dictionary_roundtrip:
  assumes "decls_ok fds mds"
  shows "\<exists>d. parse_xml (xml_document (fields_section fds @ messages_section mds)) = Inr d \<and>
    (\<forall>(n, nm, ty)\<in>set fds. get_tag d nm = Some n \<and> get_name d n = Some nm) \<and>
    (\<forall>(nm, mt, fs)\<in>set mds. get_msg_type d nm = Some mt \<and> get_msg_name d mt = Some nm \<and>
      (\<forall>(n, fname, ty)\<in>set fds. is_required d mt n \<longleftrightarrow> (fname, True) \<in> set fs))"
proof -
  let ?d1 = "fold add_field fds empty_dictionary"
  let ?d = "fold add_message mds ?d1"
  note ok = assms [unfolded decls_ok_def]
  have between: "between_sections st" if "st = xml_init \<or> st = xml_init\<lparr>xs_dict := ?d1\<rparr>" for st
    using that by (auto simp: between_sections_def xml_init_def)
  have "list_all content_ok (fields_section fds @ messages_section mds)"
    using ok contents_ok by simp
  then have "parse_xml (xml_document (fields_section fds @ messages_section mds)) = Inr ?d"
    using ok between process_fields_section [of fds xml_init]
      process_messages_section [of mds "xml_init\<lparr>xs_dict := ?d1\<rparr>"]
    by (simp add: parse_xml_document xml_init_def)
  moreover have tags: "d_name_to_tag ?d1 nm = Some n \<longleftrightarrow> (\<exists>ty. (n, nm, ty) \<in> set fds)"
      "d_tag_to_name ?d1 n = Some nm \<longleftrightarrow> (\<exists>ty. (n, nm, ty) \<in> set fds)" for n nm
    using ok names_of_Some tags_of_Some by (simp_all add: fold_add_field empty_dictionary_def)
  then have "\<forall>(n, nm, ty)\<in>set fds. get_tag ?d nm = Some n \<and> get_name ?d n = Some nm"
    by (auto simp: get_tag_def get_name_def fold_add_message)
  moreover have "\<forall>(nm, mt, fs)\<in>set mds. get_msg_type ?d nm = Some mt \<and> get_msg_name ?d mt = Some nm \<and>
      (\<forall>(n, fname, ty)\<in>set fds. is_required ?d mt n \<longleftrightarrow> (fname, True) \<in> set fs)"
  proof clarify
    fix nm mt fs assume m: "(nm, mt, fs) \<in> set mds"
    have keys: "distinct (map fst (map f mds))" if "fst \<circ> f = g" "distinct (map g mds)"
      for f :: "message_decl \<Rightarrow> string \<times> 'b" and g using that by simp
    have "get_msg_type ?d nm = Some mt"
      using map_of_rev_Some [OF keys [of "\<lambda>(nm, mt, fs). (nm, mt)" fst], of nm mt] ok m
      by (force simp: get_msg_type_def fold_add_message)
    moreover have "get_msg_name ?d mt = Some nm"
      using map_of_rev_Some [OF keys [of "\<lambda>(nm, mt, fs). (mt, nm)" "fst \<circ> snd"], of mt nm] ok m
      by (force simp: get_msg_name_def fold_add_message)
    moreover have msg: "d_messages ?d mt = Some \<lparr>md_name = nm, md_msg_type = mt,
        md_fields = add_members (d_name_to_tag ?d1) fs []\<rparr>"
      using map_of_rev_Some [OF keys [of "\<lambda>(nm, mt, fs). (mt, \<lparr>md_name = nm, md_msg_type = mt,
        md_fields = add_members (d_name_to_tag ?d1) fs []\<rparr>)" "fst \<circ> snd"], of mt] ok m
      by (force simp: fold_add_message)
    have "is_required ?d mt n \<longleftrightarrow> (fname, True) \<in> set fs" if f: "(n, fname, ty) \<in> set fds" for n fname ty
    proof -
      have fs: "distinct (map fst fs)" using ok m by (auto simp: list_all_iff)
      have "map_of (add_members (d_name_to_tag ?d1) fs []) n = map_of fs fname"
      proof (rule add_members_lookup [OF fs])
        show "a = b" if "d_name_to_tag ?d1 a = Some t" "d_name_to_tag ?d1 b = Some t" for a b t
          using that ok tags tags_of_Some by (metis option.inject)
        show "d_name_to_tag ?d1 fname = Some n" using f tags(1) by blast
      qed
      then have "is_required ?d mt n \<longleftrightarrow> map_of fs fname = Some True"
        by (simp add: is_required_map msg)
      then show ?thesis using fs by simp
    qed
    ultimately show "get_msg_type ?d nm = Some mt \<and> get_msg_name ?d mt = Some nm \<and>
      (\<forall>(n, fname, ty)\<in>set fds. is_required ?d mt n \<longleftrightarrow> (fname, True) \<in> set fs)" by blast
  qed
  ultimately show ?thesis by blast
qed

theorem dictionary_roundtrip_witness:
  "\<exists>d. parse_xml (xml_document (fields_section [(1, ''Account'', ''STRING''), (11, ''ClOrdID'', [])] @
      messages_section [(''Logon'', ''A'', []), (''Order'', ''D'', [(''ClOrdID'', True), (''Account'', False)])])) = Inr d \<and>
    get_tag d ''Account'' = Some 1 \<and> is_required d ''D'' 11 \<and> \<not> is_required d ''D'' 1 \<and> \<not> is_required d ''A'' 11"
proof -
  let ?fds = "[(1, ''Account'', ''STRING''), (11, ''ClOrdID'', [])] :: field_decl list"
  let ?mds = "[(''Logon'', ''A'', []), (''Order'', ''D'', [(''ClOrdID'', True), (''Account'', False)])]"
  have "decls_ok ?fds ?mds" by code_simp
  from dictionary_roundtrip [OF this] show ?thesis by auto
qed

text \<open>
  C28: every dictionary the parser returns is consistent: a field name leads to a tag in
  the range of \<open>int\<close> that has a name, a message name leads to a defined message, and a
  message is stored under its own type, with its name, each field once and only fields
  that have a name.
\<close>

theorem parsed_dictionary_consistent:
  assumes "parse_xml xml = Inr d"
  shows "(get_tag d nm = Some t \<longrightarrow> int32 t \<and> get_name d t \<noteq> None) \<and>
    (get_msg_type d mname = Some mt \<longrightarrow> d_messages d mt \<noteq> None) \<and>
    (d_messages d ty = Some md \<longrightarrow> md_msg_type md = ty \<and> get_msg_name d ty = Some (md_name md) \<and>
      distinct (map fst (md_fields md)) \<and> (\<forall>k\<in>fst ` set (md_fields md). get_name d k \<noteq> None))"
  using parse_xml_dict_ok [OF assms]
  unfolding dict_ok_def message_ok_def get_tag_def get_name_def get_msg_type_def get_msg_name_def
  by blast

definition sample_xml :: string where
  "sample_xml = xml_document (fields_section [(1, ''A'', [])] @ messages_section [(''O'', ''D'', [(''A'', True)])])"

theorem parsed_dictionary_consistent_witness:
  "\<exists>d. parse_xml sample_xml = Inr d \<and> get_tag d ''A'' = Some 1 \<and> int32 1 \<and> get_name d 1 \<noteq> None"
proof -
  have "case parse_xml sample_xml of Inl e \<Rightarrow> False | Inr d \<Rightarrow> get_tag d ''A'' = Some 1" by code_simp
  then obtain d where d: "parse_xml sample_xml = Inr d" "get_tag d ''A'' = Some 1"
    by (auto split: sum.splits)
  with parsed_dictionary_consistent [OF d(1), of "''A''" 1] show ?thesis by blast
qed

lemma validate_message_spec:
  assumes "parse_xml xml = Inr d" "\<And>es. set (iter es) = set es"
  shows "(validate_message iter d mt m = None \<longleftrightarrow>
      d_messages d mt \<noteq> None \<and> (\<forall>t. is_required d mt t \<longrightarrow> get_field m t \<noteq> None)) \<and>
    (\<forall>e. validate_message iter d mt m = Some e \<longrightarrow>
      d_messages d mt = None \<and> e = ''Unknown MsgType: '' @ mt \<or>
      (\<exists>t nm. is_required d mt t \<and> get_field m t = None \<and> get_name d t = Some nm \<and>
        e = ''Missing required field: '' @ nm @ '' ('' @ show_int t @ '')''))"
proof (cases "d_messages d mt")
  case None
  then show ?thesis by (simp add: validate_message_def)
next
  case (Some md)
  have ok: "message_ok d mt md"
    using parse_xml_dict_ok [OF assms(1)] Some by (simp add: dict_ok_def)
  then have req: "is_required d mt t \<longleftrightarrow> (t, True) \<in> set (iter (md_fields md))" for t
    by (simp add: is_required_map Some message_ok_def assms(2))
  show ?thesis
  proof (cases "first_missing m (iter (md_fields md))")
    case None
    then have "\<forall>t. is_required d mt t \<longrightarrow> get_field m t \<noteq> None"
      using req by (auto simp: first_missing_None)
    with None Some show ?thesis by (simp add: validate_message_def)
  next
    case missing: (Some t)
    from first_missing_Some [OF missing] req have t: "is_required d mt t" "get_field m t = None" by auto
    then have "t \<in> fst ` set (md_fields md)" using req assms(2) by force
    then obtain nm where nm: "get_name d t = Some nm"
      using ok by (auto simp: message_ok_def get_name_def)
    have "validate_message iter d mt m = Some (''Missing required field: '' @ nm @ '' ('' @ show_int t @ '')'')"
      using missing Some nm by (simp add: validate_message_def)
    with t nm show ?thesis by auto
  qed
qed

text \<open>
  C25: \<open>validate_message\<close> accepts a message exactly when its type is defined and every
  required field is present; otherwise its error names the unknown type, or a required
  field that is missing, by its name in the dictionary.  The order in which the hash table
  is walked does not matter for the verdict.
\<close>

theorem validate_message_exact:
  assumes "parse_xml xml = Inr d" "\<And>es. set (iter es) = set es"
  shows "(validate_message iter d mt m = None \<longleftrightarrow>
      d_messages d mt \<noteq> None \<and> (\<forall>t. is_required d mt t \<longrightarrow> get_field m t \<noteq> None)) \<and>
    (\<forall>e. validate_message iter d mt m = Some e \<longrightarrow>
      d_messages d mt = None \<and> e = ''Unknown MsgType: '' @ mt \<or>
      (\<exists>t nm. is_required d mt t \<and> get_field m t = None \<and> get_name d t = Some nm \<and>
        e = ''Missing required field: '' @ nm @ '' ('' @ show_int t @ '')''))"
  using validate_message_spec [OF assms] .

theorem validate_message_exact_witness:
  "\<exists>d. parse_xml sample_xml = Inr d \<and>
     validate_message rev d ''D'' \<lparr>m_raw = [], m_fields = [\<lparr>ftag = 1, fvalue = ''X''\<rparr>]\<rparr> = None \<and>
     (\<exists>t. is_required d ''D'' t)"
proof -
  let ?m = "\<lparr>m_raw = [], m_fields = [\<lparr>ftag = 1, fvalue = ''X''\<rparr>]\<rparr>"
  have "case parse_xml sample_xml of Inl e \<Rightarrow> False
    | Inr d \<Rightarrow> is_required d ''D'' 1 \<and> validate_message rev d ''D'' ?m = None" by code_simp
  then obtain d where d: "parse_xml sample_xml = Inr d" "is_required d ''D'' 1"
    "validate_message rev d ''D'' ?m = None"
    by (auto split: sum.splits)
  from validate_message_exact [OF d(1), of rev "''D''" ?m] d show ?thesis by auto
qed

text \<open>
  A document with its messages before its fields is accepted without an error, but
  the fields listed in its messages are dropped: nothing is required, and every message of
  a defined type is valid.
\<close>

theorem messages_first_requires_nothing:
  assumes "decls_ok fds mds" "\<And>es. set (iter es) = set es"
  shows "\<exists>d. parse_xml (xml_document (messages_section mds @ fields_section fds)) = Inr d \<and>
    (\<forall>mt t. \<not> is_required d mt t) \<and>
    (\<forall>(nm, mt, fs)\<in>set mds. validate_message iter d mt m = None)"
proof -
  let ?d1 = "fold add_message mds empty_dictionary"
  let ?d = "fold add_field fds ?d1"
  note ok = assms(1) [unfolded decls_ok_def]
  have between: "between_sections st" if "st = xml_init \<or> st = xml_init\<lparr>xs_dict := ?d1\<rparr>" for st
    using that by (auto simp: between_sections_def xml_init_def)
  have "list_all content_ok (messages_section mds @ fields_section fds)"
    using ok contents_ok by simp
  then have "parse_xml (xml_document (messages_section mds @ fields_section fds)) = Inr ?d"
    using ok between process_messages_section [of mds xml_init]
      process_fields_section [of fds "xml_init\<lparr>xs_dict := ?d1\<rparr>"]
    by (simp add: parse_xml_document xml_init_def)
  moreover have none: "add_members Map.empty fs es = es" for fs es
    by (induction fs arbitrary: es) auto
  have msgs: "d_messages ?d = map_of (rev (map (\<lambda>(nm, mt, fs). (mt, \<lparr>md_name = nm, md_msg_type = mt,
      md_fields = []\<rparr>)) mds))"
    by (simp add: fold_add_field fold_add_message empty_dictionary_def none)
  have empty: "md_fields md = []" if "d_messages ?d mt = Some md" for mt md
    using that unfolding msgs by (auto dest!: map_of_SomeD)
  then have "\<not> is_required ?d mt t" for mt t
    by (auto simp: is_required_map)
  moreover have "\<forall>(nm, mt, fs)\<in>set mds. validate_message iter ?d mt m = None"
  proof clarify
    fix nm mt fs assume "(nm, mt, fs) \<in> set mds"
    then have "d_messages ?d mt \<noteq> None"
      unfolding msgs map_of_eq_None_iff set_rev set_map by force
    moreover have "iter [] = []" using assms(2) [of "[]"] by simp
    ultimately show "validate_message iter ?d mt m = None" using empty by (auto simp: validate_message_def)
  qed
  ultimately show ?thesis by blast
qed

theorem messages_first_requires_nothing_witness:
  "\<exists>d. parse_xml (xml_document (messages_section [(''Order'', ''D'', [(''ClOrdID'', True)])] @
      fields_section [(11, ''ClOrdID'', ''STRING'')])) = Inr d \<and>
    validate_message rev d ''D'' \<lparr>m_raw = [], m_fields = []\<rparr> = None"
proof -
  have "decls_ok [(11, ''ClOrdID'', ''STRING'')] [(''Order'', ''D'', [(''ClOrdID'', True)])]" by code_simp
  from messages_first_requires_nothing [OF this, of rev "\<lparr>m_raw = [], m_fields = []\<rparr>"] show ?thesis by auto
qed

end
