(* ===== verification/Framing.thy ===== *)
theory Framing
  imports Serializer
begin

text \<open>
  Cutting messages out of a byte stream: \<open>extract_next_message\<close> of
  \<open>src/runner.cpp\<close> and its copy in \<open>src/proxy.cpp\<close>, and the receive buffer both
  keep between chunks.  \<open>frameable\<close> says which texts the function takes out whole.
\<close>

section \<open>The extraction\<close>

definition extract_next_message :: "string \<Rightarrow> char \<Rightarrow> string option \<times> string" where
  "extract_next_message buffer sep =
     (case sv_find_str buffer ''8='' 0 of
        None \<Rightarrow> (None, [])
      | Some start \<Rightarrow>
          (let buffer = (if start > 0 then drop start buffer else buffer) in
           case sv_find_str buffer ''10='' 0 of
             None \<Rightarrow> (None, buffer)
           | Some idx10 \<Rightarrow>
               (case sv_find buffer sep idx10 of
                  None \<Rightarrow> (None, buffer)
                | Some separator_pos \<Rightarrow>
                    (let msg_len = separator_pos + 1
                     in (Some (sv_substr buffer 0 msg_len), drop msg_len buffer)))))"

definition proxy_extract_next_message :: "string \<Rightarrow> char \<Rightarrow> string option \<times> string" where
  "proxy_extract_next_message buffer sep =
     (case sv_find_str buffer ''8='' 0 of
        None \<Rightarrow> (None, [])
      | Some start \<Rightarrow>
          (let buffer = (if start > 0 then drop start buffer else buffer) in
           case sv_find_str buffer ''10='' 0 of
             None \<Rightarrow> (None, buffer)
           | Some idx10 \<Rightarrow>
               (case sv_find buffer sep idx10 of
                  None \<Rightarrow> (None, buffer)
                | Some separator_pos \<Rightarrow>
                    (let msg_len = separator_pos + 1
                     in (Some (sv_substr buffer 0 msg_len), drop msg_len buffer)))))"

lemma proxy_extract_same: "proxy_extract_next_message = extract_next_message"
  by (intro ext) (simp add: proxy_extract_next_message_def extract_next_message_def)

text \<open>
  A text that begins with \<open>8=\<close> and whose first separator after its first \<open>10=\<close> is its
  last byte.
\<close>

definition frameable :: "char \<Rightarrow> string \<Rightarrow> bool" where
  "frameable sep m \<longleftrightarrow> prefix ''8='' m \<and>
     (case index_of_sub ''10='' m of
        None \<Rightarrow> False
      | Some i \<Rightarrow> sv_find m sep i = Some (length m - 1))"

definition no_start :: "string \<Rightarrow> bool" where
  "no_start s \<longleftrightarrow> index_of_sub ''8='' s = None"

lemma sv_find_append_left: "sv_find s c i = Some k \<Longrightarrow> sv_find (s @ rest) c i = Some k"
proof -
  assume a: "sv_find s c i = Some k"
  have *: "index_of c xs = Some j \<Longrightarrow> index_of c (xs @ ys) = Some j" for xs ys j
    by (induction xs arbitrary: j) (auto split: if_splits)
  have "i \<le> length s" using sv_find_bounds [OF a] by simp
  with a show ?thesis by (auto simp: sv_find_def dest: *)
qed

lemma sv_find_take: "sv_find s c i = Some k \<Longrightarrow> sv_find (take (k + 1) s) c i = Some k"
proof -
  assume a: "sv_find s c i = Some k"
  have *: "index_of c xs = Some j \<Longrightarrow> index_of c (take (Suc j) xs) = Some j" for xs j
    by (induction xs arbitrary: j) (auto split: if_splits)
  from a obtain j where j: "index_of c (drop i s) = Some j" "k = i + j"
    by (auto simp: sv_find_def)
  from * [OF j(1)] j(2) show ?thesis by (simp add: sv_find_def drop_take)
qed

lemma sv_find_nth: "sv_find s c i = Some k \<Longrightarrow> s ! k = c"
  by (auto simp: sv_find_def dest!: index_of_SomeD split: if_splits)

lemma no_start_append: "no_start junk \<Longrightarrow> prefix ''8='' m \<Longrightarrow> index_of_sub ''8='' (junk @ m) = Some (length junk)"
proof (induction junk)
  case (Cons x xs)
  have "take 2 (x # xs @ m) \<noteq> ''8=''"
    using Cons.prems by (cases xs) (auto simp: no_start_def prefix_def split: if_splits)
  moreover have "no_start xs" using Cons.prems(1) by (auto simp: no_start_def split: if_splits)
  ultimately show ?case using Cons by simp
qed (auto simp: prefix_def)

lemma extract_prefixed:
  assumes "prefix ''8='' b"
  shows "extract_next_message b sep =
     (case index_of_sub ''10='' b of
        None \<Rightarrow> (None, b)
      | Some i \<Rightarrow> (case sv_find b sep i of
          None \<Rightarrow> (None, b) | Some p \<Rightarrow> (Some (take (p + 1) b), drop (p + 1) b)))"
  using no_start_append [of "[]" b] assms
  by (simp add: extract_next_message_def no_start_def sv_substr_def split: option.split)

lemma extract_skips_junk:
  "no_start junk \<Longrightarrow> prefix ''8='' b \<Longrightarrow>
     extract_next_message (junk @ b) sep = extract_next_message b sep"
  using no_start_append [of junk b] no_start_append [of "[]" b]
  by (simp add: extract_next_message_def no_start_def)

lemma extract_Nil [simp]: "extract_next_message [] sep = (None, [])"
  by (simp add: extract_next_message_def)

lemma frameable_neq_Nil: "frameable sep m \<Longrightarrow> 2 \<le> length m"
  by (auto simp: frameable_def prefix_def)

lemma prefix_start_append: "prefix ''8='' m \<Longrightarrow> prefix ''8='' (m @ r)"
  by (rule prefix_prefix)

lemma extract_frameable:
  assumes "frameable sep m" "no_start junk"
  shows "extract_next_message (junk @ m @ rest) sep = (Some m, rest)"
proof -
  from assms(1) obtain i where i: "prefix ''8='' m" "index_of_sub ''10='' m = Some i"
    "sv_find m sep i = Some (length m - 1)"
    by (auto simp: frameable_def split: option.splits)
  with frameable_neq_Nil [OF assms(1)] show ?thesis
    by (simp add: extract_skips_junk assms(2) extract_prefixed index_of_sub_append_left
        sv_find_append_left prefix_start_append)
qed

text \<open>An unfinished message stays in the buffer, unless only its first byte has come.\<close>

lemma extract_unfinished:
  assumes "frameable sep m" "strict_prefix p m" "length p \<noteq> 1"
  shows "extract_next_message p sep = (None, p)"
proof (cases "p = []")
  case False
  from assms(1) obtain i where i: "prefix ''8='' m" "index_of_sub ''10='' m = Some i"
    "sv_find m sep i = Some (length m - 1)"
    by (auto simp: frameable_def split: option.splits)
  from assms(2) obtain q where q: "m = p @ q" "q \<noteq> []" by (auto elim: strict_prefixE')
  have "2 \<le> length p" using False assms(3) by (cases p; cases "tl p") auto
  then have pre: "prefix ''8='' p"
    using i(1) q(1) by (cases p; cases "tl p") (auto simp: prefix_def)
  have "sv_find p sep j = None" if "index_of_sub ''10='' p = Some j" for j
  proof (cases "sv_find p sep j")
    case (Some k)
    have "i = j" using index_of_sub_append_left [OF that, of q] i(2) q(1) by simp
    with sv_find_append_left [OF Some, of q] i(3) q(1) have "k = length m - 1" by simp
    moreover have "k < length p" using sv_find_bounds [OF Some] by simp
    moreover have "0 < length q" using q(2) by simp
    moreover have "length m = length p + length q" using q(1) by simp
    ultimately have False by linarith
    then show ?thesis ..
  qed
  then show ?thesis by (simp add: extract_prefixed [OF pre] split: option.split)
qed simp

lemma extract_SomeD:
  assumes "extract_next_message b sep = (Some m, r)" "\<not> is_digit sep"
  shows "\<exists>junk. b = junk @ m @ r \<and> no_start junk \<and> frameable sep m"
proof -
  from assms obtain start where start: "index_of_sub ''8='' b = Some start"
    by (auto simp: extract_next_message_def split: option.splits)
  let ?b = "drop start b"
  from index_of_sub_SomeD [OF start]
  have "take (length ''8='') ?b = ''8=''" by blast
  then have pre: "prefix ''8='' ?b" by (metis take_is_prefix)
  have ns: "no_start (take start b)"
  proof (cases "index_of_sub ''8='' (take start b)")
    case (Some j)
    with index_of_sub_append_left [OF Some, of ?b] start have "j = start" by simp
    with index_of_sub_bounds [OF Some] show ?thesis by simp
  qed (simp add: no_start_def)
  have "extract_next_message ?b sep = (Some m, r)"
    using extract_skips_junk [OF ns pre, of sep] assms(1) by simp
  then obtain i p where ip: "index_of_sub ''10='' ?b = Some i" "sv_find ?b sep i = Some p"
    and m: "m = take (p + 1) ?b" and r: "r = drop (p + 1) ?b"
    by (auto simp: extract_prefixed [OF pre] split: option.splits)
  have p: "i \<le> p" "p < length ?b" using sv_find_bounds [OF ip(2)] by auto
  have ten: "take 3 (drop i ?b) = ''10=''" "\<And>j. j < i \<Longrightarrow> take 3 (drop j ?b) \<noteq> ''10=''"
    using index_of_sub_SomeD [OF ip(1)] by (auto simp: numeral_3_eq_3)
  have at: "?b ! i = CHR ''1''" "?b ! (i + 1) = CHR ''0''"
    using arg_cong [OF ten(1), of "\<lambda>l. l ! 0"] arg_cong [OF ten(1), of "\<lambda>l. l ! 1"] p by (simp_all add: add.commute)
  have "?b ! p = sep" using sv_find_nth [OF ip(2)] by simp
  with at assms(2) have "p \<noteq> i" "p \<noteq> i + 1" by (auto simp: is_digit_def)
  with p have ge: "i + 2 \<le> p" by simp
  have "index_of_sub ''10='' m = Some i"
  proof (rule index_of_sub_eqI)
    show "take (length ''10='') (drop i m) = ''10=''"
      using ten(1) ge by (simp add: m drop_take min_def numeral_3_eq_3)
    show "take (length ''10='') (drop j m) \<noteq> ''10=''" if "j < i" for j
      using ten(2) [OF that] ge that by (simp add: m drop_take min_def numeral_3_eq_3)
  qed (use p in \<open>simp add: m\<close>)
  moreover have "prefix ''8='' m" using pre ge by (cases p) (auto simp: m prefix_def)
  moreover have "sv_find m sep i = Some (length m - 1)"
    using sv_find_take [OF ip(2)] p by (simp add: m)
  ultimately have "frameable sep m" by (simp add: frameable_def)
  moreover have "?b = m @ r" using m r by (simp only: append_take_drop_id)
  then have "b = take start b @ m @ r" by (metis append_take_drop_id)
  ultimately show ?thesis using ns by blast
qed


section \<open>The receive buffer\<close>

text \<open>
  Both callers extract until nothing more comes out, then append the next chunk.
\<close>

lemma extract_shrinks:
  "extract_next_message b sep = (Some m, r) \<Longrightarrow> length r < length b"
  by (auto simp: extract_next_message_def Let_def dest!: sv_find_bounds split: option.splits if_splits)

function extract_all :: "string \<Rightarrow> char \<Rightarrow> string list \<times> string" where
  "extract_all buffer sep =
     (case extract_next_message buffer sep of
        (None, b) \<Rightarrow> ([], b)
      | (Some m, b) \<Rightarrow> (let (ms, r) = extract_all b sep in (m # ms, r)))"
  by pat_completeness auto
termination
  by (relation "measure (\<lambda>(b, sep). length b)") (auto dest!: extract_shrinks [OF sym])

declare extract_all.simps [simp del]

fun feed :: "char \<Rightarrow> string \<Rightarrow> string list \<Rightarrow> string list \<times> string" where
  "feed sep buf [] = ([], buf)"
| "feed sep buf (c # cs) =
     (let (ms, b) = extract_all (buf @ c) sep; (ms', b') = feed sep b cs in (ms @ ms', b'))"

lemma extract_all_frameable:
  assumes "\<forall>m\<in>set ms. frameable sep m" "extract_next_message p sep = (None, q)"
  shows "extract_all (concat ms @ p) sep = (ms, q)"
  using assms(1)
proof (induction ms)
  case Nil
  then show ?case using assms(2) by (simp add: extract_all.simps)
next
  case (Cons m ms)
  have "extract_next_message (concat (m # ms) @ p) sep = (Some m, concat ms @ p)"
    using extract_frameable [of sep m "[]" "concat ms @ p"] Cons.prems by (simp add: no_start_def)
  with Cons show ?case by (subst extract_all.simps) simp
qed

text \<open>
  A cut of the stream after \<open>n\<close> bytes is good unless it falls right behind the first
  byte of a message.
\<close>

fun good_cut :: "string list \<Rightarrow> nat \<Rightarrow> bool" where
  "good_cut [] n \<longleftrightarrow> True"
| "good_cut (m # ms) n \<longleftrightarrow> n \<noteq> 1 \<and> (n < length m \<or> good_cut ms (n - length m))"

fun cuts :: "nat \<Rightarrow> string list \<Rightarrow> nat list" where
  "cuts n [] = []"
| "cuts n (c # cs) = (n + length c) # cuts (n + length c) cs"

text \<open>What the buffer holds at a good cut: a proper beginning of the next message, or nothing.\<close>

definition unfinished :: "string \<Rightarrow> string list \<Rightarrow> bool" where
  "unfinished p ms \<longleftrightarrow> (case ms of [] \<Rightarrow> p = [] | m # _ \<Rightarrow> strict_prefix p m)"

lemma split_at_cut:
  assumes "p @ s = concat ms" "\<forall>m\<in>set ms. m \<noteq> []" "good_cut ms (length p)"
  shows "\<exists>ms1 ms2 q. ms = ms1 @ ms2 \<and> p = concat ms1 @ q \<and> q @ s = concat ms2 \<and>
    unfinished q ms2 \<and> length q \<noteq> 1"
  using assms
proof (induction ms arbitrary: p)
  case Nil
  then show ?case by (simp add: unfinished_def)
next
  case (Cons m ms)
  show ?case
  proof (cases "length p < length m")
    case True
    have "p @ s = m @ concat ms" using Cons.prems(1) by simp
    then have "p = take (length p) m"
      using True by (metis append_eq_append_conv_if less_imp_le)
    then have "strict_prefix p m"
      using True by (metis less_irrefl strict_prefixI take_is_prefix)
    moreover have "length p \<noteq> 1" using Cons.prems(3) by simp
    ultimately show ?thesis
      using Cons.prems(1) by (intro exI [of _ "[]"] exI [of _ "m # ms"] exI [of _ p]) (simp add: unfinished_def)
  next
    case False
    have "p @ s = m @ concat ms" using Cons.prems(1) by simp
    from arg_cong [OF this, of "take (length m)"] arg_cong [OF this, of "drop (length m)"]
    have m: "m = take (length m) p" "drop (length m) p @ s = concat ms"
      using False by simp_all
    define p' where "p' = drop (length m) p"
    have p: "p = m @ p'" unfolding p'_def by (metis m(1) append_take_drop_id)
    have ms: "p' @ s = concat ms" "\<forall>m\<in>set ms. m \<noteq> []" "good_cut ms (length p')"
      using m(2) Cons.prems(2,3) False by (simp_all add: p'_def)
    from Cons.IH [OF ms] obtain ms1 ms2 q where
      "ms = ms1 @ ms2" "p' = concat ms1 @ q" "q @ s = concat ms2" "unfinished q ms2" "length q \<noteq> 1"
      by blast
    with p show ?thesis
      by (intro exI [of _ "m # ms1"] exI [of _ ms2] exI [of _ q]) simp
  qed
qed

lemma good_cut_append: "good_cut (ms1 @ ms2) (length (concat ms1) + k) \<Longrightarrow> good_cut ms2 k"
  by (induction ms1) (auto simp: algebra_simps)

lemma cuts_shift: "cuts (n + k) cs = map ((+) n) (cuts k cs)"
  by (induction cs arbitrary: k) (simp_all add: add.assoc)

lemma feed_frameable:
  assumes "p @ concat cs = concat ms" "unfinished p ms" "\<forall>n\<in>set (cuts (length p) cs). good_cut ms n"
    "\<forall>m\<in>set ms. frameable sep m"
  shows "feed sep p cs = (ms, [])"
  using assms
proof (induction cs arbitrary: p ms)
  case Nil
  then show ?case
    by (cases ms) (auto simp: unfinished_def strict_prefix_def prefix_def)
next
  case (Cons c cs)
  have ne: "\<forall>m\<in>set ms. m \<noteq> []" using Cons.prems(4) frameable_neq_Nil by fastforce
  obtain ms1 ms2 q where split: "ms = ms1 @ ms2" "p @ c = concat ms1 @ q" "q @ concat cs = concat ms2"
    "unfinished q ms2" "length q \<noteq> 1"
    using split_at_cut [of "p @ c" "concat cs" ms] Cons.prems(1,3) ne by auto
  have "extract_next_message q sep = (None, q)"
    using split(1,4,5) Cons.prems(4) extract_unfinished [of sep _ q]
    by (cases ms2) (auto simp: unfinished_def)
  with split(1,2) Cons.prems(4) have all: "extract_all (p @ c) sep = (ms1, q)"
    by (simp add: extract_all_frameable)
  have "length p + length c = length (concat ms1) + length q"
    using split(2) by (metis length_append)
  then have "\<forall>n\<in>set (cuts (length q) cs). good_cut ms2 n"
    using Cons.prems(3) split(1) by (auto simp: cuts_shift intro: good_cut_append)
  with Cons.IH [OF split(3,4)] split(1) Cons.prems(4) have "feed sep q cs = (ms2, [])" by simp
  with all split(1) show ?case by simp
qed


lemma feed_stream:
  assumes "concat cs = concat ms" "\<forall>m\<in>set ms. frameable sep m" "\<forall>n\<in>set (cuts 0 cs). good_cut ms n"
  shows "feed sep [] cs = (ms, [])"
proof (rule feed_frameable)
  show "unfinished [] ms"
    using assms(2) frameable_neq_Nil by (fastforce simp: unfinished_def strict_prefix_def split: list.split)
qed (use assms in auto)

section \<open>What the serializer writes is frameable\<close>

text \<open>
  A message is safe when nothing before its checksum field reads \<open>10=\<close>.
\<close>

definition stream_safe :: "char \<Rightarrow> string \<Rightarrow> fix_field list \<Rightarrow> bool" where
  "stream_safe sep v8 fs \<longleftrightarrow>
     index_of_sub ''10='' (wire sep (frame_pairs sep v8 fs)) = None"

lemma index_of_sub_skip:
  assumes "index_of_sub ''10='' pre = None" "pre = [] \<or> \<not> is_digit (last pre)"
  shows "index_of_sub ''10='' (pre @ w) = map_option (\<lambda>i. length pre + i) (index_of_sub ''10='' w)"
  using assms
proof (induction pre)
  case (Cons x xs)
  have "take 3 (x # xs @ w) \<noteq> ''10=''"
  proof (cases "length xs < 2")
    case True
    then have "xs = [] \<or> (\<exists>y. xs = [y])" by (cases xs; cases "tl xs") auto
    with Cons.prems(2) show ?thesis by (auto simp: is_digit_def split: if_splits)
  next
    case False
    then have "take 3 (x # xs @ w) = take 3 (x # xs)"
      by (cases xs; cases "tl xs") (auto simp: numeral_3_eq_3)
    with Cons.prems(1) show ?thesis by (auto simp: numeral_3_eq_3 split: if_splits)
  qed
  moreover have "index_of_sub ''10='' xs = None"
    using Cons.prems(1) by (auto split: if_splits)
  ultimately show ?case
    using Cons by (auto simp: numeral_3_eq_3 option.map_comp comp_def split: if_splits)
qed (cases "index_of_sub ''10='' w", simp_all)

lemma index_of_sub_tag:
  "CHR ''='' \<notin> set u \<Longrightarrow> index_of_sub ''10='' (u @ ''10='' @ s) = Some (length u)"
  using index_of_sub_first [of "CHR ''=''" "''10''" u s] index_of_sub_notin [of "CHR ''=''" "''10=''" u]
  by simp

lemma wire_eq_Nil [simp]: "wire sep ps = [] \<longleftrightarrow> ps = []"
  by (cases ps) auto

lemma last_wire: "ps \<noteq> [] \<Longrightarrow> last (wire sep ps) = sep"
  by (induction ps) (auto simp: wire_field_def)

text \<open>Appending the checksum field to safe text gives a frameable one.\<close>

lemma frameable_trailer:
  assumes "prefix ''8='' pre" "index_of_sub ''10='' pre = None" "last pre = sep"
    and "\<not> is_digit sep" "sep \<noteq> CHR ''=''" "sep \<notin> set cs"
  shows "frameable sep (pre @ wire_field sep (''10'', cs))"
proof -
  let ?t = "''10='' @ cs @ [sep]"
  have t: "wire_field sep (''10'', cs) = ?t" by (simp add: wire_field_def)
  have "index_of_sub ''10='' (pre @ ?t) = Some (length pre)"
    using assms(2-4) index_of_sub_tag [of "[]"] by (simp add: index_of_sub_skip)
  moreover have "sv_find (pre @ ?t) sep (length pre) = Some (length pre + (3 + length cs))"
    using assms(4-6) unfolding sv_find_append
    by (auto simp: index_of_append is_digit_def)
  moreover have "prefix ''8='' (pre @ ?t)" using assms(1) by (rule prefix_prefix)
  ultimately show ?thesis unfolding t frameable_def by simp
qed

lemma frame_frameable:
  assumes "sep \<noteq> CHR ''=''" "\<not> is_digit sep" "stream_safe sep v8 fs"
  shows "frameable sep (frame sep v8 fs)"
proof -
  have cs: "sep \<notin> set (checksum3 k)" if "k < 256" for k
    using that assms(2) by (auto simp: checksum3_def)
  have "prefix ''8='' (wire sep (frame_pairs sep v8 fs))"
    by (simp add: frame_pairs_def wire_field_def)
  moreover have "last (wire sep (frame_pairs sep v8 fs)) = sep"
    by (rule last_wire) (simp add: frame_pairs_def)
  ultimately show ?thesis
    unfolding frame_def Let_def
    using assms cs by (intro frameable_trailer) (auto simp: stream_safe_def)
qed


section \<open>Properties\<close>

text \<open>
  C8: the receive buffer reassembles a stream.  However a sequence of frameable messages
  is cut into chunks, as long as no cut falls right behind the first byte of a message,
  exactly those messages come out, in order, and the buffer ends empty.
\<close>

theorem framing_reassembles:
  assumes "concat cs = concat ms" "\<forall>m\<in>set ms. frameable sep m" "\<forall>n\<in>set (cuts 0 cs). good_cut ms n"
  shows "feed sep [] cs = (ms, [])"
  using assms by (rule feed_stream)

theorem framing_reassembles_witness:
  "feed (CHR ''|'') [] [''8=F|9'', ''=5|35=0|1'', ''0=175|8=F|9=5|35=1|10=176'', ''|''] =
     ([''8=F|9=5|35=0|10=175|'', ''8=F|9=5|35=1|10=176|''], [])"
  by (rule framing_reassembles) code_simp+

text \<open>
  C9: what the extraction returns is a frameable message, found at the first \<open>8=\<close> of the
  buffer; only the bytes before it are dropped and the rest stays; and every frameable
  message at the first \<open>8=\<close> is found.
\<close>

theorem extraction_exact:
  assumes "\<not> is_digit sep"
  shows "extract_next_message b sep = (Some m, r) \<longleftrightarrow>
    (\<exists>junk. b = junk @ m @ r \<and> index_of_sub ''8='' junk = None \<and> frameable sep m)"
  using extract_SomeD [of b sep m r] extract_frameable [of sep m _ r] assms
  by (auto simp: no_start_def)

theorem extraction_exact_witness:
  "extract_next_message ''xx8=F|9=5|35=0|10=175|8=F'' (CHR ''|'') =
     (Some ''8=F|9=5|35=0|10=175|'', ''8=F'')"
proof -
  have "\<not> is_digit (CHR ''|'')" "index_of_sub ''8='' ''xx'' = None"
    "frameable (CHR ''|'') ''8=F|9=5|35=0|10=175|''" by code_simp+
  then show ?thesis
    using extraction_exact [of "CHR ''|''" "''xx8=F|9=5|35=0|10=175|8=F''"] by force
qed

text \<open>
  A cut right behind the first byte of a message loses the message: the single byte is
  discarded, and the rest does not come out when it holds no further \<open>8=\<close>.
\<close>

theorem boundary_loses_message:
  assumes "frameable sep m" "index_of_sub ''8='' (tl m) = None"
  shows "feed sep [] [take 1 m, drop 1 m] = ([], [])"
proof -
  from assms(1) obtain s where m: "m = ''8='' @ s" by (auto simp: frameable_def prefix_def)
  have "extract_next_message (drop 1 m) sep = (None, [])"
    using assms(2) by (simp add: m extract_next_message_def)
  moreover have "extract_next_message (take 1 m) sep = (None, [])"
    by (simp add: m extract_next_message_def)
  ultimately show ?thesis by (simp add: extract_all.simps)
qed

theorem boundary_loses_message_witness:
  "feed (CHR ''|'') [] [''8'', ''=F|9=5|35=0|10=175|''] = ([], [])"
proof -
  have "frameable (CHR ''|'') ''8=F|9=5|35=0|10=175|''"
    "index_of_sub ''8='' (tl ''8=F|9=5|35=0|10=175|'') = None" by code_simp+
  from boundary_loses_message [OF this] show ?thesis by simp
qed

text \<open>
  C37: a field whose tag ends in 10 cuts a valid message short.  Of a message the parser
  accepts, the extraction returns the part up to the first field with such a tag, the
  parser rejects that part, and the rest of the message stays behind in the buffer.
\<close>

theorem embedded_ten_misframes:
  assumes "parse (wire sep (ps @ p # qs)) sep = Inr m"
    and "sep \<noteq> CHR ''=''" "\<not> is_digit sep" "list_all (clean_pair sep) (ps @ p # qs)"
    and "prefix ''8='' (wire sep ps)" "index_of_sub ''10='' (wire sep ps) = None"
    and "fst p = u @ ''10''" "tag_num (fst p) \<noteq> 10"
  shows "extract_next_message (wire sep (ps @ p # qs)) sep = (Some (wire sep (ps @ [p])), wire sep qs) \<and>
    (\<exists>e. parse (wire sep (ps @ [p])) sep = Inl e)"
proof
  have u: "CHR ''='' \<notin> set u" and v: "sep \<notin> set (snd p)"
    using assms(4,7) tag_text_no_eq [of "fst p"] by (auto simp: clean_pair_def)
  have ne: "ps \<noteq> []" using assms(5) by (cases ps) auto
  have p: "wire_field sep p = u @ ''10='' @ snd p @ [sep]"
    using assms(7) by (simp add: wire_field_def)
  have "frameable sep (wire sep (ps @ [p]))"
    unfolding frameable_def
  proof
    show "prefix ''8='' (wire sep (ps @ [p]))" using assms(5) by (simp add: prefix_prefix)
    have "index_of_sub ''10='' (wire sep (ps @ [p])) = Some (length (wire sep ps) + length u)"
      using assms(3,6) u by (simp add: p index_of_sub_skip last_wire [OF ne] index_of_sub_tag [simplified])
    moreover have "sv_find (wire sep (ps @ [p])) sep (length (wire sep ps) + length u) =
        Some (length (wire sep (ps @ [p])) - 1)"
      using sv_find_append [of "wire sep ps @ u" "''10='' @ snd p @ [sep]" sep] assms(2,3) v
      by (auto simp: p index_of_append is_digit_def)
    ultimately show "case index_of_sub ''10='' (wire sep (ps @ [p])) of None \<Rightarrow> False
      | Some i \<Rightarrow> sv_find (wire sep (ps @ [p])) sep i = Some (length (wire sep (ps @ [p])) - 1)" by simp
  qed
  from extract_frameable [OF this, of "[]" "wire sep qs"]
  show "extract_next_message (wire sep (ps @ p # qs)) sep = (Some (wire sep (ps @ [p])), wire sep qs)"
    by (simp add: no_start_def)
  have "frame_verdict sep (ps @ [p]) [] \<noteq> None"
    using assms(8) by (auto simp: frame_verdict_def split: option.splits)
  then show "\<exists>e. parse (wire sep (ps @ [p])) sep = Inl e"
    using parse_wire [of sep "ps @ [p]" "[]"] assms(2,4) by (auto simp: trailer_def split: option.split)
qed

theorem embedded_ten_misframes_witness:
  "extract_next_message ''8=F|9=11|35=D|110=7|10=114|'' (CHR ''|'') =
     (Some ''8=F|9=11|35=D|110=7|'', ''10=114|'') \<and>
   (\<exists>e. parse ''8=F|9=11|35=D|110=7|'' (CHR ''|'') = Inl e)"
proof -
  let ?ps = "[(''8'', ''F''), (''9'', ''11''), (''35'', ''D'')]"
  have w: "wire (CHR ''|'') (?ps @ (''110'', ''7'') # [(''10'', ''114'')]) = ''8=F|9=11|35=D|110=7|10=114|''"
    by code_simp
  have "case parse ''8=F|9=11|35=D|110=7|10=114|'' (CHR ''|'') of Inl e \<Rightarrow> False | Inr m \<Rightarrow> True"
    by code_simp
  then obtain m where m: "parse (wire (CHR ''|'') (?ps @ (''110'', ''7'') # [(''10'', ''114'')])) (CHR ''|'') = Inr m"
    unfolding w by (auto split: sum.splits)
  have "list_all (clean_pair (CHR ''|'')) (?ps @ (''110'', ''7'') # [(''10'', ''114'')])"
    "prefix ''8='' (wire (CHR ''|'') ?ps)" "index_of_sub ''10='' (wire (CHR ''|'') ?ps) = None"
    "tag_num (fst (''110'', ''7'')) \<noteq> 10" "\<not> is_digit (CHR ''|'')"
    by code_simp+
  with embedded_ten_misframes [OF m, of "''1''"] show ?thesis
    by (simp add: wire_field_def)
qed

end
