(* ===== verification/Inspection.thy ===== *)
theory Inspection
  imports Dictionary Framing
begin

text \<open>
  What the proxy does with the bytes it has read, \<open>src/proxy.cpp\<close> and
  \<open>include/fixure/proxy.hpp\<close>: cutting messages out of a direction's buffer, parsing them,
  and \<open>analyze_message\<close> on the state both directions share (dictionary, open orders, last
  client message).  Each printed line is an event; the steady clock (nanoseconds) is a
  sequence of readings, each taken once.
\<close>

section \<open>State\<close>

record latency_tracker =
  lt_start_time :: int
  lt_msg_type :: string

text \<open>The flag of an event says whether the message went from the client to the server.\<close>

datatype proxy_event =
    Passed bool string
  | Valid bool string
  | Invalid bool string string
  | Order_latency string int
  | Round_trip string string int
  | Parse_failed parse_error

record inspector =
  px_dict :: "dictionary option"
  px_orders :: "string \<rightharpoonup> latency_tracker"
  px_last_time :: int
  px_last_type :: string
  px_ticks :: nat
  px_out :: "proxy_event list"

definition new_inspector :: "dictionary option \<Rightarrow> inspector" where
  "new_inspector d = \<lparr>px_dict = d, px_orders = Map.empty, px_last_time = 0, px_last_type = [],
     px_ticks = 0, px_out = []\<rparr>"

definition say :: "proxy_event \<Rightarrow> inspector \<Rightarrow> inspector" where
  "say e s = s\<lparr>px_out := px_out s @ [e]\<rparr>"

text \<open>\<open>duration_cast<microseconds>\<close> of nanoseconds, towards zero.\<close>

definition micros :: "int \<Rightarrow> int" where
  "micros d = (if d < 0 then - (- d div 1000) else d div 1000)"

section \<open>Analysis\<close>

type_synonym iteration = "(int \<times> bool) list \<Rightarrow> (int \<times> bool) list"

definition say_validity :: "iteration \<Rightarrow> bool \<Rightarrow> string \<Rightarrow> fix_message \<Rightarrow> inspector \<Rightarrow> inspector" where
  "say_validity iter c2s msg_type m s =
     (case px_dict s of
        None \<Rightarrow> say (Passed c2s msg_type) s
      | Some d \<Rightarrow>
          (case validate_message iter d msg_type m of
             Some err \<Rightarrow> say (Invalid c2s msg_type err) s
           | None \<Rightarrow> say (Valid c2s msg_type) s))"

definition track_order :: "(nat \<Rightarrow> int) \<Rightarrow> string \<Rightarrow> fix_message \<Rightarrow> inspector \<Rightarrow> inspector" where
  "track_order clk msg_type m s =
     (if msg_type = ''D'' then
        (case get_field m 11 of
           None \<Rightarrow> s
         | Some cl_ord_id \<Rightarrow>
             s\<lparr>px_orders := (px_orders s)(cl_ord_id \<mapsto>
                 \<lparr>lt_start_time = clk (px_ticks s), lt_msg_type = ''D''\<rparr>),
               px_ticks := px_ticks s + 1\<rparr>)
      else s)"

definition measure_order :: "(nat \<Rightarrow> int) \<Rightarrow> string \<Rightarrow> fix_message \<Rightarrow> inspector \<Rightarrow> bool \<times> inspector" where
  "measure_order clk msg_type m s =
     (if msg_type = ''8'' then
        (case get_field m 11 of
           None \<Rightarrow> (False, s)
         | Some cl_ord_id \<Rightarrow>
             (case px_orders s cl_ord_id of
                None \<Rightarrow> (False, s)
              | Some t \<Rightarrow>
                  (True, (say (Order_latency cl_ord_id (micros (clk (px_ticks s) - lt_start_time t))) s)
                     \<lparr>px_orders := (px_orders s)(cl_ord_id := None), px_ticks := px_ticks s + 1\<rparr>)))
      else (False, s))"

definition measure_round_trip :: "(nat \<Rightarrow> int) \<Rightarrow> string \<Rightarrow> inspector \<Rightarrow> inspector" where
  "measure_round_trip clk msg_type s =
     (say (Round_trip (px_last_type s) msg_type (micros (clk (px_ticks s) - px_last_time s))) s)
       \<lparr>px_ticks := px_ticks s + 1, px_last_type := []\<rparr>"

definition analyze_message :: "iteration \<Rightarrow> (nat \<Rightarrow> int) \<Rightarrow> bool \<Rightarrow> fix_message \<Rightarrow> inspector \<Rightarrow> inspector" where
  "analyze_message iter clk c2s m s =
     (case get_field m 35 of
        None \<Rightarrow> s
      | Some msg_type \<Rightarrow>
          if c2s then
            (let s1 = track_order clk msg_type m s;
                 s2 = s1\<lparr>px_last_time := clk (px_ticks s1), px_ticks := px_ticks s1 + 1,
                   px_last_type := msg_type\<rparr>
             in say_validity iter c2s msg_type m s2)
          else
            (let (measured_order, s1) = measure_order clk msg_type m s;
                 s2 = (if \<not> measured_order \<and> px_last_type s1 \<noteq> [] then measure_round_trip clk msg_type s1 else s1)
             in say_validity iter c2s msg_type m s2))"

section \<open>Messages out of the buffer\<close>

text \<open>A message ended by SOH, else one ended by \<open>|\<close>; the failed first attempt trims too.\<close>

definition next_text :: "string \<Rightarrow> string option \<times> string" where
  "next_text buffer =
     (case proxy_extract_next_message buffer SOH of
        (Some t, b) \<Rightarrow> (Some t, b)
      | (None, b) \<Rightarrow> proxy_extract_next_message b (CHR ''|''))"

definition inspect :: "iteration \<Rightarrow> (nat \<Rightarrow> int) \<Rightarrow> bool \<Rightarrow> string \<Rightarrow> inspector \<Rightarrow> inspector" where
  "inspect iter clk c2s t s =
     (case parse t (if CHR ''|'' \<in> set t then CHR ''|'' else SOH) of
        Inr m \<Rightarrow> analyze_message iter clk c2s m s
      | Inl e \<Rightarrow> say (Parse_failed e) s)"

lemma extract_None_le: "extract_next_message b sep = (None, r) \<Longrightarrow> length r \<le> length b"
  by (auto simp: extract_next_message_def Let_def split: option.splits if_splits)

lemma next_text_shrinks: "next_text b = (Some t, r) \<Longrightarrow> length r < length b"
  by (auto simp: next_text_def proxy_extract_same split: prod.splits option.splits
      dest!: extract_shrinks extract_None_le)

function drain :: "iteration \<Rightarrow> (nat \<Rightarrow> int) \<Rightarrow> bool \<Rightarrow> string \<Rightarrow> inspector \<Rightarrow> string \<times> inspector" where
  "drain iter clk c2s buffer s =
     (case next_text buffer of
        (None, b) \<Rightarrow> (b, s)
      | (Some t, b) \<Rightarrow> drain iter clk c2s b (inspect iter clk c2s t s))"
  by pat_completeness auto
termination
  by (relation "measure (\<lambda>(iter, clk, c2s, b, s). length b)") (auto dest: next_text_shrinks [OF sym])

declare drain.simps [simp del]

section \<open>What is inspected\<close>

text \<open>On a buffer without \<open>|\<close> only the extraction with SOH counts.\<close>

lemma extract_pipe_free:
  assumes "CHR ''|'' \<notin> set b" "extract_next_message b SOH = (None, r)"
  shows "extract_next_message r (CHR ''|'') = (None, r)"
proof (cases "r = []")
  case False
  from assms(2) obtain start where start: "index_of_sub ''8='' b = Some start" "r = drop start b"
    using False by (auto simp: extract_next_message_def Let_def split: option.splits if_splits)
  have "take (length ''8='') r = ''8=''" using index_of_sub_SomeD [OF start(1)] start(2) by blast
  then have pre: "prefix ''8='' r" by (metis take_is_prefix)
  have "CHR ''|'' \<notin> set r" using assms(1) start(2) by (meson in_set_dropD)
  then have "sv_find r (CHR ''|'') i = None" for i
    by (auto simp: sv_find_def index_of_None dest: in_set_dropD)
  then show ?thesis by (simp add: extract_prefixed [OF pre] split: option.split)
qed simp

lemma next_text_pipe_free:
  "CHR ''|'' \<notin> set b \<Longrightarrow> next_text b = extract_next_message b SOH"
  using extract_pipe_free [of b] by (auto simp: next_text_def proxy_extract_same split: prod.splits option.splits)

lemma extract_rest_subset: "extract_next_message b sep = (x, r) \<Longrightarrow> set r \<subseteq> set b"
  by (auto simp: extract_next_message_def Let_def split: option.splits if_splits dest: in_set_dropD)

text \<open>Both directions feed the same inspector; one direction by itself is this.\<close>

fun watch :: "iteration \<Rightarrow> (nat \<Rightarrow> int) \<Rightarrow> bool \<Rightarrow> string \<Rightarrow> string list \<Rightarrow> inspector \<Rightarrow> string \<times> inspector" where
  "watch iter clk c2s buf [] s = (buf, s)"
| "watch iter clk c2s buf (c # cs) s =
     (let (b, s1) = drain iter clk c2s (buf @ c) s in watch iter clk c2s b cs s1)"

lemma drain_pipe_free:
  "CHR ''|'' \<notin> set b \<Longrightarrow>
     drain iter clk c2s b s =
       (let (ts, r) = extract_all b SOH in (r, fold (inspect iter clk c2s) ts s))"
proof (induction iter clk c2s b s rule: drain.induct)
  case (1 iter clk c2s b s)
  show ?case
  proof (cases "extract_next_message b SOH")
    case (Pair x r)
    note nt = next_text_pipe_free [OF 1(2)]
    show ?thesis
    proof (cases x)
      case None
      with Pair nt show ?thesis
        by (subst drain.simps, subst extract_all.simps) simp
    next
      case (Some t)
      have "CHR ''|'' \<notin> set r" using extract_rest_subset [OF Pair] 1(2) by blast
      with 1(1) [of "Some t" r t] Pair Some nt show ?thesis
        by (subst drain.simps, subst extract_all.simps) (simp split: prod.split)
    qed
  qed
qed

lemma extract_all_rest: "extract_all b sep = (ts, r) \<Longrightarrow> set r \<subseteq> set b"
proof (induction b sep arbitrary: ts rule: extract_all.induct)
  case (1 b sep)
  show ?case
  proof (cases "extract_next_message b sep")
    case (Pair x b')
    with 1 extract_rest_subset [OF Pair] show ?thesis
      by (subst (asm) extract_all.simps [of b sep]) (cases x; fastforce split: prod.splits)
  qed
qed

lemma watch_pipe_free:
  "CHR ''|'' \<notin> set buf \<Longrightarrow> CHR ''|'' \<notin> set (concat cs) \<Longrightarrow>
     watch iter clk c2s buf cs s =
       (let (ts, r) = feed SOH buf cs in (r, fold (inspect iter clk c2s) ts s))"
proof (induction cs arbitrary: buf s)
  case (Cons c cs)
  obtain ts r where ex: "extract_all (buf @ c) SOH = (ts, r)" by fastforce
  have "CHR ''|'' \<notin> set r" using extract_all_rest [OF ex] Cons.prems by auto
  with Cons ex drain_pipe_free [of "buf @ c" iter clk c2s s] show ?case
    by (auto split: prod.splits)
qed simp

section \<open>Orders\<close>

text \<open>A message that opens or closes the order \<open>oid\<close>.\<close>

definition concerns :: "string \<Rightarrow> bool \<times> fix_message \<Rightarrow> bool" where
  "concerns oid = (\<lambda>(c2s, m). get_field m 35 = Some (if c2s then ''D'' else ''8'') \<and> get_field m 11 = Some oid)"

definition analyze_all :: "iteration \<Rightarrow> (nat \<Rightarrow> int) \<Rightarrow> (bool \<times> fix_message) list \<Rightarrow> inspector \<Rightarrow> inspector" where
  "analyze_all iter clk = fold (\<lambda>(c2s, m). analyze_message iter clk c2s m)"

lemma say_simps [simp]:
  "px_orders (say e s) = px_orders s" "px_out (say e s) = px_out s @ [e]" "px_dict (say e s) = px_dict s"
  "px_last_type (say e s) = px_last_type s" "px_ticks (say e s) = px_ticks s" "px_last_time (say e s) = px_last_time s"
  by (simp_all add: say_def)

text \<open>The last line of an analysis says what the dictionary thinks of the message.\<close>

definition validity :: "iteration \<Rightarrow> bool \<Rightarrow> string \<Rightarrow> fix_message \<Rightarrow> inspector \<Rightarrow> proxy_event" where
  "validity iter c2s mt m s =
     (case px_dict s of None \<Rightarrow> Passed c2s mt
      | Some d \<Rightarrow> (case validate_message iter d mt m of Some err \<Rightarrow> Invalid c2s mt err | None \<Rightarrow> Valid c2s mt))"

lemma say_validity_eq: "say_validity iter c2s mt m s = say (validity iter c2s mt m s) s"
  by (simp add: say_validity_def validity_def split: option.split)

lemma analyze_orders:
  "px_orders (analyze_message iter clk c2s m s) oid =
     (if concerns oid (c2s, m)
      then (if c2s then Some \<lparr>lt_start_time = clk (px_ticks s), lt_msg_type = ''D''\<rparr> else None)
      else px_orders s oid)"
  by (auto simp: analyze_message_def concerns_def say_validity_eq track_order_def measure_order_def
      measure_round_trip_def Let_def split: option.split)

lemma analyze_all_orders:
  "\<forall>x\<in>set ms. \<not> concerns oid x \<Longrightarrow> px_orders (analyze_all iter clk ms s) oid = px_orders s oid"
  by (induction ms arbitrary: s) (auto simp: analyze_all_def analyze_orders)

lemma analyze_report:
  assumes "concerns oid (False, m)" "px_orders s oid = Some t"
  shows "px_out (analyze_message iter clk False m s) =
    px_out s @ [Order_latency oid (micros (clk (px_ticks s) - lt_start_time t)), validity iter False ''8'' m s]"
  using assms
  by (simp add: analyze_message_def concerns_def measure_order_def say_validity_eq validity_def)

lemma analyze_dict [simp]: "px_dict (analyze_message iter clk c2s m s) = px_dict s"
  by (auto simp: analyze_message_def say_validity_eq track_order_def measure_order_def
      measure_round_trip_def Let_def split: option.split)

section \<open>Round trips\<close>

definition is_round_trip :: "proxy_event \<Rightarrow> bool" where
  "is_round_trip e = (case e of Round_trip _ _ _ \<Rightarrow> True | _ \<Rightarrow> False)"

definition round_trips :: "inspector \<Rightarrow> nat" where
  "round_trips s = length (filter is_round_trip (px_out s))"

lemma validity_no_round_trip [simp]: "\<not> is_round_trip (validity iter c2s mt m s)"
  by (simp add: is_round_trip_def validity_def split: option.split)

lemma analyze_round_trips:
  "round_trips (analyze_message iter clk c2s m s) + (if px_last_type (analyze_message iter clk c2s m s) = [] then 0 else 1)
     \<le> round_trips s + (if px_last_type s = [] then 0 else 1) + (if c2s then 1 else 0)"
  by (auto simp: analyze_message_def say_validity_eq track_order_def measure_order_def measure_round_trip_def
      round_trips_def is_round_trip_def [of "Order_latency _ _"] is_round_trip_def [of "Round_trip _ _ _"] Let_def
      split: option.split)

lemma analyze_all_round_trips:
  "round_trips (analyze_all iter clk ms s) \<le>
     round_trips s + (if px_last_type s = [] then 0 else 1) + length (filter fst ms)"
proof (induction ms arbitrary: s)
  case (Cons x ms)
  obtain c2s m where x: "x = (c2s, m)" by fastforce
  from Cons [of "analyze_message iter clk c2s m s"] analyze_round_trips [of iter clk c2s m s] show ?case
    by (simp add: analyze_all_def x split: if_splits)
qed (simp add: analyze_all_def)

section \<open>Properties\<close>

text \<open>
  C18: on a stream of frameable messages (each begins with \<open>8=\<close>, its first \<open>10=\<close> is its
  trailer, and SOH separates) without a \<open>|\<close>, whose chunks are not cut right behind the first
  byte of a message, a direction of the proxy inspects exactly the messages of the stream,
  in order, and keeps nothing back.
\<close>

theorem proxy_sees_every_message:
  assumes "concat cs = concat ms" "\<forall>m\<in>set ms. frameable SOH m" "\<forall>n\<in>set (cuts 0 cs). good_cut ms n"
    and "CHR ''|'' \<notin> set (concat ms)"
  shows "watch iter clk c2s [] cs s = ([], fold (inspect iter clk c2s) ms s)"
  using watch_pipe_free [of "[]" cs iter clk c2s s] feed_stream [OF assms(1-3)] assms(1,4) by simp

definition order_text :: string where
  "order_text = frame SOH ''FIX.4.2'' [\<lparr>ftag = 35, fvalue = ''D''\<rparr>, \<lparr>ftag = 11, fvalue = ''A1''\<rparr>]"

definition report_text :: string where
  "report_text = frame SOH ''FIX.4.2'' [\<lparr>ftag = 35, fvalue = ''8''\<rparr>, \<lparr>ftag = 11, fvalue = ''A1''\<rparr>]"

theorem proxy_sees_every_message_witness:
  "watch id (\<lambda>k. int k) True [] [take 9 order_text, drop 9 order_text @ report_text] (new_inspector None) =
     ([], inspect id (\<lambda>k. int k) True report_text (inspect id (\<lambda>k. int k) True order_text (new_inspector None)))"
proof -
  have "concat [take 9 order_text, drop 9 order_text @ report_text] = concat [order_text, report_text]"
    "\<forall>m\<in>set [order_text, report_text]. frameable SOH m"
    "\<forall>n\<in>set (cuts 0 [take 9 order_text, drop 9 order_text @ report_text]). good_cut [order_text, report_text] n"
    "CHR ''|'' \<notin> set (concat [order_text, report_text])"
    by code_simp+
  from proxy_sees_every_message [OF this, of id "\<lambda>k. int k" True "new_inspector None"] show ?thesis by simp
qed

text \<open>
  C35: a message taken off the stream with its SOH separators is rejected as soon as one of
  its values holds a \<open>|\<close>, be it valid or not: it is parsed with the other separator.  It
  is reported as unreadable and neither measured nor validated.
\<close>

theorem pipe_in_value_rejected:
  assumes "frameable SOH t" "CHR ''|'' \<in> set t"
  shows "\<exists>e. inspect iter clk c2s t s = say (Parse_failed e) s"
proof -
  have t: "t \<noteq> []" "last t = SOH"
  proof -
    from assms(1) obtain i where "sv_find t SOH i = Some (length t - 1)"
      by (auto simp: frameable_def split: option.splits)
    from sv_find_nth [OF this] frameable_neq_Nil [OF assms(1)] show "t \<noteq> []" "last t = SOH"
      by (cases t; auto simp: last_conv_nth)+
  qed
  have "\<not> (\<exists>m. parse t (CHR ''|'') = Inr m)"
  proof
    assume "\<exists>m. parse t (CHR ''|'') = Inr m"
    then obtain ps tail where raw: "t = wire (CHR ''|'') ps @ tail" and tl: "trailer (CHR ''|'') tail"
      by (auto simp: parse_accepts_iff)
    show False
    proof (cases "tail = []")
      case True
      with raw t last_wire [of ps "CHR ''|''"] show False by (auto simp: SOH_def)
    next
      case False
      with raw t tl have "trailing_char (CHR ''|'') SOH"
        by (metis last_appendR last_in_set list_all_iff trailer_def)
      then show False by (simp add: trailing_char_def SOH_def)
    qed
  qed
  then show ?thesis using assms(2) by (cases "parse t (CHR ''|'')") (auto simp: inspect_def)
qed

definition piped_text :: string where
  "piped_text = frame SOH ''FIX.4.2'' [\<lparr>ftag = 35, fvalue = ''D''\<rparr>, \<lparr>ftag = 58, fvalue = ''a|b''\<rparr>]"

theorem pipe_in_value_rejected_witness:
  "(\<exists>m. parse piped_text SOH = Inr m) \<and>
   (\<exists>e. inspect id (\<lambda>k. int k) True piped_text (new_inspector None) = say (Parse_failed e) (new_inspector None))"
proof -
  have "frameable SOH piped_text" "CHR ''|'' \<in> set piped_text" by code_simp+
  from pipe_in_value_rejected [OF this]
  have "\<exists>e. inspect id (\<lambda>k. int k) True piped_text (new_inspector None) = say (Parse_failed e) (new_inspector None)" .
  moreover have "case parse piped_text SOH of Inl _ \<Rightarrow> False | Inr _ \<Rightarrow> True" by code_simp
  ultimately show ?thesis by (auto split: sum.splits)
qed

text \<open>
  C15: the latency of an order.  However many messages of both directions come between an
  order of the client and the first execution report of the server with the same ClOrdID,
  the report is answered by one line with the time between the two clock readings, in
  microseconds, and the order is closed.
\<close>

theorem order_latency_measured:
  assumes "concerns oid (True, order)" "concerns oid (False, report)" "\<forall>x\<in>set mids. \<not> concerns oid x"
  shows "(let s1 = analyze_all iter clk ((True, order) # mids) s;
         s2 = analyze_message iter clk False report s1
     in px_out s2 = px_out s1 @
          [Order_latency oid (micros (clk (px_ticks s1) - clk (px_ticks s))), validity iter False ''8'' report s1] \<and>
        px_orders s1 oid \<noteq> None \<and> px_orders s2 oid = None)"
proof -
  let ?s1 = "analyze_all iter clk ((True, order) # mids) s"
  have "px_orders ?s1 oid = Some \<lparr>lt_start_time = clk (px_ticks s), lt_msg_type = ''D''\<rparr>"
    using analyze_all_orders [OF assms(3), of iter clk "analyze_message iter clk True order s"] assms(1)
    by (simp add: analyze_all_def analyze_orders)
  with analyze_report [OF assms(2)] assms(2) show ?thesis
    by (simp add: analyze_orders Let_def)
qed

definition order_msg :: fix_message where
  "order_msg = \<lparr>m_raw = [], m_fields = [\<lparr>ftag = 35, fvalue = ''D''\<rparr>, \<lparr>ftag = 11, fvalue = ''A1''\<rparr>]\<rparr>"

definition report_msg :: fix_message where
  "report_msg = \<lparr>m_raw = [], m_fields = [\<lparr>ftag = 35, fvalue = ''8''\<rparr>, \<lparr>ftag = 11, fvalue = ''A1''\<rparr>]\<rparr>"

theorem order_latency_measured_witness:
  "px_out (analyze_all id (\<lambda>k. int k * 5000) [(True, order_msg), (False, report_msg)] (new_inspector None)) =
     [Passed True ''D'', Order_latency ''A1'' 10, Passed False ''8'']"
proof -
  have c: "concerns ''A1'' (True, order_msg)" "concerns ''A1'' (False, report_msg)" by code_simp+
  have none: "\<forall>x\<in>set []. \<not> concerns ''A1'' x" by simp
  let ?s1 = "analyze_all id (\<lambda>k. int k * 5000) [(True, order_msg)] (new_inspector None)"
  have s1: "px_out ?s1 = [Passed True ''D'']" "px_ticks ?s1 = 2" "px_dict ?s1 = None" "micros 10000 = 10"
    by code_simp+
  have "px_out (analyze_message id (\<lambda>k. int k * 5000) False report_msg ?s1) =
      [Passed True ''D'', Order_latency ''A1'' 10, Passed False ''8'']"
    using order_latency_measured [OF c none, of id "\<lambda>k. int k * 5000" "new_inspector None"]
    by (simp add: Let_def s1 validity_def new_inspector_def [THEN arg_cong [where f = px_ticks]])
  then show ?thesis by (simp add: analyze_all_def)
qed

text \<open>
  A client message is paired with one answer at most: over any interleaving of the two
  directions there are never more round-trip lines than messages of the client.
\<close>

theorem round_trips_bounded:
  "length (filter is_round_trip (px_out (analyze_all iter clk ms (new_inspector d)))) \<le> length (filter fst ms)"
  using analyze_all_round_trips [of iter clk ms "new_inspector d"]
  by (simp add: round_trips_def new_inspector_def)

end
