(* ===== verification/Connections.thy ===== *)
theory Connections
  imports Machine
begin

text \<open>
  The connections of \<open>src/runner.cpp\<close> and \<open>include/fixure/runner.hpp\<close>: the virtual
  interface as a record of functions over a state, \<open>InMemoryConnection\<close> with its two
  queues, and \<open>TcpConnection\<close> over the socket calls, which are arguments.  The methods of
  the in-memory connection run under its mutex, so each is one atomic step, except that
  the receiving methods release the mutex while they wait.
\<close>

section \<open>The interface\<close>

record 'c connection_ops =
  op_connect :: "'c \<Rightarrow> bool \<times> 'c"
  op_disconnect :: "'c \<Rightarrow> 'c"
  op_send :: "string \<Rightarrow> 'c \<Rightarrow> bool \<times> 'c"
  op_receive :: "nat \<Rightarrow> 'c \<Rightarrow> string option \<times> 'c"

section \<open>The in-memory connection\<close>

record mem_conn =
  mc_to_server :: "string list"
  mc_to_client :: "string list"
  mc_connected :: bool

definition new_mem_conn :: mem_conn where
  "new_mem_conn = \<lparr>mc_to_server = [], mc_to_client = [], mc_connected = False\<rparr>"

definition mem_connect :: "mem_conn \<Rightarrow> bool \<times> mem_conn" where
  "mem_connect c = (True, c\<lparr>mc_connected := True\<rparr>)"

definition mem_disconnect :: "mem_conn \<Rightarrow> mem_conn" where
  "mem_disconnect c = c\<lparr>mc_connected := False\<rparr>"

definition mem_send :: "string \<Rightarrow> mem_conn \<Rightarrow> bool \<times> mem_conn" where
  "mem_send data c =
     (if \<not> mc_connected c then (False, c)
      else (True, c\<lparr>mc_to_server := mc_to_server c @ [data]\<rparr>))"

definition mem_server_send :: "string \<Rightarrow> mem_conn \<Rightarrow> bool \<times> mem_conn" where
  "mem_server_send data c =
     (if \<not> mc_connected c then (False, c)
      else (True, c\<lparr>mc_to_client := mc_to_client c @ [data]\<rparr>))"

text \<open>
  The end of both receiving methods, with the mutex held (again): nothing when the
  connection is closed or the queue is empty, else the first message.
\<close>

definition mem_take_client :: "mem_conn \<Rightarrow> string option \<times> mem_conn" where
  "mem_take_client c =
     (if \<not> mc_connected c \<or> mc_to_client c = [] then (None, c)
      else (Some (hd (mc_to_client c)), c\<lparr>mc_to_client := tl (mc_to_client c)\<rparr>))"

definition mem_take_server :: "mem_conn \<Rightarrow> string option \<times> mem_conn" where
  "mem_take_server c =
     (if \<not> mc_connected c \<or> mc_to_server c = [] then (None, c)
      else (Some (hd (mc_to_server c)), c\<lparr>mc_to_server := tl (mc_to_server c)\<rparr>))"

text \<open>
  \<open>others\<close> is what the other threads do while the caller waits on the condition variable:
  until a message is there, the connection is closed, or the time is up.
\<close>

definition mem_receive :: "(nat \<Rightarrow> mem_conn \<Rightarrow> mem_conn) \<Rightarrow> nat \<Rightarrow> mem_conn \<Rightarrow> string option \<times> mem_conn" where
  "mem_receive others timeout c =
     (if \<not> mc_connected c then (None, c)
      else mem_take_client (if mc_to_client c = [] then others timeout c else c))"

definition mem_server_receive ::
  "(nat \<Rightarrow> mem_conn \<Rightarrow> mem_conn) \<Rightarrow> nat \<Rightarrow> mem_conn \<Rightarrow> string option \<times> mem_conn" where
  "mem_server_receive others timeout c =
     (if \<not> mc_connected c then (None, c)
      else mem_take_server (if mc_to_server c = [] then others timeout c else c))"

definition mem_ops :: "(nat \<Rightarrow> mem_conn \<Rightarrow> mem_conn) \<Rightarrow> mem_conn connection_ops" where
  "mem_ops others = \<lparr>op_connect = mem_connect, op_disconnect = mem_disconnect,
     op_send = mem_send, op_receive = mem_receive others\<rparr>"

section \<open>All interleavings of a client and a server thread\<close>

datatype mem_event =
    Connected | Disconnected
  | Client_send bool string | Server_send bool string
  | Client_waits | Server_waits
  | Client_received "string option" | Server_received "string option"

record mem_sys =
  ms_conn :: mem_conn
  ms_client_waiting :: bool
  ms_server_waiting :: bool

definition new_mem_sys :: mem_sys where
  "new_mem_sys = \<lparr>ms_conn = new_mem_conn, ms_client_waiting = False, ms_server_waiting = False\<rparr>"

text \<open>
  One step, made by the methods above: a whole call that does not wait, the first half of a
  receiving call (it starts to wait and gives up the mutex) or its second half (it has the
  mutex again, woken up or late).  A whole receiving call does not wait when the connection
  is closed or a message is there, so that \<open>others\<close> is not consulted.
\<close>

inductive mem_step :: "mem_sys \<Rightarrow> mem_event \<Rightarrow> mem_sys \<Rightarrow> bool" where
  connect: "mem_connect (ms_conn s) = (ok, c) \<Longrightarrow> mem_step s Connected (s\<lparr>ms_conn := c\<rparr>)"
| disconnect: "mem_step s Disconnected (s\<lparr>ms_conn := mem_disconnect (ms_conn s)\<rparr>)"
| client_send: "mem_send d (ms_conn s) = (ok, c) \<Longrightarrow> mem_step s (Client_send ok d) (s\<lparr>ms_conn := c\<rparr>)"
| server_send: "mem_server_send d (ms_conn s) = (ok, c) \<Longrightarrow> mem_step s (Server_send ok d) (s\<lparr>ms_conn := c\<rparr>)"
| client_receive: "\<not> ms_client_waiting s \<Longrightarrow> \<not> mc_connected (ms_conn s) \<or> mc_to_client (ms_conn s) \<noteq> [] \<Longrightarrow>
    mem_receive others timeout (ms_conn s) = (r, c) \<Longrightarrow>
    mem_step s (Client_received r) (s\<lparr>ms_conn := c\<rparr>)"
| client_wait: "\<not> ms_client_waiting s \<Longrightarrow> mc_connected (ms_conn s) \<Longrightarrow> mc_to_client (ms_conn s) = [] \<Longrightarrow>
    mem_step s Client_waits (s\<lparr>ms_client_waiting := True\<rparr>)"
| client_wake: "ms_client_waiting s \<Longrightarrow> mem_take_client (ms_conn s) = (r, c) \<Longrightarrow>
    mem_step s (Client_received r) (s\<lparr>ms_conn := c, ms_client_waiting := False\<rparr>)"
| server_receive: "\<not> ms_server_waiting s \<Longrightarrow> \<not> mc_connected (ms_conn s) \<or> mc_to_server (ms_conn s) \<noteq> [] \<Longrightarrow>
    mem_server_receive others timeout (ms_conn s) = (r, c) \<Longrightarrow>
    mem_step s (Server_received r) (s\<lparr>ms_conn := c\<rparr>)"
| server_wait: "\<not> ms_server_waiting s \<Longrightarrow> mc_connected (ms_conn s) \<Longrightarrow> mc_to_server (ms_conn s) = [] \<Longrightarrow>
    mem_step s Server_waits (s\<lparr>ms_server_waiting := True\<rparr>)"
| server_wake: "ms_server_waiting s \<Longrightarrow> mem_take_server (ms_conn s) = (r, c) \<Longrightarrow>
    mem_step s (Server_received r) (s\<lparr>ms_conn := c, ms_server_waiting := False\<rparr>)"

inductive mem_run :: "mem_sys \<Rightarrow> mem_event list \<Rightarrow> mem_sys \<Rightarrow> bool" where
  nothing: "mem_run s [] s"
| more: "mem_run s es s1 \<Longrightarrow> mem_step s1 e s2 \<Longrightarrow> mem_run s (es @ [e]) s2"

inductive_cases mem_run_NilE: "mem_run s [] s'"
inductive_cases mem_step_sendE: "mem_step s (Client_send b d) s'"
inductive_simps mem_step_received: "mem_step s (Client_received r) s'"

text \<open>What was accepted and what was handed out, in order.\<close>

fun client_accepted :: "mem_event list \<Rightarrow> string list" where
  "client_accepted [] = []"
| "client_accepted (e # es) =
     (case e of Client_send True d \<Rightarrow> d # client_accepted es | _ \<Rightarrow> client_accepted es)"

fun server_accepted :: "mem_event list \<Rightarrow> string list" where
  "server_accepted [] = []"
| "server_accepted (e # es) =
     (case e of Server_send True d \<Rightarrow> d # server_accepted es | _ \<Rightarrow> server_accepted es)"

fun client_got :: "mem_event list \<Rightarrow> string list" where
  "client_got [] = []"
| "client_got (e # es) =
     (case e of Client_received (Some m) \<Rightarrow> m # client_got es | _ \<Rightarrow> client_got es)"

fun server_got :: "mem_event list \<Rightarrow> string list" where
  "server_got [] = []"
| "server_got (e # es) =
     (case e of Server_received (Some m) \<Rightarrow> m # server_got es | _ \<Rightarrow> server_got es)"

lemma event_append [simp]:
  "client_accepted (es @ fs) = client_accepted es @ client_accepted fs"
  "server_accepted (es @ fs) = server_accepted es @ server_accepted fs"
  "client_got (es @ fs) = client_got es @ client_got fs"
  "server_got (es @ fs) = server_got es @ server_got fs"
  by (induction es) (auto split: mem_event.split bool.split option.split)

text \<open>What each method does to the queues.\<close>

lemmas mem_defs = mem_connect_def mem_disconnect_def mem_send_def mem_server_send_def
  mem_receive_def mem_server_receive_def mem_take_client_def mem_take_server_def

lemma mem_step_fifo:
  assumes "mem_step s e s'"
  shows "mc_to_client (ms_conn s) @ server_accepted [e] = client_got [e] @ mc_to_client (ms_conn s') \<and>
    mc_to_server (ms_conn s) @ client_accepted [e] = server_got [e] @ mc_to_server (ms_conn s')"
  using assms by cases (auto simp: mem_defs split: if_splits)

lemma mem_run_fifo:
  assumes "mem_run s es s'"
  shows "mc_to_client (ms_conn s) @ server_accepted es = client_got es @ mc_to_client (ms_conn s') \<and>
    mc_to_server (ms_conn s) @ client_accepted es = server_got es @ mc_to_server (ms_conn s')"
  using assms
proof (induction rule: mem_run.induct)
  case (more s es s1 e s2)
  from mem_step_fifo [OF more.hyps(2)] more.IH show ?case
    by (metis append.assoc event_append)
qed simp

text \<open>
  A receiving call with what the other threads do meanwhile is such a run: it waits, the
  others make their steps, and it wakes up.
\<close>

lemma mem_run_append: "mem_run s1 es2 s2 \<Longrightarrow> mem_run s es1 s1 \<Longrightarrow> mem_run s (es1 @ es2) s2"
proof (induction rule: mem_run.induct)
  case (more s1 es2 s2 e s3)
  from mem_run.more [OF more.IH [OF more.prems] more.hyps(2)] show ?case by simp
qed simp

lemma mem_run_one: "mem_step s e s' \<Longrightarrow> mem_run s [e] s'"
  using mem_run.more [OF mem_run.nothing, of s e s'] by simp

lemma mem_receive_run:
  assumes "\<not> ms_client_waiting s" "mem_receive others timeout (ms_conn s) = (r, c)"
    and others: "mc_connected (ms_conn s) \<Longrightarrow> mc_to_client (ms_conn s) = [] \<Longrightarrow>
      \<exists>s'. mem_run (s\<lparr>ms_client_waiting := True\<rparr>) es s' \<and> ms_client_waiting s' \<and>
        ms_conn s' = others timeout (ms_conn s)"
  shows "\<exists>es' s'. mem_run s (es' @ [Client_received r]) s' \<and> ms_conn s' = c"
proof (cases "mc_connected (ms_conn s) \<and> mc_to_client (ms_conn s) = []")
  case False
  with mem_step.client_receive [OF assms(1) _ assms(2)] have "mem_step s (Client_received r) (s\<lparr>ms_conn := c\<rparr>)"
    by blast
  from mem_run_one [OF this] show ?thesis by (intro exI [of _ "[]"] exI [of _ "s\<lparr>ms_conn := c\<rparr>"]) simp
next
  case True
  with others obtain s' where s': "mem_run (s\<lparr>ms_client_waiting := True\<rparr>) es s'" "ms_client_waiting s'"
      "ms_conn s' = others timeout (ms_conn s)"
    by blast
  have "mem_take_client (ms_conn s') = (r, c)" using assms(2) True s'(3) by (simp add: mem_receive_def)
  from mem_run.more [OF mem_run_append [OF s'(1) mem_run_one [OF mem_step.client_wait]]
      mem_step.client_wake [OF s'(2) this]] True assms(1)
  show ?thesis by (intro exI [of _ "[Client_waits] @ es"] exI) auto
qed

section \<open>The TCP connection\<close>

text \<open>
  The calls of the socket library, over the state \<open>'w\<close> of the outside world: name
  resolution yields an address or fails, \<open>send\<close> and \<open>recv\<close> yield their return value, and
  \<open>recv\<close> the bytes it put into the buffer of the given size.
\<close>

record 'w socket_api =
  sk_resolve :: "string \<Rightarrow> string \<Rightarrow> 'w \<Rightarrow> string option \<times> 'w"
  sk_socket :: "'w \<Rightarrow> int \<times> 'w"
  sk_connect :: "int \<Rightarrow> string \<Rightarrow> 'w \<Rightarrow> int \<times> 'w"
  sk_close :: "int \<Rightarrow> 'w \<Rightarrow> 'w"
  sk_send :: "int \<Rightarrow> string \<Rightarrow> 'w \<Rightarrow> int \<times> 'w"
  sk_set_timeout :: "int \<Rightarrow> nat \<Rightarrow> nat \<Rightarrow> 'w \<Rightarrow> 'w"
  sk_recv :: "int \<Rightarrow> nat \<Rightarrow> 'w \<Rightarrow> int \<times> string \<times> 'w"

record 'w tcp_conn =
  tc_host :: string
  tc_port :: int
  tc_socket :: int
  tc_world :: 'w

definition new_tcp_conn :: "string \<Rightarrow> int \<Rightarrow> 'w \<Rightarrow> 'w tcp_conn" where
  "new_tcp_conn host port w = \<lparr>tc_host = host, tc_port = port, tc_socket = -1, tc_world = w\<rparr>"

definition tcp_disconnect :: "'w socket_api \<Rightarrow> 'w tcp_conn \<Rightarrow> 'w tcp_conn" where
  "tcp_disconnect api c =
     (if tc_socket c \<ge> 0
      then c\<lparr>tc_socket := -1, tc_world := sk_close api (tc_socket c) (tc_world c)\<rparr>
      else c)"

definition tcp_connect :: "'w socket_api \<Rightarrow> 'w tcp_conn \<Rightarrow> bool \<times> 'w tcp_conn" where
  "tcp_connect api c0 =
     (let c = tcp_disconnect api c0;
          (res, w1) = sk_resolve api (tc_host c) (show_int (tc_port c)) (tc_world c)
      in case res of
           None \<Rightarrow> (False, c\<lparr>tc_world := w1\<rparr>)
         | Some addr \<Rightarrow>
             (let (fd, w2) = sk_socket api w1;
                  c2 = c\<lparr>tc_socket := fd, tc_world := w2\<rparr>
              in if fd < 0 then (False, c2)
                 else
                   (let (r, w3) = sk_connect api fd addr w2;
                        c3 = c2\<lparr>tc_world := w3\<rparr>
                    in if r < 0 then (False, tcp_disconnect api c3) else (True, c3))))"

function tcp_send_loop :: "'w socket_api \<Rightarrow> int \<Rightarrow> string \<Rightarrow> nat \<Rightarrow> 'w \<Rightarrow> bool \<times> 'w" where
  "tcp_send_loop api fd data total_sent w =
     (if total_sent < length data then
        (let (sent, w') = sk_send api fd (drop total_sent data) w in
         if sent \<le> 0 then (False, w') else tcp_send_loop api fd data (total_sent + nat sent) w')
      else (True, w))"
  by pat_completeness auto
termination
  by (relation "measure (\<lambda>(api, fd, data, total_sent, w). length data - total_sent)") auto

declare tcp_send_loop.simps [simp del]

definition tcp_send :: "'w socket_api \<Rightarrow> string \<Rightarrow> 'w tcp_conn \<Rightarrow> bool \<times> 'w tcp_conn" where
  "tcp_send api data c =
     (if tc_socket c < 0 then (False, c)
      else (let (ok, w) = tcp_send_loop api (tc_socket c) data 0 (tc_world c)
            in (ok, c\<lparr>tc_world := w\<rparr>)))"

definition tcp_receive :: "'w socket_api \<Rightarrow> nat \<Rightarrow> 'w tcp_conn \<Rightarrow> string option \<times> 'w tcp_conn" where
  "tcp_receive api timeout c =
     (if tc_socket c < 0 then (None, c)
      else
        (let w1 = sk_set_timeout api (tc_socket c) (timeout div 1000) (timeout mod 1000 * 1000) (tc_world c);
             (bytes_received, buf, w2) = sk_recv api (tc_socket c) 2048 w1
         in if bytes_received \<le> 0 then (None, c\<lparr>tc_world := w2\<rparr>)
            else (Some (take (nat bytes_received) buf), c\<lparr>tc_world := w2\<rparr>)))"

definition tcp_ops :: "'w socket_api \<Rightarrow> 'w tcp_conn connection_ops" where
  "tcp_ops api = \<lparr>op_connect = tcp_connect api, op_disconnect = tcp_disconnect api,
     op_send = tcp_send api, op_receive = tcp_receive api\<rparr>"

section \<open>The contract of sending\<close>

text \<open>Sending a list of texts until one fails: how many went out, and whether all did.\<close>

fun send_all :: "(string \<Rightarrow> 'c \<Rightarrow> bool \<times> 'c) \<Rightarrow> string list \<Rightarrow> 'c \<Rightarrow> nat \<times> bool \<times> 'c" where
  "send_all send [] c = (0, True, c)"
| "send_all send (d # ds) c =
     (let (ok, c1) = send d c in
      if ok then (let (n, all, c2) = send_all send ds c1 in (Suc n, all, c2))
      else (0, False, c1))"

text \<open>
  What a client of a connection relies on: the bytes written so far grow by the whole text
  when sending succeeds, and by a part of it at most when it fails.
\<close>

locale connection =
  fixes send :: "string \<Rightarrow> 'c \<Rightarrow> bool \<times> 'c"
    and written :: "'c \<Rightarrow> string"
  assumes send_succeeds: "send d c = (True, c') \<Longrightarrow> written c' = written c @ d"
    and send_fails: "send d c = (False, c') \<Longrightarrow> \<exists>k. written c' = written c @ take k d"
begin

lemma send_all_written:
  "send_all send ds c = (n, ok, c') \<Longrightarrow>
     (if ok then n = length ds \<and> written c' = written c @ concat ds
      else n < length ds \<and> (\<exists>k. written c' = written c @ concat (take n ds) @ take k (ds ! n)))"
proof (induction ds arbitrary: c n)
  case (Cons d ds)
  obtain b c1 where send: "send d c = (b, c1)" by fastforce
  show ?case
  proof (cases b)
    case False
    with Cons.prems send send_fails [of d c c1] show ?thesis by auto
  next
    case True
    obtain m where rec: "send_all send ds c1 = (m, ok, c')" "n = Suc m"
      using Cons.prems send True by (auto split: prod.splits)
    from Cons.IH [OF rec(1)] send_succeeds [of d c c1] send True rec(2) show ?thesis
      by (cases ok) auto
  qed
qed simp

end

interpretation mem: connection mem_send "\<lambda>c. concat (mc_to_server c)"
  by unfold_locales (auto simp: mem_send_def intro: exI [of _ 0] split: if_splits)

text \<open>
  The TCP connection keeps the contract when the socket does what \<open>send\<close> is documented to
  do: a positive return value is the number of bytes accepted, the first ones.
\<close>

definition send_accepts :: "'w socket_api \<Rightarrow> ('w \<Rightarrow> string) \<Rightarrow> bool" where
  "send_accepts api accepted \<longleftrightarrow>
     (\<forall>fd d w n w'. sk_send api fd d w = (n, w') \<longrightarrow>
        n \<le> int (length d) \<and> accepted w' = accepted w @ take (nat n) d)"

lemma tcp_send_loop_accepts:
  "send_accepts api accepted \<Longrightarrow> tcp_send_loop api fd data n w = (ok, w') \<Longrightarrow> n \<le> length data \<Longrightarrow>
     (if ok then accepted w' = accepted w @ drop n data
      else \<exists>k. accepted w' = accepted w @ take k (drop n data))"
proof (induction api fd data n w rule: tcp_send_loop.induct)
  case (1 api fd data n w)
  show ?case
  proof (cases "n < length data")
    case False
    with 1 show ?thesis by (simp add: tcp_send_loop.simps)
  next
    case True
    obtain m w1 where send: "sk_send api fd (drop n data) w = (m, w1)" by fastforce
    have acc: "m \<le> int (length (drop n data))" "accepted w1 = accepted w @ take (nat m) (drop n data)"
      using 1(2) [unfolded send_accepts_def] send by blast+
    show ?thesis
    proof (cases "m \<le> 0")
      case stop: True
      with 1(3) True send have "\<not> ok" "w' = w1"
        by (simp_all add: tcp_send_loop.simps)
      with acc(2) show ?thesis by auto
    next
      case False
      with 1(3) True send have rec: "tcp_send_loop api fd data (n + nat m) w1 = (ok, w')"
        by (subst (asm) tcp_send_loop.simps) simp
      have "n + nat m \<le> length data" using acc(1) True by simp
      with 1(1) [OF True send [symmetric] refl False 1(2) rec]
      have IH: "if ok then accepted w' = accepted w1 @ drop (n + nat m) data
          else \<exists>k. accepted w' = accepted w1 @ take k (drop (n + nat m) data)" .
      have dd: "drop (n + nat m) data = drop (nat m) (drop n data)" by (simp add: add.commute)
      have split: "take (nat m) (drop n data) @ drop (n + nat m) data = drop n data"
        "take (nat m) (drop n data) @ take k (drop (n + nat m) data) = take (nat m + k) (drop n data)" for k
        unfolding dd by (simp_all only: append_take_drop_id take_add)
      show ?thesis
      proof (cases ok)
        case True
        with IH acc(2) split(1) show ?thesis by simp
      next
        case False
        with IH obtain k where "accepted w' = accepted w1 @ take k (drop (n + nat m) data)" by auto
        with False acc(2) split(2) [of k] show ?thesis by auto
      qed
    qed
  qed
qed

lemma tcp_connection:
  assumes "send_accepts api accepted"
  shows "connection (tcp_send api) (\<lambda>c. accepted (tc_world c))"
proof
  fix d and c c' :: "'a tcp_conn"
  assume "tcp_send api d c = (True, c')"
  then show "accepted (tc_world c') = accepted (tc_world c) @ d"
    using tcp_send_loop_accepts [OF assms, of "tc_socket c" d 0 "tc_world c"]
    by (auto simp: tcp_send_def split: if_splits prod.splits)
next
  fix d and c c' :: "'a tcp_conn"
  assume send: "tcp_send api d c = (False, c')"
  show "\<exists>k. accepted (tc_world c') = accepted (tc_world c) @ take k d"
  proof (cases "tc_socket c < 0")
    case True
    with send show ?thesis by (auto simp: tcp_send_def intro: exI [of _ 0])
  next
    case False
    with send show ?thesis
      using tcp_send_loop_accepts [OF assms, of "tc_socket c" d 0 "tc_world c"]
      by (auto simp: tcp_send_def split: prod.splits)
  qed
qed

section \<open>A line that works\<close>

text \<open>
  What a sender may count on as long as nothing goes wrong: connecting succeeds, and while
  the line is up every text is accepted as a whole.
\<close>

locale working_line =
  fixes ops :: "'c connection_ops"
    and up :: "'c \<Rightarrow> bool"
    and written :: "'c \<Rightarrow> string"
  assumes connects: "\<exists>c'. op_connect ops c = (True, c') \<and> up c' \<and> written c' = written c"
    and sends: "up c \<Longrightarrow> \<exists>c'. op_send ops d c = (True, c') \<and> up c' \<and> written c' = written c @ d"
begin

lemma send_all_sent:
  "up c \<Longrightarrow> \<exists>c'. send_all (op_send ops) ds c = (length ds, True, c') \<and> up c' \<and> written c' = written c @ concat ds"
proof (induction ds arbitrary: c)
  case (Cons d ds)
  from sends [OF Cons.prems, of d] obtain c1 where c1: "op_send ops d c = (True, c1)" "up c1" "written c1 = written c @ d"
    by blast
  from Cons.IH [OF c1(2)] c1 show ?case by auto
qed simp

end

interpretation mem_line: working_line "mem_ops others" mc_connected "\<lambda>c. concat (mc_to_server c)" for others
  by unfold_locales (auto simp: mem_ops_def mem_connect_def mem_send_def)

text \<open>
  The TCP connection is such a line when name resolution, \<open>socket\<close> and \<open>connect\<close> succeed
  and \<open>send\<close> always accepts at least a byte.
\<close>

definition sockets_work :: "'w socket_api \<Rightarrow> ('w \<Rightarrow> string) \<Rightarrow> bool" where
  "sockets_work api accepted \<longleftrightarrow> send_accepts api accepted \<and>
     (\<forall>fd d w. d \<noteq> [] \<longrightarrow> 0 < fst (sk_send api fd d w)) \<and>
     (\<forall>fd w. accepted (sk_close api fd w) = accepted w) \<and>
     (\<forall>h p w. fst (sk_resolve api h p w) \<noteq> None \<and> accepted (snd (sk_resolve api h p w)) = accepted w) \<and>
     (\<forall>w. 0 \<le> fst (sk_socket api w) \<and> accepted (snd (sk_socket api w)) = accepted w) \<and>
     (\<forall>fd a w. 0 \<le> fst (sk_connect api fd a w) \<and> accepted (snd (sk_connect api fd a w)) = accepted w)"

lemma tcp_send_loop_succeeds:
  "\<forall>fd d w. d \<noteq> [] \<longrightarrow> 0 < fst (sk_send api fd d w) \<Longrightarrow> fst (tcp_send_loop api fd data n w)"
proof (induction api fd data n w rule: tcp_send_loop.induct)
  case (1 api fd data n w)
  obtain m w1 where send: "sk_send api fd (drop n data) w = (m, w1)" by fastforce
  show ?case
  proof (cases "n < length data")
    case True
    then have "0 < m" using "1.prems" [rule_format, of "drop n data" fd w] send by simp
    with "1.IH" [OF True send [symmetric] refl _ "1.prems"] True send show ?thesis
      by (subst tcp_send_loop.simps) simp
  qed (simp add: tcp_send_loop.simps)
qed

lemma tcp_working_line:
  assumes "sockets_work api accepted"
  shows "working_line (tcp_ops api) (\<lambda>c. 0 \<le> tc_socket c) (\<lambda>c. accepted (tc_world c))"
proof
  note works = assms [unfolded sockets_work_def]
  fix c :: "'a tcp_conn"
  obtain a w1 where resolve: "sk_resolve api (tc_host c) (show_int (tc_port c)) (tc_world (tcp_disconnect api c)) = (Some a, w1)"
    using works by (metis eq_fst_iff not_None_eq)
  obtain fd w2 where socket: "sk_socket api w1 = (fd, w2)" by fastforce
  obtain r w3 where connect: "sk_connect api fd a w2 = (r, w3)" by fastforce
  have disc: "tc_host (tcp_disconnect api c) = tc_host c" "tc_port (tcp_disconnect api c) = tc_port c"
    "accepted (tc_world (tcp_disconnect api c)) = accepted (tc_world c)"
    using works by (simp_all add: tcp_disconnect_def)
  have ok: "0 \<le> fd" "0 \<le> r" "accepted w3 = accepted (tc_world c)"
    using works resolve socket connect disc(3) by (metis fst_conv snd_conv)+
  show "\<exists>c'. op_connect (tcp_ops api) c = (True, c') \<and> 0 \<le> tc_socket c' \<and> accepted (tc_world c') = accepted (tc_world c)"
    using ok by (simp add: tcp_ops_def tcp_connect_def disc resolve socket connect Let_def)
next
  fix c :: "'a tcp_conn" and d
  assume up: "0 \<le> tc_socket c"
  have acc: "send_accepts api accepted" using assms by (simp add: sockets_work_def)
  obtain ok w where loop: "tcp_send_loop api (tc_socket c) d 0 (tc_world c) = (ok, w)" by fastforce
  with tcp_send_loop_succeeds [of api "tc_socket c" d 0 "tc_world c"] assms have "ok"
    by (simp add: sockets_work_def)
  with tcp_send_loop_accepts [OF acc loop] loop up
  show "\<exists>c'. op_send (tcp_ops api) d c = (True, c') \<and> 0 \<le> tc_socket c' \<and>
      accepted (tc_world c') = accepted (tc_world c) @ d"
    by (simp add: tcp_ops_def tcp_send_def)
qed

section \<open>Properties\<close>

text \<open>
  C29: under every interleaving of the client's and the server's calls of \<open>send\<close>,
  \<open>receive\<close>, \<open>server_send\<close> and \<open>server_receive\<close>, of connects and of disconnects, each side
  receives exactly what the other side's successful sends put in, in order, nothing twice
  and nothing lost: what is not yet received is still queued.
\<close>

theorem in_memory_fifo:
  assumes "mem_run new_mem_sys es s"
  shows "server_accepted es = client_got es @ mc_to_client (ms_conn s) \<and>
    client_accepted es = server_got es @ mc_to_server (ms_conn s)"
  using mem_run_fifo [OF assms] by (simp add: new_mem_sys_def new_mem_conn_def)

theorem in_memory_fifo_witness:
  "\<exists>s. mem_run new_mem_sys [Connected, Client_waits, Server_send True ''a'', Disconnected, Connected,
      Server_send True ''b'', Client_received (Some ''a'')] s \<and>
    mc_to_client (ms_conn s) = [''b'']"
proof -
  define conn where "conn = (\<lambda>q b w. \<lparr>ms_conn = \<lparr>mc_to_server = [], mc_to_client = q, mc_connected = b\<rparr>,
    ms_client_waiting = w, ms_server_waiting = False\<rparr>)"
  have steps: "mem_step (conn [] False False) Connected (conn [] True False)"
    "mem_step (conn [] True False) Client_waits (conn [] True True)"
    "mem_step (conn [] True True) (Server_send True ''a'') (conn [''a''] True True)"
    "mem_step (conn [''a''] True True) Disconnected (conn [''a''] False True)"
    "mem_step (conn [''a''] False True) Connected (conn [''a''] True True)"
    "mem_step (conn [''a''] True True) (Server_send True ''b'') (conn [''a'', ''b''] True True)"
    "mem_step (conn [''a'', ''b''] True True) (Client_received (Some ''a'')) (conn [''b''] True False)"
    by (simp_all add: conn_def mem_step.simps mem_defs ex_bool_eq)
  note run = mem_run.more [OF mem_run.more [OF mem_run.more [OF mem_run.more [OF mem_run.more [OF
    mem_run.more [OF mem_run.more [OF mem_run.nothing steps(1)] steps(2)] steps(3)] steps(4)] steps(5)] steps(6)] steps(7)]
  have new: "new_mem_sys = conn [] False False" by (simp add: conn_def new_mem_sys_def new_mem_conn_def)
  from in_memory_fifo [OF run [folded new]] have "mc_to_client (ms_conn (conn [''b''] True False)) = [''b'']"
    by simp
  with run [folded new] show ?thesis by (intro exI [of _ "conn [''b''] True False"]) simp
qed

text \<open>
  C30: \<open>TcpConnection::send\<close> returns, having retried partial writes, with all bytes
  accepted by the socket in order, or with false and only a part of them accepted; without
  a socket it sends nothing.
\<close>

theorem tcp_send_complete:
  assumes "\<And>fd d w n w'. sk_send api fd d w = (n, w') \<Longrightarrow>
      n \<le> int (length d) \<and> accepted w' = accepted w @ take (nat n) d"
    and "tcp_send api data c = (ok, c')"
  shows "(ok \<longrightarrow> accepted (tc_world c') = accepted (tc_world c) @ data) \<and>
    (\<not> ok \<longrightarrow> (\<exists>k. accepted (tc_world c') = accepted (tc_world c) @ take k data)) \<and>
    tc_socket c' = tc_socket c"
proof -
  have *: "connection (tcp_send api) (\<lambda>c. accepted (tc_world c))"
    using assms(1) by (intro tcp_connection) (simp add: send_accepts_def)
  have "tc_socket c' = tc_socket c"
    using assms(2) by (auto simp: tcp_send_def split: if_splits prod.splits)
  with connection.send_succeeds [OF *] connection.send_fails [OF *] assms(2) show ?thesis
    by (cases ok) auto
qed

definition two_byte_socket :: "string socket_api" where
  "two_byte_socket = \<lparr>sk_resolve = \<lambda>h p w. (Some h, w), sk_socket = \<lambda>w. (3, w),
     sk_connect = \<lambda>fd a w. (0, w), sk_close = \<lambda>fd w. w,
     sk_send = \<lambda>fd d w. (int (min 2 (length d)), w @ take 2 d),
     sk_set_timeout = \<lambda>fd s u w. w, sk_recv = \<lambda>fd n w. (0, [], w)\<rparr>"

theorem tcp_send_complete_witness:
  "tc_world (snd (tcp_send two_byte_socket ''hello'' \<lparr>tc_host = ''h'', tc_port = 1, tc_socket = 3, tc_world = ''>''\<rparr>))
     = ''>hello''"
proof -
  let ?c = "\<lparr>tc_host = ''h'', tc_port = 1, tc_socket = 3, tc_world = ''>''\<rparr>"
  have "fst (tcp_send two_byte_socket ''hello'' ?c)" by code_simp
  then obtain c' where c': "tcp_send two_byte_socket ''hello'' ?c = (True, c')"
    by (cases "tcp_send two_byte_socket ''hello'' ?c") auto
  have "n \<le> int (length d) \<and> id w' = id w @ take (nat n) d" if "sk_send two_byte_socket fd d w = (n, w')" for fd d w n w'
    using that by (auto simp: two_byte_socket_def min_def)
  from tcp_send_complete [of two_byte_socket id, OF this c'] c' show ?thesis by simp
qed

end
