(* ===== verification/Proxy.thy ===== *)
theory Proxy
  imports Inspection Connections
begin

text \<open>
  The proxy of \<open>src/proxy.cpp\<close> around its inspector: \<open>handle_connection\<close> opens the
  connection to the target, then two threads run \<open>forward_traffic\<close>, one per direction.
  A thread advances by single steps (a system call, one inspected message, the test of the
  loop), so that a schedule of steps is any interleaving of the two threads, of \<open>stop\<close> and of
  what happens outside.  The sockets are the parameter of the model they are for
  \<open>TcpConnection\<close>; here, without a timeout, \<open>recv\<close> and \<open>send\<close> may sleep for ever.
\<close>

section \<open>Connecting to the target\<close>

datatype target_event =
  Target_socket_failed | Resolving_failed string | Target_connection_failed string int | Target_connected string int

definition open_target ::
  "('w, 'z) socket_api_scheme \<Rightarrow> string \<Rightarrow> int \<Rightarrow> int \<Rightarrow> 'w \<Rightarrow> target_event \<times> int option \<times> 'w" where
  "open_target api target_host target_port client_fd w =
     (let (target_fd, w1) = sk_socket api w in
      if target_fd < 0 then (Target_socket_failed, None, sk_close api client_fd w1)
      else
        (let (res, w2) = sk_resolve api target_host (show_int target_port) w1 in
         case res of
           None \<Rightarrow> (Resolving_failed target_host, None, sk_close api target_fd (sk_close api client_fd w2))
         | Some addr \<Rightarrow>
             (let (r, w3) = sk_connect api target_fd addr w2 in
              if r < 0 then
                (Target_connection_failed target_host target_port, None,
                 sk_close api target_fd (sk_close api client_fd w3))
              else (Target_connected target_host target_port, Some target_fd, w3))))"

section \<open>Forwarding\<close>

text \<open>
  The sockets of the two peers.  A call of \<open>recv\<close> sleeps until there are bytes, an end of the
  stream or an error to return, a call of \<open>send\<close> until there is room for a byte or an error;
  \<open>ps_outside\<close> is what the peers and the system do between the calls, as numbered events.
\<close>

record 'w proxy_sockets = "'w socket_api" +
  ps_readable :: "int \<Rightarrow> 'w \<Rightarrow> bool"
  ps_writable :: "int \<Rightarrow> 'w \<Rightarrow> bool"
  ps_outside :: "nat \<Rightarrow> 'w \<Rightarrow> 'w"

text \<open>Where a thread of \<open>forward_traffic\<close> stands.\<close>

datatype thread_pc = Testing | Reading | Draining | Sending nat | Closing | Finished

record thread =
  th_pc :: thread_pc
  th_rx :: string
  th_buf :: string

record 'w bridge =
  br_running :: bool
  br_active :: bool
  br_client_fd :: int
  br_target_fd :: int
  br_c2s :: thread
  br_s2c :: thread
  br_inspector :: inspector
  br_world :: 'w

definition new_thread :: thread where
  "new_thread = \<lparr>th_pc = Testing, th_rx = [], th_buf = []\<rparr>"

text \<open>The state in which \<open>handle_connection\<close> starts the threads.\<close>

definition new_bridge :: "int \<Rightarrow> int \<Rightarrow> inspector \<Rightarrow> 'w \<Rightarrow> 'w bridge" where
  "new_bridge client_fd target_fd ins w =
     \<lparr>br_running = True, br_active = True, br_client_fd = client_fd, br_target_fd = target_fd,
      br_c2s = new_thread, br_s2c = new_thread, br_inspector = ins, br_world = w\<rparr>"

text \<open>The flag is \<open>is_client_to_server\<close>.\<close>

definition thread_of :: "bool \<Rightarrow> 'w bridge \<Rightarrow> thread" where
  "thread_of c2s s = (if c2s then br_c2s s else br_s2c s)"

definition set_thread :: "bool \<Rightarrow> thread \<Rightarrow> 'w bridge \<Rightarrow> 'w bridge" where
  "set_thread c2s t s = (if c2s then s\<lparr>br_c2s := t\<rparr> else s\<lparr>br_s2c := t\<rparr>)"

definition src_fd :: "bool \<Rightarrow> 'w bridge \<Rightarrow> int" where
  "src_fd c2s s = (if c2s then br_client_fd s else br_target_fd s)"

definition dst_fd :: "bool \<Rightarrow> 'w bridge \<Rightarrow> int" where
  "dst_fd c2s s = (if c2s then br_target_fd s else br_client_fd s)"

text \<open>The test of the outer loop, and the read.\<close>

definition test_step :: "bool \<Rightarrow> 'w bridge \<Rightarrow> 'w bridge" where
  "test_step c2s s =
     set_thread c2s ((thread_of c2s s)\<lparr>th_pc := if br_running s \<and> br_active s then Reading else Closing\<rparr>) s"

definition read_step :: "'w proxy_sockets \<Rightarrow> bool \<Rightarrow> 'w bridge \<Rightarrow> 'w bridge" where
  "read_step api c2s s =
     (if \<not> ps_readable api (src_fd c2s s) (br_world s) then s
      else
        (let t = thread_of c2s s;
             (bytes_read, buf, w) = sk_recv api (src_fd c2s s) 4096 (br_world s)
         in if bytes_read \<le> 0
            then set_thread c2s (t\<lparr>th_pc := Closing\<rparr>) (s\<lparr>br_active := False, br_world := w\<rparr>)
            else
              (let chunk = take (nat bytes_read) buf
               in set_thread c2s (t\<lparr>th_pc := Draining, th_rx := th_rx t @ chunk, th_buf := chunk\<rparr>)
                    (s\<lparr>br_world := w\<rparr>))))"

text \<open>One iteration of the loop that takes messages out of the buffer.\<close>

definition drain_step :: "iteration \<Rightarrow> (nat \<Rightarrow> int) \<Rightarrow> bool \<Rightarrow> 'w bridge \<Rightarrow> 'w bridge" where
  "drain_step iter clk c2s s =
     (let t = thread_of c2s s in
      case next_text (th_rx t) of
        (Some m, b) \<Rightarrow>
          set_thread c2s (t\<lparr>th_rx := b\<rparr>) (s\<lparr>br_inspector := inspect iter clk c2s m (br_inspector s)\<rparr>)
      | (None, b) \<Rightarrow> set_thread c2s (t\<lparr>th_pc := Sending 0, th_rx := b\<rparr>) s)"

text \<open>One iteration of the loop that forwards the raw bytes.\<close>

definition send_step_proxy :: "'w proxy_sockets \<Rightarrow> bool \<Rightarrow> nat \<Rightarrow> 'w bridge \<Rightarrow> 'w bridge" where
  "send_step_proxy api c2s total_sent s =
     (let t = thread_of c2s s in
      if total_sent < length (th_buf t) then
        (if \<not> ps_writable api (dst_fd c2s s) (br_world s) then s
         else
           (let (sent, w) = sk_send api (dst_fd c2s s) (drop total_sent (th_buf t)) (br_world s) in
            if sent \<le> 0
            then set_thread c2s (t\<lparr>th_pc := Testing\<rparr>) (s\<lparr>br_active := False, br_world := w\<rparr>)
            else set_thread c2s (t\<lparr>th_pc := Sending (total_sent + nat sent)\<rparr>) (s\<lparr>br_world := w\<rparr>)))
      else set_thread c2s (t\<lparr>th_pc := Testing\<rparr>) s)"

definition close_step :: "'w proxy_sockets \<Rightarrow> bool \<Rightarrow> 'w bridge \<Rightarrow> 'w bridge" where
  "close_step api c2s s =
     set_thread c2s ((thread_of c2s s)\<lparr>th_pc := Finished\<rparr>)
       (s\<lparr>br_world := sk_close api (dst_fd c2s s) (sk_close api (src_fd c2s s) (br_world s))\<rparr>)"

definition thread_step :: "'w proxy_sockets \<Rightarrow> iteration \<Rightarrow> (nat \<Rightarrow> int) \<Rightarrow> bool \<Rightarrow> 'w bridge \<Rightarrow> 'w bridge" where
  "thread_step api iter clk c2s s =
     (case th_pc (thread_of c2s s) of
        Testing \<Rightarrow> test_step c2s s
      | Reading \<Rightarrow> read_step api c2s s
      | Draining \<Rightarrow> drain_step iter clk c2s s
      | Sending n \<Rightarrow> send_step_proxy api c2s n s
      | Closing \<Rightarrow> close_step api c2s s
      | Finished \<Rightarrow> s)"

text \<open>A move of a thread, \<open>stop\<close> called by another thread, or an event outside.\<close>

datatype move = Thread bool | Stopped | Outside nat

fun bridge_run :: "'w proxy_sockets \<Rightarrow> iteration \<Rightarrow> (nat \<Rightarrow> int) \<Rightarrow> move list \<Rightarrow> 'w bridge \<Rightarrow> 'w bridge" where
  "bridge_run api iter clk [] s = s"
| "bridge_run api iter clk (Thread c2s # ms) s = bridge_run api iter clk ms (thread_step api iter clk c2s s)"
| "bridge_run api iter clk (Stopped # ms) s = bridge_run api iter clk ms (s\<lparr>br_running := False\<rparr>)"
| "bridge_run api iter clk (Outside k # ms) s =
     bridge_run api iter clk ms (s\<lparr>br_world := ps_outside api k (br_world s)\<rparr>)"

text \<open>A thread sleeps in a system call that cannot return; its moves then change nothing.\<close>

definition blocked :: "'w proxy_sockets \<Rightarrow> bool \<Rightarrow> 'w bridge \<Rightarrow> bool" where
  "blocked api d s \<longleftrightarrow>
     (case th_pc (thread_of d s) of
        Reading \<Rightarrow> \<not> ps_readable api (src_fd d s) (br_world s)
      | Sending n \<Rightarrow> n < length (th_buf (thread_of d s)) \<and> \<not> ps_writable api (dst_fd d s) (br_world s)
      | _ \<Rightarrow> False)"

text \<open>How many moves of a thread in a schedule are not spent sleeping.\<close>

fun steps_made ::
  "'w proxy_sockets \<Rightarrow> iteration \<Rightarrow> (nat \<Rightarrow> int) \<Rightarrow> bool \<Rightarrow> move list \<Rightarrow> 'w bridge \<Rightarrow> nat" where
  "steps_made api iter clk d [] s = 0"
| "steps_made api iter clk d (mv # ms) s =
     (if mv = Thread d \<and> \<not> blocked api d s then 1 else 0) +
     steps_made api iter clk d ms (bridge_run api iter clk [mv] s)"

section \<open>Frame lemmas\<close>

lemma thread_set [simp]:
  "thread_of d (set_thread d t s) = t"
  "thread_of (\<not> d) (set_thread d t s) = thread_of (\<not> d) s"
  "br_running (set_thread d t s) = br_running s" "br_active (set_thread d t s) = br_active s"
  "br_world (set_thread d t s) = br_world s" "src_fd e (set_thread d t s) = src_fd e s"
  "dst_fd e (set_thread d t s) = dst_fd e s" "br_inspector (set_thread d t s) = br_inspector s"
  by (simp_all add: thread_of_def set_thread_def src_fd_def dst_fd_def)

lemma thread_upd [simp]:
  "thread_of d (s\<lparr>br_world := w\<rparr>) = thread_of d s" "thread_of d (s\<lparr>br_active := a\<rparr>) = thread_of d s"
  "thread_of d (s\<lparr>br_running := r\<rparr>) = thread_of d s" "thread_of d (s\<lparr>br_inspector := i\<rparr>) = thread_of d s"
  "src_fd d (s\<lparr>br_world := w\<rparr>) = src_fd d s" "src_fd d (s\<lparr>br_active := a\<rparr>) = src_fd d s"
  "src_fd d (s\<lparr>br_running := r\<rparr>) = src_fd d s" "src_fd d (s\<lparr>br_inspector := i\<rparr>) = src_fd d s"
  "dst_fd d (s\<lparr>br_world := w\<rparr>) = dst_fd d s" "dst_fd d (s\<lparr>br_active := a\<rparr>) = dst_fd d s"
  "dst_fd d (s\<lparr>br_running := r\<rparr>) = dst_fd d s" "dst_fd d (s\<lparr>br_inspector := i\<rparr>) = dst_fd d s"
  by (simp_all add: thread_of_def src_fd_def dst_fd_def)

lemmas step_defs = test_step_def read_step_def drain_step_def send_step_proxy_def close_step_def

lemma step_fds [simp]:
  "src_fd e (thread_step api iter clk d s) = src_fd e s"
  "dst_fd e (thread_step api iter clk d s) = dst_fd e s"
  by (auto simp: thread_step_def step_defs Let_def split: thread_pc.split prod.split option.split)

lemma run_fds: "src_fd e (bridge_run api iter clk ms s) = src_fd e s \<and> dst_fd e (bridge_run api iter clk ms s) = dst_fd e s"
  by (induction api iter clk ms s rule: bridge_run.induct) simp_all

text \<open>A step of one thread leaves the other thread's own state alone.\<close>

lemma step_other:
  "e \<noteq> d \<Longrightarrow> thread_of e (thread_step api iter clk d s) = thread_of e s"
  using thread_set(2) [of d]
  by (auto simp: thread_step_def step_defs Let_def split: thread_pc.split prod.split option.split)

text \<open>The flags only go down.\<close>

lemma step_flags:
  "br_running (thread_step api iter clk d s) = br_running s"
  "br_active (thread_step api iter clk d s) \<Longrightarrow> br_active s"
  by (auto simp: thread_step_def step_defs Let_def split: thread_pc.splits prod.splits option.splits if_splits)

section \<open>Winding down\<close>

text \<open>
  How many moves a thread needs at most to be finished once the flags are down: one per
  message in its buffer (each takes a byte at least) and per byte still to be sent, of what
  it holds or may still read.
\<close>

definition work_left :: "thread \<Rightarrow> nat" where
  "work_left t =
     (case th_pc t of
        Testing \<Rightarrow> 2
      | Reading \<Rightarrow> 4 + length (th_rx t) + 2 * 4096 + 1
      | Draining \<Rightarrow> 4 + length (th_rx t) + length (th_buf t)
      | Sending n \<Rightarrow> 3 + (length (th_buf t) - n)
      | Closing \<Rightarrow> 1
      | Finished \<Rightarrow> 0)"

text \<open>\<open>recv\<close> returns no more than it is asked for.\<close>

definition recv_bounded :: "'w proxy_sockets \<Rightarrow> bool" where
  "recv_bounded api \<longleftrightarrow> (\<forall>fd n w k buf w'. sk_recv api fd n w = (k, buf, w') \<longrightarrow> k \<le> int n)"

lemma blocked_stays: "blocked api d s \<Longrightarrow> thread_step api iter clk d s = s"
  by (auto simp: blocked_def thread_step_def read_step_def send_step_proxy_def Let_def split: thread_pc.splits)

lemma work_goes_down:
  assumes "recv_bounded api" "\<not> (br_running s \<and> br_active s)" "th_pc (thread_of d s) \<noteq> Finished"
    and "\<not> blocked api d s"
  shows "work_left (thread_of d (thread_step api iter clk d s)) < work_left (thread_of d s)"
proof (cases "th_pc (thread_of d s)")
  case Draining
  have "length r < length b" if "next_text b = (Some m, r)" for b m r
    using next_text_shrinks [OF that] .
  with Draining show ?thesis
    by (auto simp: thread_step_def drain_step_def work_left_def Let_def split: prod.split option.split)
next
  case Reading
  obtain k buf w where recv: "sk_recv api (src_fd d s) 4096 (br_world s) = (k, buf, w)"
    by (cases "sk_recv api (src_fd d s) 4096 (br_world s)") auto
  with assms(1) have "k \<le> 4096" unfolding recv_bounded_def by fastforce
  then have "length (take (nat k) buf) \<le> 4096" by simp
  with Reading recv assms(4) show ?thesis
    by (auto simp: thread_step_def read_step_def work_left_def blocked_def Let_def simp del: length_take)
qed (use assms in \<open>auto simp: thread_step_def step_defs work_left_def blocked_def Let_def split: prod.split\<close>)

lemma stays_finished:
  "th_pc (thread_of d s) = Finished \<Longrightarrow> thread_step api iter clk d s = s"
  by (simp add: thread_step_def)

text \<open>The flags stay down, whatever moves.\<close>

lemma run_flags_down:
  "\<not> (br_running s \<and> br_active s) \<Longrightarrow> \<not> (br_running (bridge_run api iter clk [mv] s) \<and> br_active (bridge_run api iter clk [mv] s))"
  using step_flags [of api iter clk _ s] by (cases mv) auto

lemma run_Cons: "bridge_run api iter clk (mv # ms) s = bridge_run api iter clk ms (bridge_run api iter clk [mv] s)"
  by (cases mv) simp_all

text \<open>A move that is not the thread's own, or that it spends sleeping, leaves it as it is.\<close>

lemma move_unmade:
  "mv \<noteq> Thread d \<or> blocked api d s \<Longrightarrow> thread_of d (bridge_run api iter clk [mv] s) = thread_of d s"
proof (cases mv)
  case (Thread e)
  then show "mv \<noteq> Thread d \<or> blocked api d s \<Longrightarrow> ?thesis"
    using step_other [of d e api iter clk s] blocked_stays [of api d s iter clk] by (cases "e = d") auto
qed simp_all

lemma winds_down:
  "recv_bounded api \<Longrightarrow> \<not> (br_running s \<and> br_active s) \<Longrightarrow>
     work_left (thread_of d (bridge_run api iter clk ms s)) \<le> work_left (thread_of d s) - steps_made api iter clk d ms s"
proof (induction ms arbitrary: s)
  case (Cons mv ms)
  let ?s = "bridge_run api iter clk [mv] s"
  note IH = Cons.IH [OF Cons.prems(1) run_flags_down [OF Cons.prems(2), of api iter clk mv]]
  show ?case
  proof (cases "mv = Thread d \<and> \<not> blocked api d s")
    case False
    then have "thread_of d ?s = thread_of d s" by (intro move_unmade) auto
    with IH False show ?thesis by (subst run_Cons) auto
  next
    case True
    have "work_left (thread_of d ?s) \<le> work_left (thread_of d s) - 1"
    proof (cases "th_pc (thread_of d s) = Finished")
      case fin: True
      with True stays_finished [OF fin] show ?thesis by (simp add: work_left_def)
    next
      case False
      from work_goes_down [OF Cons.prems False, of iter clk] True show ?thesis by simp
    qed
    with IH True show ?thesis by (subst run_Cons) simp
  qed
qed simp

text \<open>Behind the loop there is no call to sleep in.\<close>

lemma closes_soon:
  "\<not> (br_running s \<and> br_active s) \<Longrightarrow> th_pc (thread_of d s) \<in> {Testing, Closing, Finished} \<Longrightarrow>
     work_left (thread_of d (bridge_run api iter clk ms s)) \<le> work_left (thread_of d s) - count_list ms (Thread d)"
proof (induction ms arbitrary: s)
  case (Cons mv ms)
  let ?s = "bridge_run api iter clk [mv] s"
  note down = run_flags_down [OF Cons.prems(1), of api iter clk mv]
  show ?case
  proof (cases "mv = Thread d")
    case False
    then have "thread_of d ?s = thread_of d s" by (intro move_unmade) auto
    with Cons.IH [OF down] Cons.prems(2) False show ?thesis by (subst run_Cons) simp
  next
    case True
    have "th_pc (thread_of d ?s) \<in> {Testing, Closing, Finished} \<and>
        work_left (thread_of d ?s) \<le> work_left (thread_of d s) - 1"
      using Cons.prems True
      by (auto simp: thread_step_def test_step_def close_step_def work_left_def)
    then have less: "work_left (thread_of d ?s) \<le> work_left (thread_of d s) - 1"
      and "work_left (thread_of d (bridge_run api iter clk ms ?s)) \<le> work_left (thread_of d ?s) - count_list ms (Thread d)"
      using Cons.IH [OF down] by blast+
    then have "work_left (thread_of d (bridge_run api iter clk ms ?s)) \<le> work_left (thread_of d s) - 1 - count_list ms (Thread d)"
      by (meson diff_le_mono order_trans)
    with True show ?thesis by (subst run_Cons) simp
  qed
qed simp

lemma nothing_made:
  "steps_made api iter clk d ms s = 0 \<Longrightarrow> thread_of d (bridge_run api iter clk ms s) = thread_of d s"
proof (induction ms arbitrary: s)
  case (Cons mv ms)
  then have "thread_of d (bridge_run api iter clk [mv] s) = thread_of d s"
    by (intro move_unmade) (auto split: if_splits)
  with Cons show ?case by (subst run_Cons) (simp split: if_splits)
qed simp

lemma work_left_0: "work_left t = 0 \<longleftrightarrow> th_pc t = Finished"
  by (simp add: work_left_def split: thread_pc.split)

section \<open>Sockets with a record\<close>

text \<open>What is read and forwarded when a thread stands where it does.\<close>

definition position_ok :: "bool \<Rightarrow> thread \<Rightarrow> string \<Rightarrow> string \<Rightarrow> bool" where
  "position_ok active t A R \<longleftrightarrow> prefix A R \<and>
     (case th_pc t of
        Testing \<Rightarrow> active \<longrightarrow> A = R
      | Reading \<Rightarrow> A = R
      | Draining \<Rightarrow> R = A @ th_buf t
      | Sending n \<Rightarrow> R = A @ drop n (th_buf t)
      | Closing \<Rightarrow> True
      | Finished \<Rightarrow> True)"

lemma position_ok_mono: "position_ok a t A R \<Longrightarrow> (b \<Longrightarrow> a) \<Longrightarrow> position_ok b t A R"
  by (auto simp: position_ok_def split: thread_pc.splits)

text \<open>
  What the C library documents of the sockets, told by what was taken from and accepted by
  each descriptor and how often it was closed: \<open>recv\<close> returns how many bytes it took,
  \<open>send\<close> how many, the first ones, it accepted, and only the calls of this process count.
\<close>

locale socket_log =
  fixes api :: "'w proxy_sockets"
    and taken :: "'w \<Rightarrow> int \<Rightarrow> string"
    and accepted :: "'w \<Rightarrow> int \<Rightarrow> string"
    and closed :: "'w \<Rightarrow> int \<Rightarrow> nat"
  assumes recv: "sk_recv api fd n w = (k, buf, w') \<Longrightarrow> k \<le> int n \<and>
      taken w' = (taken w)(fd := taken w fd @ take (nat k) buf) \<and>
      accepted w' = accepted w \<and> closed w' = closed w"
    and send: "sk_send api fd d w = (k, w') \<Longrightarrow> k \<le> int (length d) \<and>
      accepted w' = (accepted w)(fd := accepted w fd @ take (nat k) d) \<and>
      taken w' = taken w \<and> closed w' = closed w"
    and close: "taken (sk_close api fd w) = taken w" "accepted (sk_close api fd w) = accepted w"
      "closed (sk_close api fd w) = (closed w)(fd := closed w fd + 1)"
    and outside: "taken (ps_outside api e w) = taken w" "accepted (ps_outside api e w) = accepted w"
      "closed (ps_outside api e w) = closed w"
    and socket: "sk_socket api w = (fd, w') \<Longrightarrow> closed w' = closed w"
    and resolve: "sk_resolve api h p w = (res, w') \<Longrightarrow> closed w' = closed w"
    and connect: "sk_connect api fd a w = (r, w') \<Longrightarrow> closed w' = closed w"
begin

lemma bounded: "recv_bounded api"
  using recv by (fastforce simp: recv_bounded_def)

text \<open>
  The bytes read (\<open>R\<close>) and forwarded (\<open>A\<close>) by a direction since the world was \<open>w\<close>, as the
  position of its thread tells.
\<close>

definition in_step :: "'w \<Rightarrow> bool \<Rightarrow> 'w bridge \<Rightarrow> bool" where
  "in_step w d s \<longleftrightarrow>
     (\<exists>R A. taken (br_world s) (src_fd d s) = taken w (src_fd d s) @ R \<and>
        accepted (br_world s) (dst_fd d s) = accepted w (dst_fd d s) @ A \<and>
        position_ok (br_active s) (thread_of d s) A R)"

lemma in_step_transfer:
  assumes "in_step w d s" "src_fd d s' = src_fd d s" "dst_fd d s' = dst_fd d s"
    and "taken (br_world s') (src_fd d s) = taken (br_world s) (src_fd d s)"
    and "accepted (br_world s') (dst_fd d s) = accepted (br_world s) (dst_fd d s)"
    and "thread_of d s' = thread_of d s" "br_active s' \<Longrightarrow> br_active s"
  shows "in_step w d s'"
  using assms position_ok_mono [of "br_active s" "thread_of d s" _ _ "br_active s'"]
  unfolding in_step_def by auto

lemma in_step_own:
  assumes "in_step w d s" "src_fd d s \<noteq> dst_fd d s"
  shows "in_step w d (thread_step api iter clk d s)"
proof -
  let ?src = "src_fd d s" and ?dst = "dst_fd d s" and ?t = "thread_of d s"
  from assms(1) obtain R A where RA: "taken (br_world s) ?src = taken w ?src @ R"
      "accepted (br_world s) ?dst = accepted w ?dst @ A"
    and "position_ok (br_active s) ?t A R"
    unfolding in_step_def by blast
  then have pc: "prefix A R" "case th_pc ?t of Testing \<Rightarrow> br_active s \<longrightarrow> A = R | Reading \<Rightarrow> A = R
      | Draining \<Rightarrow> R = A @ th_buf ?t | Sending n \<Rightarrow> R = A @ drop n (th_buf ?t) | Closing \<Rightarrow> True | Finished \<Rightarrow> True"
    by (simp_all add: position_ok_def)
  show ?thesis
  proof (cases "th_pc ?t")
    case Testing
    with RA pc show ?thesis by (auto simp: thread_step_def test_step_def in_step_def position_ok_def)
  next
    case Reading
    obtain k buf w1 where recv1: "sk_recv api ?src 4096 (br_world s) = (k, buf, w1)"
      by (cases "sk_recv api ?src 4096 (br_world s)") auto
    with recv [OF recv1] RA pc Reading show ?thesis
      by (auto simp: thread_step_def read_step_def in_step_def position_ok_def Let_def)
  next
    case Draining
    with RA pc show ?thesis
      by (auto simp: thread_step_def drain_step_def position_ok_def in_step_def position_ok_def Let_def split: prod.split option.split)
  next
    case (Sending n)
    show ?thesis
    proof (cases "n < length (th_buf ?t)")
      case False
      with Sending RA pc show ?thesis
        by (auto simp: thread_step_def send_step_proxy_def in_step_def position_ok_def)
    next
      case True
      obtain k w1 where send1: "sk_send api ?dst (drop n (th_buf ?t)) (br_world s) = (k, w1)"
        by (cases "sk_send api ?dst (drop n (th_buf ?t)) (br_world s)") auto
      have "drop n (th_buf ?t) = take (nat k) (drop n (th_buf ?t)) @ drop (n + nat k) (th_buf ?t)"
        by (metis add.commute append_take_drop_id drop_drop)
      with send [OF send1] send1 True Sending RA pc show ?thesis
        by (auto simp: thread_step_def send_step_proxy_def in_step_def position_ok_def prefix_def Let_def)
    qed
  next
    case Closing
    with RA pc show ?thesis by (auto simp: thread_step_def close_step_def in_step_def position_ok_def close)
  next
    case Finished
    with assms(1) show ?thesis by (simp add: thread_step_def)
  qed
qed

lemma step_world:
  assumes "src_fd d s \<noteq> dst_fd d s"
  shows "taken (br_world (thread_step api iter clk (\<not> d) s)) (src_fd d s) = taken (br_world s) (src_fd d s)"
    "accepted (br_world (thread_step api iter clk (\<not> d) s)) (dst_fd d s) = accepted (br_world s) (dst_fd d s)"
proof -
  have fds: "src_fd (\<not> d) s = dst_fd d s" "dst_fd (\<not> d) s = src_fd d s"
    by (simp_all add: src_fd_def dst_fd_def)
  show "taken (br_world (thread_step api iter clk (\<not> d) s)) (src_fd d s) = taken (br_world s) (src_fd d s)"
    "accepted (br_world (thread_step api iter clk (\<not> d) s)) (dst_fd d s) = accepted (br_world s) (dst_fd d s)"
    using assms
    by (auto simp: thread_step_def step_defs Let_def fds close dest!: recv send
        split: thread_pc.split prod.split option.split)
qed

lemma in_step_other:
  assumes "in_step w d s" "src_fd d s \<noteq> dst_fd d s"
  shows "in_step w d (thread_step api iter clk (\<not> d) s)"
  using step_world [OF assms(2), of iter clk] step_other [of d "\<not> d" api iter clk s]
    step_flags(2) [of api iter clk "\<not> d" s]
  by (intro in_step_transfer [OF assms(1)]) simp_all

lemma in_step_run:
  "in_step w d s \<Longrightarrow> src_fd d s \<noteq> dst_fd d s \<Longrightarrow> in_step w d (bridge_run api iter clk ms s)"
proof (induction ms arbitrary: s)
  case (Cons mv ms)
  show ?case
  proof (cases mv)
    case Stopped
    have "in_step w d (s\<lparr>br_running := False\<rparr>)" by (rule in_step_transfer [OF Cons.prems(1)]) simp_all
    with Cons.IH Cons.prems(2) Stopped show ?thesis by simp
  next
    case (Outside k)
    have "in_step w d (s\<lparr>br_world := ps_outside api k (br_world s)\<rparr>)"
      by (rule in_step_transfer [OF Cons.prems(1)]) (simp_all add: outside)
    with Cons.IH Cons.prems(2) Outside show ?thesis by simp
  next
    case (Thread e)
    have "in_step w d (thread_step api iter clk e s)"
      using in_step_own in_step_other Cons.prems by (cases "e = d") auto
    with Cons.IH Cons.prems(2) Thread show ?thesis by simp
  qed
qed simp

text \<open>Closing: every finished thread has closed both descriptors.\<close>

definition finished :: "'w bridge \<Rightarrow> nat" where
  "finished s = (if th_pc (br_c2s s) = Finished then 1 else 0) + (if th_pc (br_s2c s) = Finished then 1 else 0)"

definition closings_ok :: "'w \<Rightarrow> 'w bridge \<Rightarrow> bool" where
  "closings_ok w s \<longleftrightarrow> br_client_fd s \<noteq> br_target_fd s \<and>
     closed (br_world s) = (closed w)
       (br_client_fd s := closed w (br_client_fd s) + finished s,
        br_target_fd s := closed w (br_target_fd s) + finished s)"

lemma closings_step: "closings_ok w s \<Longrightarrow> closings_ok w (thread_step api iter clk d s)"
  by (cases "th_pc (thread_of d s)"; cases d)
    (auto simp: closings_ok_def finished_def thread_step_def step_defs thread_of_def set_thread_def
      src_fd_def dst_fd_def Let_def close fun_eq_iff dest!: recv send split: prod.split option.split)

lemma closings_run: "closings_ok w s \<Longrightarrow> closings_ok w (bridge_run api iter clk ms s)"
proof (induction ms arbitrary: s)
  case (Cons mv ms)
  have "closings_ok w (s\<lparr>br_running := False\<rparr>)" "closings_ok w (s\<lparr>br_world := ps_outside api k (br_world s)\<rparr>)" for k
    using Cons.prems by (simp_all add: closings_ok_def finished_def outside)
  with Cons closings_step show ?case by (cases mv) simp_all
qed simp

text \<open>What \<open>handle_connection\<close> opened and does not hand on, it closes once.\<close>

lemma open_target_closes:
  assumes "open_target api host port client_fd w = (ev, res, w')"
  shows "closed w' = (case res of Some _ \<Rightarrow> closed w
    | None \<Rightarrow> (if ev = Target_socket_failed then (closed w)(client_fd := closed w client_fd + 1)
        else (let c = (closed w)(client_fd := closed w client_fd + 1); fd = fst (sk_socket api w)
              in c(fd := c fd + 1))))"
  using assms
  by (auto simp: open_target_def Let_def close dest!: socket resolve connect
      split: prod.splits option.splits if_splits)

end

section \<open>Forwarding does not depend on the inspection\<close>

lemma set_thread_inspector:
  "(set_thread d t s)\<lparr>br_inspector := x\<rparr> = set_thread d t (s\<lparr>br_inspector := x\<rparr>)"
  by (simp add: set_thread_def)

lemma step_blind:
  "(thread_step api iter' clk' d (s\<lparr>br_inspector := x\<rparr>))\<lparr>br_inspector := y\<rparr> =
     (thread_step api iter clk d s)\<lparr>br_inspector := y\<rparr>"
  by (auto simp: thread_step_def step_defs Let_def set_thread_inspector
      split: thread_pc.split prod.split option.split)

lemma run_blind:
  "(bridge_run api iter' clk' ms (s\<lparr>br_inspector := x\<rparr>))\<lparr>br_inspector := y\<rparr> =
     (bridge_run api iter clk ms s)\<lparr>br_inspector := y\<rparr>"
proof (induction ms arbitrary: s x)
  case (Cons mv ms)
  show ?case
  proof (cases mv)
    case Stopped
    have swap: "s\<lparr>br_inspector := x, br_running := False\<rparr> = s\<lparr>br_running := False, br_inspector := x\<rparr>" by simp
    show ?thesis unfolding Stopped bridge_run.simps swap by (rule Cons)
  next
    case (Outside k)
    let ?w = "ps_outside api k (br_world s)"
    have swap: "s\<lparr>br_inspector := x, br_world := ?w\<rparr> = s\<lparr>br_world := ?w, br_inspector := x\<rparr>" by simp
    have world: "br_world (s\<lparr>br_inspector := x\<rparr>) = br_world s" by simp
    show ?thesis unfolding Outside bridge_run.simps world swap by (rule Cons)
  next
    case (Thread d)
    obtain z where z: "thread_step api iter' clk' d (s\<lparr>br_inspector := x\<rparr>) =
        (thread_step api iter clk d s)\<lparr>br_inspector := z\<rparr>"
    proof -
      let ?l = "thread_step api iter' clk' d (s\<lparr>br_inspector := x\<rparr>)"
      have "?l = (?l\<lparr>br_inspector := undefined\<rparr>)\<lparr>br_inspector := br_inspector ?l\<rparr>" by simp
      also have "\<dots> = (thread_step api iter clk d s)\<lparr>br_inspector := br_inspector ?l\<rparr>"
        by (simp add: step_blind [where y = undefined and iter = iter and clk = clk])
      finally show thesis by (rule that)
    qed
    with Cons [where s = "thread_step api iter clk d s" and x = z] Thread show ?thesis by simp
  qed
qed simp

section \<open>Sockets that keep the record\<close>

text \<open>
  Sockets that deliver scripted chunks and accept three bytes at a time.  An empty chunk is
  the end of the stream; with no chunk left, \<open>recv\<close> sleeps until the peer shuts down, which is
  the event outside with the number of its descriptor.
\<close>

record log_world =
  lw_in :: "int \<Rightarrow> string list"
  lw_taken :: "int \<Rightarrow> string"
  lw_accepted :: "int \<Rightarrow> string"
  lw_closed :: "int \<Rightarrow> nat"
  lw_next :: int

definition new_log_world :: "(int \<Rightarrow> string list) \<Rightarrow> log_world" where
  "new_log_world script = \<lparr>lw_in = script, lw_taken = (\<lambda>_. []), lw_accepted = (\<lambda>_. []),
     lw_closed = (\<lambda>_. 0), lw_next = 4\<rparr>"

definition log_recv :: "int \<Rightarrow> nat \<Rightarrow> log_world \<Rightarrow> int \<times> string \<times> log_world" where
  "log_recv fd n w =
     (let d = take n (concat (take 1 (lw_in w fd)))
      in (int (length d), d, w\<lparr>lw_in := (lw_in w)(fd := drop 1 (lw_in w fd)),
            lw_taken := (lw_taken w)(fd := lw_taken w fd @ d)\<rparr>))"

definition log_api :: "log_world proxy_sockets" where
  "log_api = \<lparr>sk_resolve = \<lambda>h p w. (if h = [] then None else Some h, w),
     sk_socket = \<lambda>w. (lw_next w, w\<lparr>lw_next := lw_next w + 1\<rparr>),
     sk_connect = \<lambda>fd a w. (0, w),
     sk_close = \<lambda>fd w. w\<lparr>lw_closed := (lw_closed w)(fd := lw_closed w fd + 1)\<rparr>,
     sk_send = \<lambda>fd d w. (int (length (take 3 d)), w\<lparr>lw_accepted := (lw_accepted w)(fd := lw_accepted w fd @ take 3 d)\<rparr>),
     sk_set_timeout = \<lambda>fd s u w. w,
     sk_recv = log_recv,
     ps_readable = \<lambda>fd w. lw_in w fd \<noteq> [] \<or> 0 < lw_closed w fd,
     ps_writable = \<lambda>fd w. True,
     ps_outside = \<lambda>k w. w\<lparr>lw_in := (lw_in w)(int k := lw_in w (int k) @ [[]])\<rparr>\<rparr>"

interpretation logged: socket_log log_api lw_taken lw_accepted lw_closed
  by unfold_locales (auto simp: log_api_def log_recv_def Let_def min_def)

section \<open>Properties\<close>

text \<open>
  C13: whatever the interleaving of the two threads and of \<open>stop\<close>, the bytes a direction has
  written to its destination are the first of the bytes it has read from its source,
  unchanged and in order; they are all of them whenever its thread reads on.
\<close>

theorem proxy_forwards_unchanged:
  assumes "socket_log api taken accepted closed" "client_fd \<noteq> target_fd"
    and "s = bridge_run api iter clk ms (new_bridge client_fd target_fd ins w)"
  shows "\<exists>R A. taken (br_world s) (src_fd d s) = taken w (src_fd d s) @ R \<and>
    accepted (br_world s) (dst_fd d s) = accepted w (dst_fd d s) @ A \<and>
    prefix A R \<and> (th_pc (thread_of d s) = Reading \<longrightarrow> A = R)"
proof -
  let ?s = "new_bridge client_fd target_fd ins w"
  have init: "socket_log.in_step taken accepted w d ?s"
    by (simp add: socket_log.in_step_def [OF assms(1)] new_bridge_def new_thread_def thread_of_def position_ok_def)
  have "src_fd d ?s \<noteq> dst_fd d ?s" using assms(2) by (simp add: new_bridge_def src_fd_def dst_fd_def)
  from socket_log.in_step_run [OF assms(1) init this, of iter clk ms] show ?thesis
    unfolding assms(3) socket_log.in_step_def [OF assms(1)] position_ok_def by fastforce
qed

definition two_chunks :: "int \<Rightarrow> string list" where
  "two_chunks fd = (if fd = 3 then [''hello'', ''world''] else [])"

definition forward_hello :: "move list" where
  "forward_hello = replicate 7 (Thread True)"

theorem proxy_forwards_unchanged_witness:
  "(let s = bridge_run log_api id (\<lambda>k. int k) forward_hello (new_bridge 3 4 (new_inspector None) (new_log_world two_chunks))
    in th_pc (thread_of True s) = Reading \<and> lw_accepted (br_world s) 4 = ''hello'')"
proof -
  let ?s = "bridge_run log_api id (\<lambda>k. int k) forward_hello (new_bridge 3 4 (new_inspector None) (new_log_world two_chunks))"
  have pc: "th_pc (thread_of True ?s) = Reading" "src_fd True ?s = 3" "dst_fd True ?s = 4"
    "lw_taken (br_world ?s) 3 = ''hello''" by code_simp+
  from proxy_forwards_unchanged [OF logged.socket_log_axioms _ refl, of 3 4 id "\<lambda>k. int k" forward_hello
      "new_inspector None" "new_log_world two_chunks" True] pc
  show ?thesis by (simp add: new_log_world_def Let_def)
qed

text \<open>
  C16: the inspection is invisible to the peers: with any dictionary, any state of the
  measurements and any clock, the proxy makes the same system calls, so that both peers see
  the same bytes.
\<close>

theorem inspection_invisible:
  "br_world (bridge_run api iter clk ms (new_bridge client_fd target_fd ins w)) =
   br_world (bridge_run api iter' clk' ms (new_bridge client_fd target_fd ins' w))"
proof -
  let ?s = "new_bridge client_fd target_fd ins w"
  have "new_bridge client_fd target_fd ins' w = ?s\<lparr>br_inspector := ins'\<rparr>" by (simp add: new_bridge_def)
  with arg_cong [OF run_blind [where s = ?s and x = ins' and y = ins and iter = iter and clk = clk], of br_world] show ?thesis by simp
qed

text \<open>
  C17: what ends the threads, and what does not.  Once \<open>stop\<close> was called or a peer is gone, a
  thread behind its loop closes and ends with two moves, and any thread ends within a bounded
  number (\<open>work_left\<close>) of moves not spent sleeping in \<open>recv\<close> or \<open>send\<close>, whatever else happens
  meanwhile.  But a thread that sleeps in one of them stays there as long as the call cannot
  return, although \<open>stop\<close> was called: nothing wakes it.
\<close>

theorem stopped_threads_finish:
  assumes "\<And>fd n w k buf w'. sk_recv api fd n w = (k, buf, w') \<Longrightarrow> k \<le> int n"
    and "\<not> (br_running s \<and> br_active s)"
  shows "(th_pc (thread_of d s) \<in> {Testing, Closing} \<and> 2 \<le> count_list ms (Thread d) \<longrightarrow>
      th_pc (thread_of d (bridge_run api iter clk ms s)) = Finished) \<and>
    (work_left (thread_of d s) \<le> steps_made api iter clk d ms s \<longrightarrow>
      th_pc (thread_of d (bridge_run api iter clk ms s)) = Finished) \<and>
    (steps_made api iter clk d ms s = 0 \<longrightarrow>
      thread_of d (bridge_run api iter clk ms s) = thread_of d s)"
proof (intro conjI impI)
  have bounded: "recv_bounded api" using assms(1) by (auto simp: recv_bounded_def)
  let ?t = "thread_of d (bridge_run api iter clk ms s)"
  show "th_pc ?t = Finished" if "th_pc (thread_of d s) \<in> {Testing, Closing} \<and> 2 \<le> count_list ms (Thread d)"
  proof -
    have "work_left (thread_of d s) \<le> 2" using that by (auto simp: work_left_def)
    then have "work_left ?t = 0" using closes_soon [OF assms(2), of d api iter clk ms] that by auto
    then show ?thesis by (simp add: work_left_0)
  qed
  show "th_pc ?t = Finished" if "work_left (thread_of d s) \<le> steps_made api iter clk d ms s"
    using winds_down [OF bounded assms(2), of d iter clk ms] that by (simp add: work_left_0)
  show "?t = thread_of d s" if "steps_made api iter clk d ms s = 0" by (rule nothing_made [OF that])
qed

text \<open>
  The thread that reads from the target sleeps in \<open>recv\<close> when \<open>stop\<close> comes and goes on
  sleeping; when the target shuts down it ends.
\<close>

definition asleep :: "log_world bridge" where
  "asleep = bridge_run log_api id (\<lambda>k. int k) [Thread False, Stopped]
     (new_bridge 3 4 (new_inspector None) (new_log_world two_chunks))"

theorem stopped_threads_finish_witness:
  "th_pc (thread_of False (bridge_run log_api id (\<lambda>k. int k) [Thread False, Thread True, Thread False] asleep)) = Reading \<and>
   th_pc (thread_of False (bridge_run log_api id (\<lambda>k. int k) [Thread False, Thread False]
     (bridge_run log_api id (\<lambda>k. int k) [Outside 4, Thread False] asleep))) = Finished"
proof -
  let ?awake = "bridge_run log_api id (\<lambda>k. int k) [Outside 4, Thread False] asleep"
  have bounded: "k \<le> int n" if "sk_recv log_api fd n w = (k, buf, w')" for fd n w k buf w'
    using logged.recv [OF that] by simp
  have flags: "\<not> (br_running asleep \<and> br_active asleep)" "\<not> (br_running ?awake \<and> br_active ?awake)"
    by code_simp+
  have "th_pc (thread_of False asleep) = Reading"
    "steps_made log_api id (\<lambda>k. int k) False [Thread False, Thread True, Thread False] asleep = 0"
    "work_left (thread_of False ?awake) \<le> steps_made log_api id (\<lambda>k. int k) False [Thread False, Thread False] ?awake"
    by code_simp+
  with stopped_threads_finish [OF bounded flags(1), where d = False and iter = id and clk = "\<lambda>k. int k" and
      ms = "[Thread False, Thread True, Thread False]"]
    stopped_threads_finish [OF bounded flags(2), where d = False and iter = id and clk = "\<lambda>k. int k" and
      ms = "[Thread False, Thread False]"]
  show ?thesis by simp
qed

text \<open>
  C36: when both threads have finished, each of the two descriptors has been closed twice:
  every thread closes both, although the first closing frees the number for reuse.
\<close>

theorem descriptors_closed_twice:
  assumes "socket_log api taken accepted closed" "client_fd \<noteq> target_fd"
    and "s = bridge_run api iter clk ms (new_bridge client_fd target_fd ins w)"
    and "th_pc (thread_of True s) = Finished" "th_pc (thread_of False s) = Finished"
  shows "closed (br_world s) client_fd = closed w client_fd + 2 \<and>
    closed (br_world s) target_fd = closed w target_fd + 2"
proof -
  let ?s = "new_bridge client_fd target_fd ins w"
  have "socket_log.closings_ok closed w ?s"
    using assms(2)
    by (simp add: socket_log.closings_ok_def [OF assms(1)] socket_log.finished_def [OF assms(1)]
        new_bridge_def new_thread_def)
  from socket_log.closings_run [OF assms(1) this, of iter clk ms]
  have "socket_log.closings_ok closed w s" by (simp only: assms(3))
  moreover have "socket_log.finished s = 2"
    using assms(4,5) by (simp add: socket_log.finished_def [OF assms(1)] thread_of_def)
  moreover have "br_client_fd s = client_fd" "br_target_fd s = target_fd"
    using run_fds [of True api iter clk ms ?s] assms(3) by (simp_all add: src_fd_def dst_fd_def new_bridge_def)
  ultimately show ?thesis by (simp add: socket_log.closings_ok_def [OF assms(1)])
qed

theorem descriptors_closed_twice_witness:
  "lw_closed (br_world (bridge_run log_api id (\<lambda>k. int k)
      ([Stopped] @ concat (replicate 2 [Thread True, Thread False]))
      (new_bridge 3 4 (new_inspector None) (new_log_world two_chunks)))) 4 = 2"
proof -
  let ?s = "bridge_run log_api id (\<lambda>k. int k) ([Stopped] @ concat (replicate 2 [Thread True, Thread False]))
      (new_bridge 3 4 (new_inspector None) (new_log_world two_chunks))"
  have "th_pc (thread_of True ?s) = Finished" "th_pc (thread_of False ?s) = Finished" by code_simp+
  from descriptors_closed_twice [OF logged.socket_log_axioms _ refl this] show ?thesis
    by (simp add: new_log_world_def)
qed

text \<open>
  When the target cannot be reached \<open>handle_connection\<close> closes what it holds exactly
  once, the client's descriptor and, if it was opened, the target's; when it can, nothing is
  closed.
\<close>

theorem target_failure_closes:
  assumes "socket_log api taken accepted closed"
    and "open_target api host port client_fd w = (ev, res, w')"
  shows "case res of Some target_fd \<Rightarrow> closed w' = closed w \<and> ev = Target_connected host port
    | None \<Rightarrow> (\<forall>fd. closed w' fd = closed w fd + (if fd = client_fd then 1 else 0) +
        (if ev \<noteq> Target_socket_failed \<and> fd = fst (sk_socket api w) then 1 else 0))"
proof -
  have "ev = Target_connected host port" if "res \<noteq> None"
    using assms(2) that by (auto simp: open_target_def Let_def split: prod.splits option.splits if_splits)
  with socket_log.open_target_closes [OF assms] show ?thesis
    by (auto simp: Let_def split: option.splits if_splits)
qed

theorem target_failure_closes_witness:
  "lw_closed (snd (snd (open_target log_api [] 80 3 (new_log_world two_chunks)))) 3 = 1"
proof -
  obtain ev res w' where run: "open_target log_api [] 80 3 (new_log_world two_chunks) = (ev, res, w')"
    by (cases "open_target log_api [] 80 3 (new_log_world two_chunks)") auto
  have "fst (snd (open_target log_api [] 80 3 (new_log_world two_chunks))) = None"
    "fst (sk_socket log_api (new_log_world two_chunks)) = 4" by code_simp+
  with target_failure_closes [OF logged.socket_log_axioms run] run show ?thesis
    by (simp add: new_log_world_def)
qed

end
