(* ===== verification/Session.thy ===== *)
theory Session
  imports Wire_Format Machine
begin

text \<open>
  The FIX session of \<open>src/session.cpp\<close> and \<open>include/fixure/session.hpp\<close>: the counters,
  the header it prepares and the handling of one received message.  The sending time is
  an argument (the reading of the system clock, formatted by \<open>get_sending_time\<close>).
  Incrementing a counter at the top of its range is undefined behaviour and is a result
  of the model.
\<close>

record session_config =
  sc_begin_string :: string
  sc_sender_comp_id :: string
  sc_target_comp_id :: string
  sc_heartbeat_interval :: int

definition default_config :: session_config where
  "default_config = \<lparr>sc_begin_string = ''FIX.4.2'', sc_sender_comp_id = [],
     sc_target_comp_id = [], sc_heartbeat_interval = 30\<rparr>"

record fix_session =
  s_config :: session_config
  s_next_out :: int
  s_next_in :: int
  s_logged_on :: bool

definition new_session :: "session_config \<Rightarrow> fix_session" where
  "new_session cfg = \<lparr>s_config = cfg, s_next_out = 1, s_next_in = 1, s_logged_on = False\<rparr>"

definition set_next_out_seq_num :: "int \<Rightarrow> fix_session \<Rightarrow> fix_session" where
  "set_next_out_seq_num n s = s\<lparr>s_next_out := n\<rparr>"

definition set_next_in_seq_num :: "int \<Rightarrow> fix_session \<Rightarrow> fix_session" where
  "set_next_in_seq_num n s = s\<lparr>s_next_in := n\<rparr>"

datatype session_action =
    NoAction | SendLogon | SendHeartbeat | SendReject | SendResendRequest | ResetSequence
  | ProcessApplicationMessage | DisconnectAction

fun session_action_name :: "session_action \<Rightarrow> string" where
  "session_action_name NoAction = ''None''"
| "session_action_name SendLogon = ''SendLogon''"
| "session_action_name SendHeartbeat = ''SendHeartbeat''"
| "session_action_name SendReject = ''SendReject''"
| "session_action_name SendResendRequest = ''SendResendRequest''"
| "session_action_name ResetSequence = ''ResetSequence''"
| "session_action_name ProcessApplicationMessage = ''ProcessApplicationMessage''"
| "session_action_name DisconnectAction = ''Disconnect''"

record process_result =
  pr_action :: session_action
  pr_detail :: int
  pr_info :: string

definition result_of :: "session_action \<Rightarrow> int \<Rightarrow> string \<Rightarrow> process_result" where
  "result_of a d i = \<lparr>pr_action = a, pr_detail = d, pr_info = i\<rparr>"

section \<open>Outgoing side\<close>

text \<open>
  \<open>prepare_header\<close> fills a buffer of \<open>room\<close> fields; the result is the list of the fields
  it populated (none when the buffer is too small).
\<close>

definition prepare_header :: "fix_session \<Rightarrow> string \<Rightarrow> nat \<Rightarrow> string \<Rightarrow> fix_field list" where
  "prepare_header s msg_type room time_str =
     (if room < 6 then []
      else [\<lparr>ftag = 8, fvalue = sc_begin_string (s_config s)\<rparr>,
            \<lparr>ftag = 35, fvalue = msg_type\<rparr>,
            \<lparr>ftag = 49, fvalue = sc_sender_comp_id (s_config s)\<rparr>,
            \<lparr>ftag = 56, fvalue = sc_target_comp_id (s_config s)\<rparr>,
            \<lparr>ftag = 34, fvalue = show_int (s_next_out s)\<rparr>,
            \<lparr>ftag = 52, fvalue = time_str\<rparr>])"

definition on_message_sent :: "fix_session \<Rightarrow> fix_session cpp" where
  "on_message_sent s = cpp_bind (int_incr (s_next_out s)) (\<lambda>n. Defined (s\<lparr>s_next_out := n\<rparr>))"

section \<open>Incoming side\<close>

text \<open>A message with the expected number, after the counter has moved on.\<close>

definition in_sequence :: "fix_session \<Rightarrow> fix_message \<Rightarrow> string \<Rightarrow> int \<Rightarrow> process_result \<times> fix_session" where
  "in_sequence s m msg_type seq_num =
     (if msg_type = ''0'' then (result_of NoAction 0 ''Heartbeat received'', s)
      else if msg_type = ''1'' then (result_of SendHeartbeat seq_num ''Test Request received'', s)
      else if msg_type = ''2'' then (result_of ResetSequence seq_num ''Resend Request received'', s)
      else if msg_type = ''4'' then
        (case get_int m 36 of
           Some new_seq \<Rightarrow> (result_of NoAction new_seq ''Sequence reset'', s\<lparr>s_next_in := new_seq\<rparr>)
         | None \<Rightarrow> (result_of SendReject 0 ''SequenceReset missing NewSeqNo (36)'', s))
      else if msg_type = ''5'' then
        (result_of DisconnectAction 0 ''Logout received'', s\<lparr>s_logged_on := False\<rparr>)
      else (result_of ProcessApplicationMessage 0 ''Application message processed'', s))"

definition receive_message :: "fix_session \<Rightarrow> fix_message \<Rightarrow> (process_result \<times> fix_session) cpp" where
  "receive_message s m =
     (case get_field m 35 of
        None \<Rightarrow> Defined (result_of SendReject 0 ''Missing MsgType (35)'', s)
      | Some msg_type \<Rightarrow>
          (case get_int m 34 of
             None \<Rightarrow> Defined (result_of SendReject 0 ''Missing MsgSeqNum (34)'', s)
           | Some seq_num \<Rightarrow>
               if \<not> s_logged_on s then
                 if msg_type \<noteq> ''A'' then
                   Defined (result_of DisconnectAction 0 ''First message must be Logon (35=A)'', s)
                 else cpp_bind (int_incr seq_num) (\<lambda>n.
                   Defined (result_of SendLogon seq_num ''Logon processed'',
                     s\<lparr>s_logged_on := True, s_next_in := n\<rparr>))
               else if seq_num = s_next_in s then
                 cpp_bind (int_incr (s_next_in s)) (\<lambda>n.
                   Defined (in_sequence (s\<lparr>s_next_in := n\<rparr>) m msg_type seq_num))
               else if seq_num > s_next_in s then
                 Defined (result_of SendResendRequest (s_next_in s) ''Gap detected'', s)
               else if get_field m 43 = Some ''Y'' then
                 Defined (result_of NoAction 0 ''Duplicate message ignored'', s)
               else Defined (result_of DisconnectAction 0 ''Sequence number too low'', s)))"

section \<open>Invariant\<close>

definition session_ok :: "fix_session \<Rightarrow> bool" where
  "session_ok s \<longleftrightarrow> int32 (s_next_out s) \<and> int32 (s_next_in s)"

lemma session_ok_new: "session_ok (new_session cfg)"
  by (simp add: session_ok_def new_session_def int32_def int_min_def int_max_def)

lemma get_int_int32: "get_int m t = Some n \<Longrightarrow> int32 n"
  by (auto simp: get_int_def dest: from_chars_int32 split: option.splits from_chars_result.splits)

lemma in_sequence_ok: "session_ok s \<Longrightarrow> in_sequence s m mt n = (r, s') \<Longrightarrow> session_ok s'"
  by (auto simp: in_sequence_def session_ok_def get_int_int32 split: if_splits option.splits)

text \<open>The six outcomes of a defined step, for case analysis.\<close>

lemma receive_message_cases:
  assumes "receive_message s m = Defined (r, s')"
  obtains (reject) "get_field m 35 = None \<or> get_int m 34 = None" "pr_action r = SendReject" "s' = s"
  | (not_logon) mt n where "get_field m 35 = Some mt" "get_int m 34 = Some n" "\<not> s_logged_on s"
      "mt \<noteq> ''A''" "pr_action r = DisconnectAction" "s' = s"
  | (logon) n where "get_field m 35 = Some ''A''" "get_int m 34 = Some n" "\<not> s_logged_on s"
      "n < int_max" "pr_action r = SendLogon" "s' = s\<lparr>s_logged_on := True, s_next_in := n + 1\<rparr>"
  | (expected) mt where "get_field m 35 = Some mt" "get_int m 34 = Some (s_next_in s)" "s_logged_on s"
      "s_next_in s < int_max" "(r, s') = in_sequence (s\<lparr>s_next_in := s_next_in s + 1\<rparr>) m mt (s_next_in s)"
  | (gap) mt n where "get_field m 35 = Some mt" "get_int m 34 = Some n" "s_logged_on s"
      "s_next_in s < n" "pr_action r = SendResendRequest" "pr_detail r = s_next_in s" "s' = s"
  | (low) mt n where "get_field m 35 = Some mt" "get_int m 34 = Some n" "s_logged_on s"
      "n < s_next_in s" "pr_action r = (if get_field m 43 = Some ''Y'' then NoAction else DisconnectAction)"
      "s' = s"
proof -
  have lt: "k < int_max" if "get_int m 34 = Some k" "k \<noteq> int_max" for k
    using get_int_int32 [OF that(1)] that(2) by (simp add: int32_def)
  show thesis
  proof (cases "get_field m 35")
    case None
    with assms show thesis by (intro reject) (auto simp: receive_message_def result_of_def)
  next
    case (Some mt)
    note mt = this
    show thesis
    proof (cases "get_int m 34")
      case None
      with mt assms show thesis by (intro reject) (auto simp: receive_message_def result_of_def)
    next
      case (Some n)
      note step = assms [unfolded receive_message_def mt Some option.case]
      show thesis
      proof (cases "s_logged_on s")
        case False
        show thesis
        proof (cases "mt = ''A''")
          case True
          with step False mt Some lt [of n] show thesis
            by (intro logon [of n]) (auto simp: int_incr_def result_of_def split: if_splits)
        next
          case notA: False
          with step False mt Some show thesis
            by (intro not_logon [of mt n]) (auto simp: result_of_def)
        qed
      next
        case on: True
        consider "n = s_next_in s" | "n > s_next_in s" | "n < s_next_in s" by linarith
        then show thesis
        proof cases
          case 1
          with step on mt Some lt [of n] show thesis
            by (intro expected [of mt]) (auto simp: int_incr_def split: if_splits)
        next
          case 2
          with step on mt Some show thesis by (intro gap [of mt n]) (auto simp: result_of_def)
        next
          case 3
          with step on mt Some show thesis
            by (intro low [of mt n]) (auto simp: result_of_def split: if_splits)
        qed
      qed
    qed
  qed
qed

lemma receive_message_ok:
  assumes "session_ok s" "receive_message s m = Defined (r, s')"
  shows "session_ok s'"
  using assms(2)
proof (cases rule: receive_message_cases)
  case (logon n)
  with assms(1) get_int_int32 [of m 34 n] show ?thesis
    by (simp add: session_ok_def int32_def)
next
  case (expected mt)
  have "session_ok (s\<lparr>s_next_in := s_next_in s + 1\<rparr>)"
    using assms(1) expected(4) by (simp add: session_ok_def int32_def)
  with expected(5) show ?thesis by (metis in_sequence_ok)
qed (use assms(1) in simp_all)

interpretation session: invariant_machine receive_message "\<lambda>s. \<exists>cfg. s = new_session cfg" session_ok
  by unfold_locales (auto simp: session_ok_new intro: receive_message_ok)

definition session_run :: "fix_session \<Rightarrow> fix_message list \<Rightarrow> (process_result list \<times> fix_session) cpp" where
  "session_run = run_steps receive_message"

section \<open>Delivery\<close>

definition msg_type_is :: "fix_message \<Rightarrow> string \<Rightarrow> bool" where
  "msg_type_is m t \<longleftrightarrow> get_field m 35 = Some t"

text \<open>Sequence resets and logouts rewrite the session state; other messages only count.\<close>

definition plain_message :: "fix_message \<Rightarrow> bool" where
  "plain_message m \<longleftrightarrow> \<not> msg_type_is m ''4'' \<and> \<not> msg_type_is m ''5''"

definition application_message :: "fix_message \<Rightarrow> bool" where
  "application_message m \<longleftrightarrow> get_field m 35 \<noteq> None \<and>
     get_field m 35 \<notin> {Some ''0'', Some ''1'', Some ''2'', Some ''4'', Some ''5''}"

text \<open>The sequence numbers handed to the application, in the order of processing.\<close>

fun delivered :: "process_result list \<Rightarrow> fix_message list \<Rightarrow> int list" where
  "delivered (r # rs) (m # ms) =
     (if pr_action r = ProcessApplicationMessage
      then (case get_int m 34 of Some n \<Rightarrow> n # delivered rs ms | None \<Rightarrow> delivered rs ms)
      else delivered rs ms)"
| "delivered _ _ = []"

lemma in_sequence_plain:
  "plain_message m \<Longrightarrow> get_field m 35 = Some mt \<Longrightarrow> in_sequence s m mt n = (r, s') \<Longrightarrow> s' = s"
  by (auto simp: in_sequence_def plain_message_def msg_type_is_def split: if_splits)

lemma receive_plain:
  assumes "receive_message s m = Defined (r, s')" "s_logged_on s" "plain_message m"
  shows "(get_int m 34 = Some (s_next_in s) \<and> s' = s\<lparr>s_next_in := s_next_in s + 1\<rparr>) \<or>
    (s' = s \<and> pr_action r \<noteq> ProcessApplicationMessage)"
  using assms(1)
proof (cases rule: receive_message_cases)
  case (expected mt)
  with in_sequence_plain [OF assms(3) expected(1)] show ?thesis by metis
qed (use assms(2) in simp_all)

lemma run_delivered_in_order:
  assumes "session_run s ms = Defined (rs, s')" "s_logged_on s" "\<forall>m\<in>set ms. plain_message m"
  shows "s_logged_on s' \<and> s_next_in s \<le> s_next_in s' \<and>
    sorted_wrt (<) (delivered rs ms) \<and> set (delivered rs ms) \<subseteq> {s_next_in s ..< s_next_in s'}"
  using assms
proof (induction ms arbitrary: s rs)
  case Nil
  then show ?case by (simp add: session_run_def)
next
  case (Cons m ms)
  from Cons.prems(1) obtain r s1 rs1 where
    step: "receive_message s m = Defined (r, s1)" and
    run: "session_run s1 ms = Defined (rs1, s')" and rs: "rs = r # rs1"
    unfolding session_run_def by (rule run_steps_ConsE)
  from receive_plain [OF step] Cons.prems(2,3)
  have alt: "(get_int m 34 = Some (s_next_in s) \<and> s1 = s\<lparr>s_next_in := s_next_in s + 1\<rparr>) \<or>
      (s1 = s \<and> pr_action r \<noteq> ProcessApplicationMessage)" by simp
  with Cons.prems(2) have "s_logged_on s1" by auto
  with Cons.IH [OF run] Cons.prems(3) have IH: "s_logged_on s'" "s_next_in s1 \<le> s_next_in s'"
    "sorted_wrt (<) (delivered rs1 ms)" "set (delivered rs1 ms) \<subseteq> {s_next_in s1 ..< s_next_in s'}"
    by simp_all
  from alt show ?case
  proof
    assume "get_int m 34 = Some (s_next_in s) \<and> s1 = s\<lparr>s_next_in := s_next_in s + 1\<rparr>"
    with IH rs show ?thesis by (auto simp: subset_iff)
  next
    assume "s1 = s \<and> pr_action r \<noteq> ProcessApplicationMessage"
    with IH rs show ?thesis by simp
  qed
qed

text \<open>A message with the expected number is always taken.\<close>

lemma receive_expected:
  assumes "get_field m 35 = Some mt" "get_int m 34 = Some (s_next_in s)" "s_logged_on s"
    "s_next_in s < int_max"
  shows "receive_message s m =
     Defined (in_sequence (s\<lparr>s_next_in := s_next_in s + 1\<rparr>) m mt (s_next_in s))"
  using assms by (simp add: receive_message_def int_incr_def)

lemma in_sequence_application:
  "application_message m \<Longrightarrow> get_field m 35 = Some mt \<Longrightarrow>
     in_sequence s m mt n = (result_of ProcessApplicationMessage 0 ''Application message processed'', s)"
  by (auto simp: in_sequence_def application_message_def)

definition numbered_from :: "int \<Rightarrow> fix_message list \<Rightarrow> bool" where
  "numbered_from n ms \<longleftrightarrow> (\<forall>i<length ms. get_int (ms ! i) 34 = Some (n + int i))"

lemma numbered_from_simps [simp]:
  "numbered_from n []"
  "numbered_from n (m # ms) \<longleftrightarrow> get_int m 34 = Some n \<and> numbered_from (n + 1) ms"
  by (auto simp: numbered_from_def All_less_Suc2 algebra_simps)

lemma run_consecutive:
  assumes "s_logged_on s" "numbered_from (s_next_in s) ms" "\<forall>m\<in>set ms. application_message m"
    "s_next_in s + int (length ms) \<le> int_max"
  shows "\<exists>rs. session_run s ms = Defined (rs, s\<lparr>s_next_in := s_next_in s + int (length ms)\<rparr>) \<and>
    delivered rs ms = [s_next_in s .. s_next_in s + int (length ms) - 1]"
  using assms
proof (induction ms arbitrary: s)
  case Nil
  then show ?case by (simp add: session_run_def)
next
  case (Cons m ms)
  let ?s1 = "s\<lparr>s_next_in := s_next_in s + 1\<rparr>"
  let ?r = "result_of ProcessApplicationMessage 0 ''Application message processed''"
  from Cons.prems(3) obtain mt where mt: "get_field m 35 = Some mt" "application_message m"
    by (auto simp: application_message_def)
  have step: "receive_message s m = Defined (?r, ?s1)"
    using receive_expected [OF mt(1) _ Cons.prems(1)] Cons.prems(2,4)
    by (simp add: in_sequence_application [OF mt(2,1)])
  have "\<exists>rs. session_run ?s1 ms = Defined (rs, ?s1\<lparr>s_next_in := s_next_in ?s1 + int (length ms)\<rparr>) \<and>
      delivered rs ms = [s_next_in ?s1 .. s_next_in ?s1 + int (length ms) - 1]"
    by (rule Cons.IH) (use Cons.prems in auto)
  then obtain rs where rs: "session_run ?s1 ms = Defined (rs, s\<lparr>s_next_in := s_next_in s + int (length (m # ms))\<rparr>)"
      "delivered rs ms = [s_next_in s + 1 .. s_next_in s + int (length (m # ms)) - 1]"
    by (auto simp: algebra_simps)
  have "delivered (?r # rs) (m # ms) = s_next_in s # [s_next_in s + 1 .. s_next_in s + int (length (m # ms)) - 1]"
    using Cons.prems(2) rs(2) by (simp add: result_of_def)
  also have "\<dots> = [s_next_in s .. s_next_in s + int (length (m # ms)) - 1]"
    by (rule upto_rec1 [symmetric]) simp
  finally show ?case
    using rs(1) step by (intro exI [of _ "?r # rs"]) (simp add: session_run_def)
qed

section \<open>Properties\<close>

text \<open>
  C6: over any run of messages that contains no sequence reset and no logout, a
  logged-on session hands application messages up in strictly increasing order of their
  sequence numbers, each at most once, and only numbers the counter has passed.
\<close>

theorem delivery_in_order:
  assumes "session_run s ms = Defined (rs, s')" "s_logged_on s" "\<forall>m\<in>set ms. plain_message m"
  shows "sorted_wrt (<) (delivered rs ms) \<and> distinct (delivered rs ms) \<and>
    set (delivered rs ms) \<subseteq> {s_next_in s ..< s_next_in s'} \<and> s_logged_on s'"
  using run_delivered_in_order [OF assms] by (simp add: strict_sorted_iff)

definition sample_message :: "string \<Rightarrow> int \<Rightarrow> fix_message" where
  "sample_message t n =
     \<lparr>m_raw = [], m_fields = [\<lparr>ftag = 35, fvalue = t\<rparr>, \<lparr>ftag = 34, fvalue = show_int n\<rparr>]\<rparr>"

definition sample_session :: fix_session where
  "sample_session = (new_session default_config)\<lparr>s_logged_on := True, s_next_in := 2\<rparr>"

theorem delivery_in_order_witness:
  "\<exists>rs s'. session_run sample_session [sample_message ''D'' 2, sample_message ''D'' 5,
       sample_message ''0'' 3, sample_message ''8'' 4] = Defined (rs, s') \<and>
     delivered rs [sample_message ''D'' 2, sample_message ''D'' 5,
       sample_message ''0'' 3, sample_message ''8'' 4] = [2, 4] \<and> distinct [2, 4 :: int]"
proof -
  let ?ms = "[sample_message ''D'' 2, sample_message ''D'' 5, sample_message ''0'' 3, sample_message ''8'' 4]"
  have "case session_run sample_session ?ms of
      Undefined \<Rightarrow> False | Defined (rs, s') \<Rightarrow> delivered rs ?ms = [2, 4]" by code_simp
  then obtain rs s' where run: "session_run sample_session ?ms = Defined (rs, s')"
    "delivered rs ?ms = [2, 4]"
    by (auto split: cpp.splits)
  have "s_logged_on sample_session" "\<forall>m\<in>set ?ms. plain_message m" by code_simp+
  from delivery_in_order [OF run(1) this] run show ?thesis by auto
qed

text \<open>
  C7: a gap is recovered.  When a message arrives ahead of the expected number the
  session asks for a resend from exactly that number and its state does not change; the
  missing messages and the early one, sent again in order, are all handed up, and the
  counter ends one past the early message.
\<close>

theorem gap_recovery:
  assumes "s_logged_on s" "get_field g 35 \<noteq> None" "get_int g 34 = Some n" "s_next_in s < n" "n < int_max"
    and "numbered_from (s_next_in s) ms" "int (length ms) = n + 1 - s_next_in s"
    and "\<forall>m\<in>set ms. application_message m"
  shows "\<exists>r rs. session_run s (g # ms) = Defined (r # rs, s\<lparr>s_next_in := n + 1\<rparr>) \<and>
    pr_action r = SendResendRequest \<and> pr_detail r = s_next_in s \<and>
    delivered (r # rs) (g # ms) = [s_next_in s .. n]"
proof -
  let ?r = "result_of SendResendRequest (s_next_in s) ''Gap detected''"
  have step: "receive_message s g = Defined (?r, s)"
    using assms(1-4) by (auto simp: receive_message_def)
  have len: "s_next_in s + int (length ms) = n + 1" using assms(7) by simp
  obtain rs where rs: "session_run s ms = Defined (rs, s\<lparr>s_next_in := n + 1\<rparr>)"
      "delivered rs ms = [s_next_in s .. n]"
    using run_consecutive [OF assms(1,6,8)] assms(5) unfolding len by auto
  then show ?thesis
    using step by (intro exI [of _ ?r] exI [of _ rs]) (simp add: session_run_def result_of_def)
qed

theorem gap_recovery_witness:
  "\<exists>r rs. session_run sample_session (sample_message ''D'' 4 #
        [sample_message ''D'' 2, sample_message ''8'' 3, sample_message ''D'' 4]) =
      Defined (r # rs, sample_session\<lparr>s_next_in := 5\<rparr>) \<and> pr_detail r = 2"
proof -
  let ?g = "sample_message ''D'' 4"
  let ?ms = "[sample_message ''D'' 2, sample_message ''8'' 3, sample_message ''D'' 4]"
  have s: "s_logged_on sample_session" "s_next_in sample_session = 2"
    by (simp_all add: sample_session_def)
  have g: "get_field ?g 35 \<noteq> None" "get_int ?g 34 = Some 4" by code_simp+
  have "numbered_from 2 ?ms" unfolding numbered_from_simps by code_simp
  moreover have "\<forall>m\<in>set ?ms. application_message m" by code_simp
  ultimately show ?thesis
    using gap_recovery [OF s(1) g(1,2), of ?ms] s(2) by (auto simp: int_max_def)
qed

text \<open>
  Receiving a message is undefined behaviour exactly when it carries the largest
  \<open>int\<close> as sequence number and the session would step past it: on a logon, or when the
  counter has got there.
\<close>

theorem receive_undefined_iff:
  "receive_message s m = Undefined \<longleftrightarrow>
     get_int m 34 = Some int_max \<and>
     (if s_logged_on s then get_field m 35 \<noteq> None \<and> s_next_in s = int_max
      else get_field m 35 = Some ''A'')"
  by (auto simp: receive_message_def int_incr_def split: option.splits)

text \<open>
  Until a logon arrives a new session hands up nothing, replies only with a reject
  or a disconnect, and its state stays that of a new session.
\<close>

theorem nothing_before_logon:
  assumes "\<forall>m\<in>set ms. \<not> msg_type_is m ''A''"
  shows "\<exists>rs. session_run (new_session cfg) ms = Defined (rs, new_session cfg) \<and>
    (\<forall>r\<in>set rs. pr_action r = SendReject \<or> pr_action r = DisconnectAction) \<and> delivered rs ms = []"
  using assms
proof (induction ms)
  case Nil
  then show ?case by (simp add: session_run_def)
next
  case (Cons m ms)
  then obtain rs where rs: "session_run (new_session cfg) ms = Defined (rs, new_session cfg)"
    "\<forall>r\<in>set rs. pr_action r = SendReject \<or> pr_action r = DisconnectAction" "delivered rs ms = []"
    by auto
  have "\<exists>r. receive_message (new_session cfg) m = Defined (r, new_session cfg) \<and>
      (pr_action r = SendReject \<or> pr_action r = DisconnectAction)"
    using Cons.prems
    by (auto simp: receive_message_def new_session_def msg_type_is_def result_of_def split: option.split)
  then obtain r where "receive_message (new_session cfg) m = Defined (r, new_session cfg)"
    "pr_action r = SendReject \<or> pr_action r = DisconnectAction" by blast
  with rs show ?case
    by (intro exI [of _ "r # rs"]) (auto simp: session_run_def)
qed

theorem nothing_before_logon_witness:
  "\<exists>rs. session_run (new_session default_config) [sample_message ''D'' 1, sample_message ''0'' 2] =
     Defined (rs, new_session default_config) \<and> delivered rs [sample_message ''D'' 1, sample_message ''0'' 2] = []"
proof -
  have "\<forall>m\<in>set [sample_message ''D'' 1, sample_message ''0'' 2]. \<not> msg_type_is m ''A''" by code_simp
  from nothing_before_logon [OF this, of default_config] show ?thesis by blast
qed

text \<open>
  A sequence reset may move the counter backwards, and then an application message
  with a number already used is handed up a second time.
\<close>

theorem reset_redelivers:
  assumes "s_logged_on s" "s_next_in s = k" "k + 1 < int_max"
    and "application_message a" "get_int a 34 = Some k"
    and "msg_type_is r ''4''" "get_int r 34 = Some (k + 1)" "get_int r 36 = Some k"
  shows "\<exists>rs. session_run s [a, r, a] = Defined (rs, s\<lparr>s_next_in := k + 1\<rparr>) \<and>
    delivered rs [a, r, a] = [k, k]"
proof -
  from assms(4) obtain mt where mt: "get_field a 35 = Some mt" by (auto simp: application_message_def)
  have a: "receive_message t a = Defined (result_of ProcessApplicationMessage 0
      ''Application message processed'', t\<lparr>s_next_in := k + 1\<rparr>)"
    if "s_logged_on t" "s_next_in t = k" for t
    using receive_expected [OF mt, of t] that assms(3,5) in_sequence_application [OF assms(4) mt] by simp
  let ?s1 = "s\<lparr>s_next_in := k + 1\<rparr>"
  have r: "receive_message ?s1 r = Defined (result_of NoAction k ''Sequence reset'', s\<lparr>s_next_in := k\<rparr>)"
    using receive_expected [of r "''4''" ?s1] assms
    by (simp add: msg_type_is_def in_sequence_def)
  show ?thesis
    using a [of s] r a [of "s\<lparr>s_next_in := k\<rparr>"] assms(1,2,5)
    by (simp add: session_run_def result_of_def)
qed

theorem reset_redelivers_witness:
  "\<exists>rs. session_run sample_session
      [sample_message ''D'' 2,
       \<lparr>m_raw = [], m_fields = [\<lparr>ftag = 35, fvalue = ''4''\<rparr>, \<lparr>ftag = 34, fvalue = ''3''\<rparr>, \<lparr>ftag = 36, fvalue = ''2''\<rparr>]\<rparr>,
       sample_message ''D'' 2] = Defined (rs, sample_session\<lparr>s_next_in := 3\<rparr>) \<and>
     delivered rs [sample_message ''D'' 2,
       \<lparr>m_raw = [], m_fields = [\<lparr>ftag = 35, fvalue = ''4''\<rparr>, \<lparr>ftag = 34, fvalue = ''3''\<rparr>, \<lparr>ftag = 36, fvalue = ''2''\<rparr>]\<rparr>,
       sample_message ''D'' 2] = [2, 2]"
proof -
  let ?a = "sample_message ''D'' 2"
  let ?r = "\<lparr>m_raw = [], m_fields = [\<lparr>ftag = 35, fvalue = ''4''\<rparr>, \<lparr>ftag = 34, fvalue = ''3''\<rparr>, \<lparr>ftag = 36, fvalue = ''2''\<rparr>]\<rparr>"
  have s: "s_logged_on sample_session" "s_next_in sample_session = 2" "(2::int) + 1 < int_max"
    by (simp_all add: sample_session_def int_max_def)
  have m: "application_message ?a" "get_int ?a 34 = Some 2" "msg_type_is ?r ''4''"
    "get_int ?r 34 = Some (2 + 1)" "get_int ?r 36 = Some 2" by code_simp+
  from reset_redelivers [OF s m] show ?thesis by simp
qed

text \<open>
  The counters of every reachable session state stay in the range of \<open>int\<close>.
\<close>

theorem reachable_counters_in_range:
  assumes "session_run (new_session cfg) ms = Defined (rs, s)"
  shows "int32 (s_next_in s) \<and> int32 (s_next_out s) \<and> length rs = length ms"
  using session.reachable_inv [of "new_session cfg" ms rs s] run_steps_length assms
  by (fastforce simp: session_run_def session_ok_def)

theorem reachable_counters_in_range_witness:
  "\<exists>rs s. session_run (new_session default_config) [sample_message ''A'' 7] = Defined (rs, s) \<and>
     s_next_in s = 8 \<and> int32 (s_next_in s)"
proof -
  have "case session_run (new_session default_config) [sample_message ''A'' 7] of
      Undefined \<Rightarrow> False | Defined (rs, s) \<Rightarrow> s_next_in s = 8" by code_simp
  then obtain rs s where run: "session_run (new_session default_config) [sample_message ''A'' 7] = Defined (rs, s)"
    and "s_next_in s = 8" by (auto split: cpp.splits)
  with reachable_counters_in_range [OF run] show ?thesis by blast
qed

end
