(* ===== verification/Scenario.thy ===== *)
theory Scenario
  imports Parser
begin

text \<open>
  The scenario language of \<open>src/scenario.cpp\<close> and \<open>include/fixure/scenario.hpp\<close>:
  the steps, the builder calls and the parser of scenario files.  A step owns the strings
  of its fields in a pool, as the code keeps them; line numbers count from 1.
\<close>

section \<open>Steps and the builder\<close>

datatype action_type = Connect | Send | Expect | Mock | Disconnect

fun action_name :: "action_type \<Rightarrow> string" where
  "action_name Connect = ''CONNECT''"
| "action_name Send = ''SEND''"
| "action_name Expect = ''EXPECT''"
| "action_name Mock = ''MOCK''"
| "action_name Disconnect = ''DISCONNECT''"

record scenario_step =
  st_type :: action_type
  st_fields :: "fix_field list"
  st_pool :: "string list"

record scenario =
  sc_name :: string
  sc_steps :: "scenario_step list"

definition new_scenario :: "string \<Rightarrow> scenario" where
  "new_scenario name = \<lparr>sc_name = name, sc_steps = []\<rparr>"

definition add_step :: "action_type \<Rightarrow> fix_field list \<Rightarrow> scenario \<Rightarrow> scenario" where
  "add_step type flds sc =
     (let pool = map fvalue flds;
          views = map (\<lambda>i. \<lparr>ftag = ftag (flds ! i), fvalue = pool ! i\<rparr>) [0..<length flds]
      in sc\<lparr>sc_steps := sc_steps sc @ [\<lparr>st_type = type, st_fields = views, st_pool = pool\<rparr>]\<rparr>)"

definition sc_connect :: "scenario \<Rightarrow> scenario" where "sc_connect sc = add_step Connect [] sc"
definition sc_send :: "fix_field list \<Rightarrow> scenario \<Rightarrow> scenario" where "sc_send fs sc = add_step Send fs sc"
definition sc_expect :: "fix_field list \<Rightarrow> scenario \<Rightarrow> scenario" where "sc_expect fs sc = add_step Expect fs sc"
definition sc_mock :: "fix_field list \<Rightarrow> scenario \<Rightarrow> scenario" where "sc_mock fs sc = add_step Mock fs sc"
definition sc_disconnect :: "scenario \<Rightarrow> scenario" where "sc_disconnect sc = add_step Disconnect [] sc"

section \<open>Trimming\<close>

definition blank :: "char \<Rightarrow> bool" where
  "blank c \<longleftrightarrow> c = CHR '' '' \<or> c = CHR 0x09 \<or> c = CHR 0x0D \<or> c = CHR 0x0A"

definition find_first_not :: "(char \<Rightarrow> bool) \<Rightarrow> string \<Rightarrow> nat option" where
  "find_first_not P s =
     (let i = length (takeWhile P s) in if i = length s then None else Some i)"

definition find_last_not :: "(char \<Rightarrow> bool) \<Rightarrow> string \<Rightarrow> nat option" where
  "find_last_not P s =
     (let i = length (takeWhile P (rev s)) in if i = length s then None else Some (length s - 1 - i))"

definition trim :: "string \<Rightarrow> string" where
  "trim str =
     (case find_first_not blank str of
        None \<Rightarrow> []
      | Some start \<Rightarrow>
          (case find_last_not blank str of
             None \<Rightarrow> []
           | Some end \<Rightarrow> sv_substr str start (end - start + 1)))"

section \<open>The parser\<close>

definition line_error :: "nat \<Rightarrow> string \<Rightarrow> string" where
  "line_error line_num what = ''Line '' @ show_nat line_num @ '': '' @ what"

definition action_of :: "string \<Rightarrow> action_type option" where
  "action_of cmd =
     (if cmd = ''CONNECT'' then Some Connect
      else if cmd = ''SEND'' then Some Send
      else if cmd = ''EXPECT'' then Some Expect
      else if cmd = ''MOCK'' then Some Mock
      else if cmd = ''DISCONNECT'' then Some Disconnect
      else None)"

text \<open>One non-empty field token.\<close>

definition parse_token :: "nat \<Rightarrow> string \<Rightarrow> string + fix_field" where
  "parse_token line_num token =
     (case sv_find token (CHR ''='') 0 of
        None \<Rightarrow> Inl (line_error line_num (''Invalid field format '' @ [single_quote] @ token @ [single_quote]))
      | Some eq_pos \<Rightarrow>
          (let tag_str = trim (sv_substr token 0 eq_pos);
               val_str = trim (drop (eq_pos + 1) token)
           in case from_chars tag_str of
                FC_ok t _ \<Rightarrow> Inr \<lparr>ftag = t, fvalue = val_str\<rparr>
              | _ \<Rightarrow> Inl (line_error line_num (''Invalid tag number '' @ [single_quote] @ tag_str @ [single_quote]))))"

definition next_delimiter :: "string \<Rightarrow> nat \<Rightarrow> nat option" where
  "next_delimiter args field_pos =
     (case sv_find args (CHR ''|'') field_pos of
        None \<Rightarrow> sv_find args SOH field_pos
      | Some p \<Rightarrow> Some p)"

lemma next_delimiter_bounds: "next_delimiter args p = Some q \<Longrightarrow> p \<le> q \<and> q < length args"
  by (auto simp: next_delimiter_def split: option.splits dest!: sv_find_bounds)

function parse_fields :: "nat \<Rightarrow> string \<Rightarrow> nat \<Rightarrow> fix_field list \<Rightarrow> string + fix_field list" where
  "parse_fields line_num args field_pos flds =
     (if field_pos < length args then
        (let next_pipe = next_delimiter args field_pos;
             token = trim (case next_pipe of
                 None \<Rightarrow> drop field_pos args
               | Some p \<Rightarrow> sv_substr args field_pos (p - field_pos));
             field_pos' = (case next_pipe of None \<Rightarrow> length args | Some p \<Rightarrow> p + 1)
         in if token = [] then parse_fields line_num args field_pos' flds
            else case parse_token line_num token of
                   Inl e \<Rightarrow> Inl e
                 | Inr f \<Rightarrow> parse_fields line_num args field_pos' (flds @ [f]))
      else Inr flds)"
  by pat_completeness auto
termination
  by (relation "measure (\<lambda>(n, args, p, fs). length args - p)")
    (auto dest!: next_delimiter_bounds split: option.splits)

declare parse_fields.simps [simp del]

text \<open>One line: an error, nothing (a blank line or a comment), or a step.\<close>

definition word_break :: "char \<Rightarrow> bool" where
  "word_break c \<longleftrightarrow> c = CHR '' '' \<or> c = CHR 0x09"

definition parse_line :: "nat \<Rightarrow> string \<Rightarrow> string + (action_type \<times> fix_field list) option" where
  "parse_line line_num line_raw =
     (let line = trim line_raw in
      if line = [] \<or> prefix ''#'' line then Inr None
      else
        (let space_pos = length (takeWhile (\<lambda>c. \<not> word_break c) line);
             cmd = (if space_pos = length line then line else sv_substr line 0 space_pos);
             args = trim (if space_pos = length line then [] else drop space_pos line)
         in case action_of cmd of
              None \<Rightarrow> Inl (line_error line_num (''Unknown command '' @ cmd))
            | Some type \<Rightarrow>
                (case parse_fields line_num args 0 [] of
                   Inl e \<Rightarrow> Inl e
                 | Inr flds \<Rightarrow> Inr (Some (type, flds)))))"

function dsl_loop :: "string \<Rightarrow> nat \<Rightarrow> nat \<Rightarrow> scenario \<Rightarrow> string + scenario" where
  "dsl_loop dsl pos line_num sc =
     (if pos < length dsl then
        (let next_line = sv_find dsl newline pos;
             line_raw = (case next_line of None \<Rightarrow> drop pos dsl | Some p \<Rightarrow> sv_substr dsl pos (p - pos));
             pos' = (case next_line of None \<Rightarrow> length dsl | Some p \<Rightarrow> p + 1);
             line_num' = line_num + 1
         in case parse_line line_num' line_raw of
              Inl e \<Rightarrow> Inl e
            | Inr None \<Rightarrow> dsl_loop dsl pos' line_num' sc
            | Inr (Some (type, flds)) \<Rightarrow> dsl_loop dsl pos' line_num' (add_step type flds sc))
      else Inr sc)"
  by pat_completeness auto
termination
  by (relation "measure (\<lambda>(dsl, p, n, sc). length dsl - p)")
    (auto dest!: sv_find_bounds split: option.splits)

declare dsl_loop.simps [simp del]

definition parse_dsl :: "string \<Rightarrow> string + scenario" where
  "parse_dsl dsl = dsl_loop dsl 0 0 (new_scenario ''ParsedScenario'')"

definition load_from_file :: "(string \<Rightarrow> string option) \<Rightarrow> string \<Rightarrow> string + scenario" where
  "load_from_file files path =
     (case files path of
        None \<Rightarrow> Inl (''Could not open scenario file: '' @ path)
      | Some content \<Rightarrow> parse_dsl content)"

section \<open>Lemmas\<close>

lemma add_step_steps:
  "add_step type flds sc = sc\<lparr>sc_steps := sc_steps sc @
     [\<lparr>st_type = type, st_fields = flds, st_pool = map fvalue flds\<rparr>]\<rparr>"
proof -
  have "map (\<lambda>i. \<lparr>ftag = ftag (flds ! i), fvalue = map fvalue flds ! i\<rparr>) [0..<length flds] = flds"
    by (rule nth_equalityI) simp_all
  then show ?thesis by (simp add: add_step_def)
qed

definition trimmed :: "string \<Rightarrow> bool" where
  "trimmed s \<longleftrightarrow> s = [] \<or> \<not> blank (hd s) \<and> \<not> blank (last s)"

lemma trimmed_Nil [simp]: "trimmed []"
  by (simp add: trimmed_def)

lemma trim_padded:
  assumes "list_all blank ps" "list_all blank qs" "trimmed s"
  shows "trim (ps @ s @ qs) = s"
proof (cases "s = []")
  case True
  have "takeWhile blank (ps @ qs) = ps @ qs"
    using assms by (auto simp: takeWhile_eq_all_conv list_all_iff)
  then have "find_first_not blank (ps @ s @ qs) = None"
    by (simp only: find_first_not_def Let_def True append_Nil refl if_True)
  then show ?thesis using True by (simp only: trim_def option.case)
next
  case False
  with assms(3) have s: "\<not> blank (hd s)" "\<not> blank (hd (rev s))" "rev s \<noteq> []"
    by (auto simp: trimmed_def hd_rev)
  have tw: "takeWhile blank (xs @ t @ ys) = xs"
    if "list_all blank xs" "t \<noteq> []" "\<not> blank (hd t)" for xs t ys
    using that by (cases t) (auto simp: list_all_iff takeWhile_append2 takeWhile_tail)
  have "takeWhile blank (ps @ s @ qs) = ps"
    using tw [OF assms(1) False s(1)] .
  moreover have "takeWhile blank (rev (ps @ s @ qs)) = rev qs"
    using tw [of "rev qs" "rev s" "rev ps"] assms(2) s by (simp add: list_all_iff)
  moreover have "length (ps @ s @ qs) - 1 - length qs - length ps + 1 = length s"
    using False by (cases s) simp_all
  ultimately show ?thesis
    using False by (simp add: trim_def find_first_not_def find_last_not_def Let_def sv_substr_def)
qed

lemma trim_trimmed [simp]: "trimmed s \<Longrightarrow> trim s = s"
  using trim_padded [of "[]" "[]" s] by simp

text \<open>The loop over the lines.\<close>

fun parse_lines :: "nat \<Rightarrow> string list \<Rightarrow> scenario \<Rightarrow> string + scenario" where
  "parse_lines n [] sc = Inr sc"
| "parse_lines n (l # ls) sc =
     (case parse_line (n + 1) l of
        Inl e \<Rightarrow> Inl e
      | Inr None \<Rightarrow> parse_lines (n + 1) ls sc
      | Inr (Some (type, flds)) \<Rightarrow> parse_lines (n + 1) ls (add_step type flds sc))"

lemma dsl_loop_line:
  assumes dsl: "dsl = pre @ l @ newline # r" and l: "newline \<notin> set l"
  shows "dsl_loop dsl (length pre) n sc =
     (case parse_line (n + 1) l of
        Inl e \<Rightarrow> Inl e
      | Inr None \<Rightarrow> dsl_loop dsl (length (pre @ l @ [newline])) (n + 1) sc
      | Inr (Some (type, flds)) \<Rightarrow> dsl_loop dsl (length (pre @ l @ [newline])) (n + 1) (add_step type flds sc))"
proof -
  have "sv_find dsl newline (length pre) = Some (length pre + length l)"
    using l by (simp add: dsl sv_find_append index_of_append)
  moreover have "sv_substr dsl (length pre) (length l) = l"
    by (simp add: dsl sv_substr_def)
  moreover have "length pre < length dsl" by (simp add: dsl)
  ultimately show ?thesis
    by (subst dsl_loop.simps) (simp split: sum.split option.split)
qed

lemma dsl_loop_last_line:
  assumes dsl: "dsl = pre @ l" and l: "newline \<notin> set l" "l \<noteq> []"
  shows "dsl_loop dsl (length pre) n sc =
     (case parse_line (n + 1) l of
        Inl e \<Rightarrow> Inl e
      | Inr None \<Rightarrow> Inr sc
      | Inr (Some (type, flds)) \<Rightarrow> Inr (add_step type flds sc))"
proof -
  have "sv_find dsl newline (length pre) = None"
    using l by (simp add: dsl sv_find_append)
  moreover have "drop (length pre) dsl = l" by (simp add: dsl)
  moreover have "length pre < length dsl" using l by (simp add: dsl)
  moreover have "dsl_loop dsl (length dsl) n' sc' = Inr sc'" for n' sc'
    by (simp add: dsl_loop.simps)
  ultimately show ?thesis
    by (subst dsl_loop.simps) (simp add: Let_def split: sum.split option.split)
qed

lemma dsl_loop_lines: "dsl = pre @ s \<Longrightarrow> dsl_loop dsl (length pre) n sc = parse_lines n (split_lines s) sc"
proof (induction "length s" arbitrary: pre s n sc rule: less_induct)
  case less
  show ?case
  proof (cases "newline \<in> set s")
    case True
    then obtain l r where s: "s = l @ newline # r" "newline \<notin> set l"
      by (meson split_list_first)
    have IH: "dsl_loop dsl (length (pre @ l @ [newline])) n' sc' = parse_lines n' (split_lines r) sc'" for n' sc'
      using s less.prems by (intro less.hyps) simp_all
    have "dsl = pre @ l @ newline # r" using s less.prems by simp
    from dsl_loop_line [OF this s(2)] show ?thesis
      unfolding IH s(1) split_lines_line [OF s(2)] parse_lines.simps .
  next
    case False
    show ?thesis
    proof (cases "s = []")
      case True
      with less.prems show ?thesis by (simp add: dsl_loop.simps)
    next
      case ne: False
      from dsl_loop_last_line [OF less.prems False ne] show ?thesis
        unfolding split_lines_last [OF False ne] parse_lines.simps .
    qed
  qed
qed

text \<open>The tags of a parsed scenario are values of \<open>int\<close>.\<close>

definition typed_fields :: "fix_field list \<Rightarrow> bool" where
  "typed_fields fs \<longleftrightarrow> list_all (\<lambda>f. int32 (ftag f)) fs"

definition typed_steps :: "scenario_step list \<Rightarrow> bool" where
  "typed_steps steps \<longleftrightarrow> list_all (\<lambda>step. typed_fields (st_fields step)) steps"

lemma typed_simps [simp]:
  "typed_fields []" "typed_fields (f # fs) \<longleftrightarrow> int32 (ftag f) \<and> typed_fields fs"
  "typed_fields (fs @ gs) \<longleftrightarrow> typed_fields fs \<and> typed_fields gs"
  "typed_steps []" "typed_steps (x # xs) \<longleftrightarrow> typed_fields (st_fields x) \<and> typed_steps xs"
  "typed_steps (xs @ ys) \<longleftrightarrow> typed_steps xs \<and> typed_steps ys"
  by (simp_all add: typed_fields_def typed_steps_def)

lemma parse_fields_typed: "parse_fields n args p fs = Inr gs \<Longrightarrow> typed_fields fs \<Longrightarrow> typed_fields gs"
proof (induction n args p fs rule: parse_fields.induct)
  case (1 n args p fs)
  have token: "int32 (ftag f)" if "parse_token n t = Inr f" for t f
    using that from_chars_int32 by (fastforce simp: parse_token_def Let_def split: option.splits from_chars_result.splits)
  from 1 token show ?case
    by (subst (asm) parse_fields.simps) (auto simp: Let_def split: if_splits sum.splits)
qed

lemma parse_line_typed: "parse_line n l = Inr (Some (type, fs)) \<Longrightarrow> typed_fields fs"
  by (auto simp: parse_line_def Let_def dest: parse_fields_typed split: if_splits option.splits sum.splits)

lemma parse_lines_typed: "parse_lines n ls sc = Inr sc' \<Longrightarrow> typed_steps (sc_steps sc) \<Longrightarrow> typed_steps (sc_steps sc')"
  by (induction n ls sc rule: parse_lines.induct)
    (auto simp: add_step_steps dest: parse_line_typed split: sum.splits option.splits)

lemma parse_dsl_typed: "parse_dsl dsl = Inr sc \<Longrightarrow> typed_steps (sc_steps sc)"
  using parse_lines_typed dsl_loop_lines [of dsl "[]" dsl 0]
  by (auto simp: parse_dsl_def new_scenario_def)

text \<open>The loop over the fields of a line, on rendered fields.\<close>

definition render_field :: "fix_field \<Rightarrow> string" where
  "render_field f = show_int (ftag f) @ CHR ''='' # fvalue f"

fun render_fields :: "fix_field list \<Rightarrow> string" where
  "render_fields [] = []"
| "render_fields [f] = render_field f"
| "render_fields (f # fs) = render_field f @ '' | '' @ render_fields fs"

definition dsl_value :: "string \<Rightarrow> bool" where
  "dsl_value v \<longleftrightarrow> trimmed v \<and> CHR ''|'' \<notin> set v \<and> SOH \<notin> set v \<and> newline \<notin> set v"

definition dsl_field :: "fix_field \<Rightarrow> bool" where
  "dsl_field f \<longleftrightarrow> int32 (ftag f) \<and> dsl_value (fvalue f)"

lemma show_int_notin:
  "\<not> is_digit c \<Longrightarrow> c \<noteq> CHR ''-'' \<Longrightarrow> c \<notin> set (show_int z)"
  using show_int_chars by blast

lemma not_blank_show_int: "c \<in> set (show_int z) \<Longrightarrow> \<not> blank c"
  using show_int_chars [of c z] by (auto simp: is_digit_def blank_def)

lemma trimmed_show_int [simp]: "trimmed (show_int z)"
  using not_blank_show_int [OF hd_in_set [OF show_int_neq_Nil]]
    not_blank_show_int [OF last_in_set [OF show_int_neq_Nil]] by (simp add: trimmed_def)

lemma trimmed_render_field: "dsl_field f \<Longrightarrow> trimmed (render_field f)"
proof -
  assume "dsl_field f"
  then have "fvalue f = [] \<or> \<not> blank (last (fvalue f))"
    by (auto simp: dsl_field_def dsl_value_def trimmed_def)
  moreover have "\<not> blank (CHR ''='')" by (simp add: blank_def)
  moreover have "\<not> blank (hd (render_field f))"
    using not_blank_show_int [OF hd_in_set [OF show_int_neq_Nil]] by (simp add: render_field_def)
  ultimately show ?thesis by (auto simp: trimmed_def render_field_def)
qed

lemma render_field_notin:
  assumes "dsl_field f"
  shows "CHR ''|'' \<notin> set (render_field f)" "SOH \<notin> set (render_field f)" "newline \<notin> set (render_field f)"
  using assms by (auto simp: render_field_def dsl_field_def dsl_value_def is_digit_def SOH_def newline_def
      dest!: show_int_chars)

lemma parse_token_render:
  assumes "dsl_field f"
  shows "parse_token n (render_field f) = Inr f"
proof -
  have i32: "int32 (ftag f)" and v: "trimmed (fvalue f)"
    using assms by (auto simp: dsl_field_def dsl_value_def)
  have "sv_find (render_field f) (CHR ''='') 0 = Some (length (show_int (ftag f)))"
    using show_int_notin [of "CHR ''=''" "ftag f"]
    by (simp add: sv_find_def render_field_def index_of_append)
  moreover have "sv_substr (render_field f) 0 (length (show_int (ftag f))) = show_int (ftag f)"
    by (simp add: sv_substr_def render_field_def)
  moreover have "drop (length (show_int (ftag f)) + 1) (render_field f) = fvalue f"
    by (simp add: render_field_def)
  ultimately show ?thesis using i32 v by (simp add: parse_token_def)
qed

lemma blank_notin: "list_all blank ws \<Longrightarrow> \<not> blank c \<Longrightarrow> c \<notin> set ws"
  by (auto simp: list_all_iff)

lemma blank_facts [simp]: "blank (CHR '' '')" "\<not> blank (CHR ''|'')" "\<not> blank SOH"
  by (simp_all add: blank_def SOH_def)

lemma render_field_neq_Nil [simp]: "render_field f \<noteq> []"
  by (simp add: render_field_def)

lemma parse_fields_token:
  assumes args: "args = pre @ ws @ render_field f @ CHR '' '' # CHR ''|'' # s"
    and f: "dsl_field f" and ws: "list_all blank ws"
  shows "parse_fields n args (length pre) acc =
     parse_fields n args (length (pre @ ws @ render_field f @ '' |'')) (acc @ [f])"
proof -
  have nob: "CHR ''|'' \<notin> set (ws @ render_field f @ '' '')"
    using blank_notin [OF ws] render_field_notin [OF f] by simp
  have "sv_find args (CHR ''|'') (length pre) = Some (length pre + length (ws @ render_field f @ '' ''))"
    using index_of_append [OF nob, of "CHR ''|'' # s"] by (simp add: args sv_find_append)
  then have nd: "next_delimiter args (length pre) = Some (length pre + length (ws @ render_field f @ '' ''))"
    by (simp add: next_delimiter_def)
  have "sv_substr args (length pre) (length (ws @ render_field f @ '' '')) = ws @ render_field f @ '' ''"
    by (simp add: args sv_substr_def)
  moreover have "trim (ws @ render_field f @ '' '') = render_field f"
    by (rule trim_padded) (use ws trimmed_render_field [OF f] in \<open>simp_all add: blank_def\<close>)
  moreover have "length pre < length args" by (simp add: args)
  ultimately show ?thesis
    by (subst parse_fields.simps) (simp add: nd parse_token_render [OF f])
qed

lemma parse_fields_last:
  assumes args: "args = pre @ ws @ render_field f" and f: "dsl_field f" and ws: "list_all blank ws"
  shows "parse_fields n args (length pre) acc = Inr (acc @ [f])"
proof -
  have nob: "CHR ''|'' \<notin> set (ws @ render_field f)" "SOH \<notin> set (ws @ render_field f)"
    using blank_notin [OF ws] render_field_notin [OF f] by simp_all
  then have nd: "next_delimiter args (length pre) = None"
    by (simp add: args next_delimiter_def sv_find_append)
  have "drop (length pre) args = ws @ render_field f" by (simp add: args)
  moreover have "trim (ws @ render_field f) = render_field f"
    using trim_padded [OF ws, of "[]"] trimmed_render_field [OF f] by simp
  moreover have "length pre < length args" by (simp add: args)
  moreover have "parse_fields n args (length args) acc' = Inr acc'" for acc'
    by (simp add: parse_fields.simps)
  ultimately show ?thesis
    by (subst parse_fields.simps) (simp add: nd parse_token_render [OF f])
qed

lemma parse_fields_render:
  "list_all dsl_field fs \<Longrightarrow> fs \<noteq> [] \<Longrightarrow> list_all blank ws \<Longrightarrow> args = pre @ ws @ render_fields fs \<Longrightarrow>
     parse_fields n args (length pre) acc = Inr (acc @ fs)"
proof (induction fs arbitrary: pre ws acc rule: render_fields.induct)
  case (2 f)
  then show ?case by (simp add: parse_fields_last)
next
  case (3 f g fs)
  let ?pre = "pre @ ws @ render_field f @ '' |''"
  have "parse_fields n args (length pre) acc = parse_fields n args (length ?pre) (acc @ [f])"
    by (rule parse_fields_token [where s = "'' '' @ render_fields (g # fs)"]) (use 3 in simp_all)
  also have "\<dots> = Inr ((acc @ [f]) @ g # fs)"
    by (rule "3.IH" [where ws = "'' ''"]) (use 3 in \<open>simp_all add: blank_def\<close>)
  finally show ?case by simp
qed simp

definition render_step :: "action_type \<times> fix_field list \<Rightarrow> string" where
  "render_step st = action_name (fst st) @ (if snd st = [] then [] else CHR '' '' # render_fields (snd st))"

definition render_dsl :: "(action_type \<times> fix_field list) list \<Rightarrow> string" where
  "render_dsl sts = concat (map (\<lambda>st. render_step st @ [newline]) sts)"

lemma trimmed_render_fields: "list_all dsl_field fs \<Longrightarrow> trimmed (render_fields fs)"
proof (induction fs rule: render_fields.induct)
  case (2 f)
  then show ?case by (simp add: trimmed_render_field)
next
  case (3 f g fs)
  have "render_fields (g # fs) \<noteq> []" by (cases fs) simp_all
  with 3 trimmed_render_field [of f] show ?case by (auto simp: trimmed_def)
qed (simp add: trimmed_def)

lemma newline_render_fields: "list_all dsl_field fs \<Longrightarrow> newline \<notin> set (render_fields fs)"
  by (induction fs rule: render_fields.induct) (simp_all add: render_field_notin, simp_all add: newline_def)

lemma action_name_facts:
  "action_name t \<noteq> []" "\<not> blank (hd (action_name t))" "\<not> blank (last (action_name t))"
  "\<not> prefix ''#'' (action_name t @ s)" "action_of (action_name t) = Some t"
  "newline \<notin> set (action_name t)" "\<forall>c\<in>set (action_name t). \<not> word_break c"
  by (cases t; simp add: blank_def newline_def word_break_def action_of_def)+

lemma render_fields_neq_Nil: "fs \<noteq> [] \<Longrightarrow> render_fields fs \<noteq> []"
  by (cases fs rule: render_fields.cases) auto

lemma parse_line_render:
  assumes "list_all dsl_field fs"
  shows "parse_line n (render_step (t, fs)) = Inr (Some (t, fs))"
proof (cases "fs = []")
  case True
  have tw: "takeWhile (\<lambda>c. \<not> word_break c) (action_name t) = action_name t"
    using action_name_facts(7) by (simp add: takeWhile_eq_all_conv)
  moreover have "trimmed (action_name t)" by (simp add: trimmed_def action_name_facts)
  moreover have "parse_fields n [] 0 [] = Inr []" by (simp add: parse_fields.simps)
  ultimately show ?thesis
    using True action_name_facts(4) [of t "[]"]
    by (simp add: parse_line_def render_step_def action_name_facts(1,5) tw)
next
  case False
  let ?l = "action_name t @ CHR '' '' # render_fields fs"
  have line: "render_step (t, fs) = ?l" using False by (simp add: render_step_def)
  have tr: "trimmed (render_fields fs)" by (rule trimmed_render_fields [OF assms])
  then have "trimmed ?l"
    using render_fields_neq_Nil [OF False] by (auto simp: trimmed_def action_name_facts)
  moreover have sp: "takeWhile (\<lambda>c. \<not> word_break c) ?l = action_name t"
    using action_name_facts(7) by (subst takeWhile_append2) (auto simp: word_break_def)
  moreover have "sv_substr ?l 0 (length (action_name t)) = action_name t" by (simp add: sv_substr_def)
  moreover have "trim (drop (length (action_name t)) ?l) = render_fields fs"
    using trim_padded [of "'' ''" "[]" "render_fields fs"] tr by (simp add: blank_def)
  moreover have "parse_fields n (render_fields fs) 0 [] = Inr fs"
    using parse_fields_render [OF assms False, of "[]" "render_fields fs" "[]" n "[]"] by simp
  ultimately show ?thesis
    unfolding line parse_line_def
    by (simp add: action_name_facts(1,4,5))
qed

section \<open>Properties\<close>

text \<open>The first error of a list of lines, and the steps of the lines that have one.\<close>

fun first_error :: "nat \<Rightarrow> string list \<Rightarrow> string option" where
  "first_error n [] = None"
| "first_error n (l # ls) =
     (case parse_line (n + 1) l of Inl e \<Rightarrow> Some e | Inr _ \<Rightarrow> first_error (n + 1) ls)"

fun line_steps :: "nat \<Rightarrow> string list \<Rightarrow> (action_type \<times> fix_field list) list" where
  "line_steps n [] = []"
| "line_steps n (l # ls) =
     (case parse_line (n + 1) l of
        Inr (Some st) \<Rightarrow> st # line_steps (n + 1) ls
      | _ \<Rightarrow> line_steps (n + 1) ls)"

definition step_of :: "action_type \<times> fix_field list \<Rightarrow> scenario_step" where
  "step_of st = \<lparr>st_type = fst st, st_fields = snd st, st_pool = map fvalue (snd st)\<rparr>"

lemma parse_lines_eq:
  "parse_lines n ls sc =
     (case first_error n ls of
        Some e \<Rightarrow> Inl e
      | None \<Rightarrow> Inr (sc\<lparr>sc_steps := sc_steps sc @ map step_of (line_steps n ls)\<rparr>))"
  by (induction n ls sc rule: parse_lines.induct)
    (auto simp: add_step_steps step_of_def split: sum.split option.split)

lemma parse_fields_error:
  "parse_fields n args p acc = Inl e \<Longrightarrow> \<exists>w. e = line_error n w"
proof (induction n args p acc rule: parse_fields.induct)
  case (1 n args p acc)
  have tok: "parse_token n t = Inl e \<Longrightarrow> \<exists>w. e = line_error n w" for t
    by (auto simp: parse_token_def Let_def split: option.splits from_chars_result.splits)
  show ?case
  proof (cases "p < length args")
    case False
    with 1(3) show ?thesis by (simp add: parse_fields.simps)
  next
    case True
    let ?nd = "next_delimiter args p"
    let ?t = "trim (case ?nd of None \<Rightarrow> drop p args | Some q \<Rightarrow> sv_substr args p (q - p))"
    let ?p = "case ?nd of None \<Rightarrow> length args | Some q \<Rightarrow> q + 1"
    have eq: "parse_fields n args p acc = (if ?t = [] then parse_fields n args ?p acc
        else case parse_token n ?t of Inl e \<Rightarrow> Inl e | Inr f \<Rightarrow> parse_fields n args ?p (acc @ [f]))"
      using True by (subst parse_fields.simps) (simp add: Let_def)
    show ?thesis
    proof (cases "?t = []")
      case empty: True
      with 1(3) show ?thesis unfolding eq by (intro 1(1) [OF True refl refl refl empty]) simp
    next
      case ne: False
      show ?thesis
      proof (cases "parse_token n ?t")
        case (Inl e')
        with 1(3) ne tok show ?thesis unfolding eq by simp
      next
        case (Inr f)
        with 1(3) ne show ?thesis unfolding eq by (intro 1(2) [OF True refl refl refl ne Inr]) simp
      qed
    qed
  qed
qed

lemma parse_line_error: "parse_line n l = Inl e \<Longrightarrow> \<exists>w. e = line_error n w"
  by (auto simp: parse_line_def Let_def dest: parse_fields_error
      split: if_splits option.splits sum.splits)

lemma first_error_Some:
  "first_error n ls = Some e \<Longrightarrow>
     \<exists>i<length ls. parse_line (n + i + 1) (ls ! i) = Inl e \<and> (\<exists>w. e = line_error (n + i + 1) w)"
proof (induction ls arbitrary: n)
  case (Cons l ls)
  show ?case
  proof (cases "parse_line (n + 1) l")
    case (Inl e')
    with Cons.prems parse_line_error [OF Inl] show ?thesis by (intro exI [of _ 0]) simp
  next
    case (Inr r)
    with Cons.prems have "first_error (n + 1) ls = Some e" by simp
    from Cons.IH [OF this] obtain i w where
      "i < length ls" "parse_line (n + 1 + i + 1) (ls ! i) = Inl e" "e = line_error (n + 1 + i + 1) w" by blast
    then show ?thesis by (intro exI [of _ "Suc i"]) auto
  qed
qed simp

text \<open>
  C22: a scenario file is read line by line.  The result is the error of the first line
  that has one, with the number of that line, or else the scenario of the steps of the
  other lines in order, blank lines and comments left out.
\<close>

theorem dsl_by_lines:
  "parse_dsl dsl =
     (case first_error 0 (split_lines dsl) of
        Some e \<Rightarrow> Inl e
      | None \<Rightarrow> Inr \<lparr>sc_name = ''ParsedScenario'', sc_steps = map step_of (line_steps 0 (split_lines dsl))\<rparr>) \<and>
   (\<forall>e. first_error 0 (split_lines dsl) = Some e \<longrightarrow>
      (\<exists>i w. i < length (split_lines dsl) \<and> parse_line (i + 1) (split_lines dsl ! i) = Inl e \<and>
        e = line_error (i + 1) w))"
proof
  show "parse_dsl dsl =
     (case first_error 0 (split_lines dsl) of
        Some e \<Rightarrow> Inl e
      | None \<Rightarrow> Inr \<lparr>sc_name = ''ParsedScenario'', sc_steps = map step_of (line_steps 0 (split_lines dsl))\<rparr>)"
    using dsl_loop_lines [of dsl "[]" dsl 0 "new_scenario ''ParsedScenario''"]
    by (simp add: parse_dsl_def parse_lines_eq new_scenario_def split: option.split)
qed (use first_error_Some [of 0] in fastforce)

theorem dsl_by_lines_witness:
  "\<exists>w. parse_dsl (''# a'' @ newline # ''CONNECT'' @ newline # ''SEND 35'') = Inl (line_error 3 w)"
proof -
  let ?dsl = "''# a'' @ newline # ''CONNECT'' @ newline # ''SEND 35''"
  have "first_error 0 (split_lines ?dsl) =
      Some (line_error 3 (''Invalid field format '' @ [single_quote] @ ''35'' @ [single_quote]))" by code_simp
  with dsl_by_lines [of ?dsl] show ?thesis by auto
qed

text \<open>
  C21: a scenario written out in the language is read back: every step with its action and
  its fields, the values in the pool of the step, for values without delimiters and
  without blanks at their ends.
\<close>

theorem dsl_roundtrip:
  assumes "\<forall>st\<in>set sts. list_all dsl_field (snd st)"
  shows "parse_dsl (render_dsl sts) = Inr (fold (\<lambda>(t, fs). add_step t fs) sts (new_scenario ''ParsedScenario'')) \<and>
    map st_fields (sc_steps (fold (\<lambda>(t, fs). add_step t fs) sts (new_scenario ''ParsedScenario''))) = map snd sts"
proof -
  have nl: "newline \<notin> set (render_step st)" if "list_all dsl_field (snd st)" for st
    using that newline_render_fields [of "snd st"]
    by (cases st) (simp add: render_step_def action_name_facts, simp add: newline_def)
  have lines: "split_lines (render_dsl sts) = map render_step sts"
    using assms by (induction sts) (simp_all add: render_dsl_def nl)
  have "parse_lines n (map render_step sts) sc = Inr (fold (\<lambda>(t, fs). add_step t fs) sts sc)" for n sc
    using assms by (induction sts arbitrary: n sc) (auto simp: parse_line_render)
  then have "parse_dsl (render_dsl sts) = Inr (fold (\<lambda>(t, fs). add_step t fs) sts (new_scenario ''ParsedScenario''))"
    using dsl_loop_lines [of "render_dsl sts" "[]" "render_dsl sts" 0 "new_scenario ''ParsedScenario''"]
    by (simp add: parse_dsl_def lines)
  moreover have "map st_fields (sc_steps (fold (\<lambda>(t, fs). add_step t fs) sts sc)) = map st_fields (sc_steps sc) @ map snd sts" for sc
    by (induction sts arbitrary: sc) (auto simp: add_step_steps)
  ultimately show ?thesis by (simp add: new_scenario_def)
qed

theorem dsl_roundtrip_witness:
  "parse_dsl (''CONNECT'' @ newline # ''SEND 35=A | 58=a b=c'' @ newline # ''DISCONNECT'' @ [newline]) =
     Inr (sc_disconnect (sc_send [\<lparr>ftag = 35, fvalue = ''A''\<rparr>, \<lparr>ftag = 58, fvalue = ''a b=c''\<rparr>]
       (sc_connect (new_scenario ''ParsedScenario''))))"
proof -
  let ?sts = "[(Connect, []), (Send, [\<lparr>ftag = 35, fvalue = ''A''\<rparr>, \<lparr>ftag = 58, fvalue = ''a b=c''\<rparr>]), (Disconnect, [])]"
  have "\<forall>st\<in>set ?sts. list_all dsl_field (snd st)" by code_simp
  moreover have "render_dsl ?sts = ''CONNECT'' @ newline # ''SEND 35=A | 58=a b=c'' @ newline # ''DISCONNECT'' @ [newline]"
    by code_simp
  ultimately show ?thesis
    using dsl_roundtrip [of ?sts] by (simp add: sc_connect_def sc_send_def sc_disconnect_def)
qed

text \<open>
  The tag of a field is read up to its first character that is not a digit and the
  rest is ignored, so a misspelt tag is taken for another one instead of being refused.
\<close>

theorem tag_garbage_accepted:
  assumes "int32 t" "g \<noteq> []" "\<not> is_digit (hd g)" "trimmed g" "CHR ''='' \<notin> set g" "trimmed v"
  shows "parse_token n (show_int t @ g @ CHR ''='' # v) = Inr \<lparr>ftag = t, fvalue = v\<rparr>"
proof -
  let ?t = "show_int t @ g @ CHR ''='' # v"
  have ne: "CHR ''='' \<notin> set (show_int t @ g)"
    using assms(5) show_int_notin [of "CHR ''=''" t] by simp
  have "sv_find ?t (CHR ''='') 0 = Some (length (show_int t @ g))"
    using index_of_append [OF ne, of "CHR ''='' # v"] by (simp add: sv_find_def)
  moreover have "sv_substr ?t 0 (length (show_int t @ g)) = show_int t @ g"
    by (simp add: sv_substr_def)
  moreover have "trimmed (show_int t @ g)"
    using assms(2,4) trimmed_show_int [of t] by (auto simp: trimmed_def)
  moreover have "from_chars (show_int t @ g) = FC_ok t (length (show_int t))"
    using assms(1,3) by (intro from_chars_show_int) simp_all
  moreover have "drop (length (show_int t @ g) + 1) ?t = v" by simp
  ultimately show ?thesis
    using assms(6) unfolding parse_token_def by simp
qed

theorem tag_garbage_accepted_witness:
  "parse_token 1 ''35x=A'' = Inr \<lparr>ftag = 35, fvalue = ''A''\<rparr>"
proof -
  have "int32 35" "\<not> is_digit (hd ''x'')" "trimmed ''x''" "trimmed ''A''" by code_simp+
  moreover have "show_int 35 = ''35''" by code_simp
  ultimately show ?thesis using tag_garbage_accepted [of 35 "''x''" "''A''" 1] by simp
qed

end
