(* ===== verification/Runner.thy ===== *)
theory Runner
  imports Session Scenario Connections Framing
begin

text \<open>
  \<open>ScenarioRunner\<close> of \<open>src/runner.cpp\<close> and \<open>include/fixure/runner.hpp\<close>: it plays the
  steps of a scenario over a connection and a session.  The connection is any
  implementation of the interface; the readings of the steady clock (nanoseconds) and the
  texts of the sending times are sequences, each read once.  The \<open>EXPECT\<close> loop is an
  \<open>iterate\<close>, so that never returning is the value \<open>None\<close>.
\<close>

section \<open>State\<close>

record 'c world =
  w_ops :: "'c connection_ops"
  w_clock :: "nat \<Rightarrow> int"
  w_stamp :: "nat \<Rightarrow> string"

record 'c runner =
  rn_session :: fix_session
  rn_conn :: 'c
  rn_mocks :: "scenario_step list"
  rn_rx :: string
  rn_ticks :: nat
  rn_stamps :: nat

record run_result =
  rr_success :: bool
  rr_error_message :: string
  rr_steps_executed :: nat

definition new_runner :: "fix_session \<Rightarrow> 'c \<Rightarrow> 'c runner" where
  "new_runner s c = \<lparr>rn_session = s, rn_conn = c, rn_mocks = [], rn_rx = [], rn_ticks = 0, rn_stamps = 0\<rparr>"

definition step_error :: "nat \<Rightarrow> string \<Rightarrow> string \<Rightarrow> string" where
  "step_error n action what = ''Step '' @ show_nat n @ '' ('' @ action @ ''): '' @ what"

section \<open>Sending\<close>

definition header_tag :: "int \<Rightarrow> bool" where
  "header_tag t \<longleftrightarrow> t = 8 \<or> t = 35 \<or> t = 49 \<or> t = 56 \<or> t = 34 \<or> t = 52"

definition outgoing_fields :: "fix_session \<Rightarrow> string \<Rightarrow> string \<Rightarrow> fix_field list \<Rightarrow> fix_field list" where
  "outgoing_fields s msg_type time_str flds =
     prepare_header s msg_type 6 time_str @ filter (\<lambda>f. \<not> header_tag (ftag f)) flds"

text \<open>The local array; what it holds before the call does not matter to \<open>serialize_message\<close>.\<close>

definition serialize_buf :: string where
  "serialize_buf = replicate 4096 (CHR 0x00)"

text \<open>The \<open>SEND\<close> step: \<open>step.fields[0]\<close> of an empty vector is undefined.\<close>

definition send_step :: "'c world \<Rightarrow> nat \<Rightarrow> fix_field list \<Rightarrow> 'c runner \<Rightarrow> (string option \<times> 'c runner) cpp" where
  "send_step w n flds st =
     (if flds = [] then Undefined
      else
        (let msg_type = (if ftag (flds ! 0) = 35 then fvalue (flds ! 0) else ''0'');
             all_fields = outgoing_fields (rn_session st) msg_type (w_stamp w (rn_stamps st)) flds;
             st1 = st\<lparr>rn_stamps := rn_stamps st + 1\<rparr>
         in case serialize_message all_fields serialize_buf SOH of
              Undefined \<Rightarrow> Undefined
            | Defined (Inl _) \<Rightarrow> Defined (Some (step_error n ''SEND'' ''Serialization failed''), st1)
            | Defined (Inr text) \<Rightarrow>
                (let (ok, c) = op_send (w_ops w) text (rn_conn st1);
                     st2 = st1\<lparr>rn_conn := c\<rparr>
                 in if \<not> ok then Defined (Some (step_error n ''SEND'' ''Send failed''), st2)
                    else cpp_bind (on_message_sent (rn_session st2))
                      (\<lambda>s. Defined (None, st2\<lparr>rn_session := s\<rparr>)))))"

section \<open>Matching and mocks\<close>

definition match_fields :: "fix_message \<Rightarrow> fix_field list \<Rightarrow> bool" where
  "match_fields m expected \<longleftrightarrow> list_all (\<lambda>f. get_field m (ftag f) = Some (fvalue f)) expected"

definition mock_response :: "fix_session \<Rightarrow> string \<Rightarrow> fix_field list \<Rightarrow> fix_field list" where
  "mock_response s time_str flds =
     (let resp_msg_type = (if length flds > 1 \<and> ftag (flds ! 1) = 35 then fvalue (flds ! 1) else ''8'')
      in outgoing_fields s resp_msg_type time_str (drop 1 flds))"

text \<open>
  \<open>process_mocks\<close>: the first rule that matches and whose response can be serialized
  answers.  The result of sending the response is not looked at.
\<close>

fun process_mocks :: "'c world \<Rightarrow> fix_message \<Rightarrow> scenario_step list \<Rightarrow> 'c runner \<Rightarrow> (bool \<times> 'c runner) cpp" where
  "process_mocks w m [] st = Defined (False, st)"
| "process_mocks w m (rule # rules) st =
     (let flds = st_fields rule in
      if flds = [] then process_mocks w m rules st
      else if get_field m (ftag (flds ! 0)) = Some (fvalue (flds ! 0)) then
        (let resp_fields = mock_response (rn_session st) (w_stamp w (rn_stamps st)) flds;
             st1 = st\<lparr>rn_stamps := rn_stamps st + 1\<rparr>
         in case serialize_message resp_fields serialize_buf SOH of
              Undefined \<Rightarrow> Undefined
            | Defined (Inl _) \<Rightarrow> process_mocks w m rules st1
            | Defined (Inr text) \<Rightarrow>
                (let (_, c) = op_send (w_ops w) text (rn_conn st1)
                 in cpp_bind (on_message_sent (rn_session st1))
                      (\<lambda>s. Defined (True, st1\<lparr>rn_conn := c, rn_session := s\<rparr>))))
      else process_mocks w m rules st)"

section \<open>Expecting\<close>

definition expect_timeout :: int where "expect_timeout = 5000000000"

text \<open>A message taken from the buffer: \<open>Inr None\<close> when it is the expected one.\<close>

definition expect_message ::
  "'c world \<Rightarrow> nat \<Rightarrow> fix_field list \<Rightarrow> string \<Rightarrow> 'c runner \<Rightarrow> ('c runner + string option \<times> 'c runner) cpp" where
  "expect_message w n flds text st =
     (case parse text SOH of
        Inl e \<Rightarrow> Defined (Inr (Some (step_error n ''EXPECT'' (''Parse error '' @ parse_error_name e)), st))
      | Inr m \<Rightarrow>
          cpp_bind (receive_message (rn_session st) m) (\<lambda>(r, s).
            let st1 = st\<lparr>rn_session := s\<rparr> in
            if pr_action r = DisconnectAction then
              Defined (Inr (Some (step_error n ''EXPECT'' (''Session disconnect. '' @ pr_info r)), st1))
            else if match_fields m flds then Defined (Inr (None, st1))
            else cpp_bind (process_mocks w m (rn_mocks st1) st1) (\<lambda>(handled, st2).
              if handled then Defined (Inl st2)
              else if get_field m 35 = Some ''0'' \<or> get_field m 35 = Some ''1'' then Defined (Inl st2)
              else Defined (Inr (Some (step_error n ''EXPECT'' (''Fields mismatch. Received MsgType='' @
                     (case get_field m 35 of Some t \<Rightarrow> t | None \<Rightarrow> ''?''))), st2)))))"

definition expect_round ::
  "'c world \<Rightarrow> nat \<Rightarrow> fix_field list \<Rightarrow> int \<Rightarrow> 'c runner \<Rightarrow> ('c runner + string option \<times> 'c runner) cpp" where
  "expect_round w n flds start_time st =
     (let now = w_clock w (rn_ticks st);
          st1 = st\<lparr>rn_ticks := rn_ticks st + 1\<rparr>
      in if now - start_time > expect_timeout then
           Defined (Inr (Some (step_error n ''EXPECT'' ''Timeout waiting for message''), st1))
         else
           (case extract_next_message (rn_rx st1) SOH of
              (None, buffer) \<Rightarrow>
                (let (rx, c) = op_receive (w_ops w) 500 (rn_conn st1)
                 in Defined (Inl (st1\<lparr>rn_conn := c,
                      rn_rx := buffer @ (case rx of Some d \<Rightarrow> d | None \<Rightarrow> [])\<rparr>)))
            | (Some text, buffer) \<Rightarrow> expect_message w n flds text (st1\<lparr>rn_rx := buffer\<rparr>)))"

definition expect_step ::
  "'c world \<Rightarrow> nat \<Rightarrow> fix_field list \<Rightarrow> 'c runner \<Rightarrow> (string option \<times> 'c runner) cpp option" where
  "expect_step w n flds st =
     (let start_time = w_clock w (rn_ticks st)
      in iterate (expect_round w n flds start_time) (st\<lparr>rn_ticks := rn_ticks st + 1\<rparr>))"

section \<open>Running\<close>

definition run_step :: "'c world \<Rightarrow> nat \<Rightarrow> scenario_step \<Rightarrow> 'c runner \<Rightarrow> (string option \<times> 'c runner) cpp option" where
  "run_step w n step st =
     (case st_type step of
        Connect \<Rightarrow>
          (let (ok, c) = op_connect (w_ops w) (rn_conn st); st1 = st\<lparr>rn_conn := c\<rparr>
           in Some (Defined (if ok then None else Some (step_error n ''CONNECT'' ''Connection failed''), st1)))
      | Disconnect \<Rightarrow> Some (Defined (None, st\<lparr>rn_conn := op_disconnect (w_ops w) (rn_conn st)\<rparr>))
      | Send \<Rightarrow> Some (send_step w n (st_fields step) st)
      | Expect \<Rightarrow> expect_step w n (st_fields step) st
      | Mock \<Rightarrow> Some (Defined (None, st\<lparr>rn_mocks := rn_mocks st @ [step]\<rparr>)))"

fun run_from ::
  "'c world \<Rightarrow> nat \<Rightarrow> scenario_step list \<Rightarrow> 'c runner \<Rightarrow> (run_result \<times> 'c runner) cpp option" where
  "run_from w n [] st =
     Some (Defined (\<lparr>rr_success = True, rr_error_message = [], rr_steps_executed = n\<rparr>, st))"
| "run_from w n (step # steps) st =
     (case run_step w (n + 1) step st of
        None \<Rightarrow> None
      | Some Undefined \<Rightarrow> Some Undefined
      | Some (Defined (Some e, st1)) \<Rightarrow>
          Some (Defined (\<lparr>rr_success = False, rr_error_message = e, rr_steps_executed = n + 1\<rparr>, st1))
      | Some (Defined (None, st1)) \<Rightarrow> run_from w (n + 1) steps st1)"

definition run :: "'c world \<Rightarrow> scenario \<Rightarrow> 'c runner \<Rightarrow> (run_result \<times> 'c runner) cpp option" where
  "run w sc st = run_from w 0 (sc_steps sc) (st\<lparr>rn_rx := []\<rparr>)"

section \<open>The rounds\<close>

lemma process_mocks_frame:
  "process_mocks w m rules st = Defined (b, st') \<Longrightarrow>
     rn_ticks st' = rn_ticks st \<and> rn_rx st' = rn_rx st \<and> rn_mocks st' = rn_mocks st"
  by (induction w m rules st rule: process_mocks.induct)
    (auto simp: Let_def cpp_bind_Defined split: if_splits cpp.splits sum.splits prod.splits)

lemma expect_message_ticks:
  "expect_message w n flds text st = Defined (Inl st') \<Longrightarrow> rn_ticks st' = rn_ticks st"
  by (auto simp: expect_message_def cpp_bind_Defined Let_def dest!: process_mocks_frame
      split: if_splits sum.splits)

lemma expect_round_ticks:
  "expect_round w n flds t st = Defined (Inl st') \<Longrightarrow>
     rn_ticks st' = rn_ticks st + 1 \<and> w_clock w (rn_ticks st) - t \<le> expect_timeout"
  by (auto simp: expect_round_def Let_def dest!: expect_message_ticks
      split: if_splits option.splits prod.splits)

text \<open>The clock goes on: from every reading on, one is more than the timeout later.\<close>

definition clock_goes_on :: "(nat \<Rightarrow> int) \<Rightarrow> bool" where
  "clock_goes_on clk \<longleftrightarrow> (\<forall>k. \<exists>n>k. clk n - clk k > expect_timeout)"

lemma expect_step_returns:
  assumes "clock_goes_on (w_clock w)"
  shows "\<exists>r. expect_step w n flds st = Some r"
proof -
  let ?t = "w_clock w (rn_ticks st)"
  obtain N where N: "N > rn_ticks st" "w_clock w N - ?t > expect_timeout"
    using assms by (auto simp: clock_goes_on_def)
  have "\<exists>r. iterate (expect_round w n flds ?t) (st\<lparr>rn_ticks := rn_ticks st + 1\<rparr>) = Some r"
  proof (rule iterate_ends [where P = "\<lambda>s. rn_ticks s \<le> N" and m = "\<lambda>s. N - rn_ticks s"])
    fix s s' :: "'a runner"
    assume "rn_ticks s \<le> N" "expect_round w n flds ?t s = Defined (Inl s')"
    moreover from this expect_round_ticks have "rn_ticks s \<noteq> N" using N(2) by fastforce
    ultimately show "rn_ticks s' \<le> N \<and> N - rn_ticks s' < N - rn_ticks s"
      using expect_round_ticks [of w n flds ?t s s'] by auto
  qed (use N in simp)
  then show ?thesis by (simp add: expect_step_def)
qed

lemma run_step_returns:
  "clock_goes_on (w_clock w) \<Longrightarrow> \<exists>r. run_step w n step st = Some r"
  using expect_step_returns [of w n "st_fields step" st]
  by (cases "st_type step") (auto simp: run_step_def split: prod.split)

lemma run_from_returns:
  assumes "clock_goes_on (w_clock w)"
  shows "\<exists>r. run_from w n steps st = Some r"
proof (induction steps arbitrary: n st)
  case (Cons step steps)
  obtain r where r: "run_step w (n + 1) step st = Some r"
    using run_step_returns [OF assms] by blast
  show ?case
  proof (cases r)
    case (Defined x)
    with r Cons show ?thesis by (cases x; cases "fst x") auto
  qed (use r in simp)
qed simp

section \<open>Errors name their step\<close>

lemma send_step_error: "send_step w n flds st = Defined (Some e, st') \<Longrightarrow> \<exists>a x. e = step_error n a x"
  by (auto simp: send_step_def Let_def cpp_bind_Defined split: if_splits cpp.splits sum.splits prod.splits)

lemma expect_message_error:
  "expect_message w n flds text st = Defined (Inr (Some e, st')) \<Longrightarrow> \<exists>a x. e = step_error n a x"
  by (auto simp: expect_message_def cpp_bind_Defined Let_def split: if_splits sum.splits)

lemma expect_round_error:
  "expect_round w n flds t st = Defined (Inr (Some e, st')) \<Longrightarrow> \<exists>a x. e = step_error n a x"
  by (auto simp: expect_round_def Let_def dest: expect_message_error
      split: if_splits option.splits prod.splits)

lemma expect_step_error:
  assumes "expect_step w n flds st = Some (Defined (Some e, st'))"
  shows "\<exists>a x. e = step_error n a x"
proof -
  let ?Q = "\<lambda>r :: string option \<times> 'a runner. \<forall>e. fst r = Some e \<longrightarrow> (\<exists>a x. e = step_error n a x)"
  have "?Q (Some e, st')"
    using assms unfolding expect_step_def Let_def
  proof (rule iterate_result [where P = "\<lambda>_. True"])
    fix s :: "'a runner"
    show "round_ok (\<lambda>_. True) ?Q (expect_round w n flds (w_clock w (rn_ticks st))) s"
      unfolding round_ok_def using expect_round_error [of w n flds "w_clock w (rn_ticks st)" s]
      by (fastforce split: cpp.split sum.split)
  qed simp
  then show ?thesis by simp
qed

lemma run_step_error:
  "run_step w n step st = Some (Defined (Some e, st')) \<Longrightarrow> \<exists>a x. e = step_error n a x"
  by (cases "st_type step")
    (auto simp: run_step_def Let_def dest: send_step_error expect_step_error split: prod.splits if_splits)

lemma run_from_result:
  "run_from w n steps st = Some (Defined (r, st')) \<Longrightarrow>
     (if rr_success r then rr_steps_executed r = n + length steps \<and> rr_error_message r = []
      else n < rr_steps_executed r \<and> rr_steps_executed r \<le> n + length steps \<and>
        (\<exists>a x. rr_error_message r = step_error (rr_steps_executed r) a x))"
proof (induction steps arbitrary: n st)
  case Nil
  then show ?case by auto
next
  case (Cons step steps)
  then obtain o1 st1 where o1: "run_step w (n + 1) step st = Some (Defined (o1, st1))"
    by (auto split: option.splits cpp.splits)
  show ?case
  proof (cases o1)
    case None
    with Cons.prems o1 Cons.IH [of "n + 1" st1] show ?thesis by (simp split: if_splits)
  next
    case (Some e)
    with o1 run_step_error [of w "n + 1" step st e st1] obtain a x where "e = step_error (n + 1) a x"
      by auto
    with Cons.prems o1 Some have
      "r = \<lparr>rr_success = False, rr_error_message = step_error (n + 1) a x, rr_steps_executed = n + 1\<rparr>"
      by simp
    then show ?thesis by (simp) blast
  qed
qed


section \<open>What goes on the wire\<close>

text \<open>
  The message with number \<open>n\<close>: \<open>frame\<close> computes body length and checksum, the fields after
  the header are those the step adds.
\<close>

definition numbered_text :: "session_config \<Rightarrow> int \<Rightarrow> string \<Rightarrow> string \<Rightarrow> fix_field list \<Rightarrow> string" where
  "numbered_text cfg n msg_type time_str extra =
     frame SOH (sc_begin_string cfg)
       ([\<lparr>ftag = 35, fvalue = msg_type\<rparr>,
         \<lparr>ftag = 49, fvalue = sc_sender_comp_id cfg\<rparr>,
         \<lparr>ftag = 56, fvalue = sc_target_comp_id cfg\<rparr>,
         \<lparr>ftag = 34, fvalue = show_int n\<rparr>,
         \<lparr>ftag = 52, fvalue = time_str\<rparr>] @ extra)"

text \<open>What a \<open>SEND\<close> step and a mock put on the wire.\<close>

definition wire_text :: "fix_session \<Rightarrow> string \<Rightarrow> string \<Rightarrow> fix_field list \<Rightarrow> string" where
  "wire_text s msg_type time_str flds =
     numbered_text (s_config s) (s_next_out s) msg_type time_str (filter (\<lambda>f. \<not> header_tag (ftag f)) flds)"

definition send_text :: "fix_session \<Rightarrow> string \<Rightarrow> fix_field list \<Rightarrow> string" where
  "send_text s time_str flds =
     wire_text s (if ftag (flds ! 0) = 35 then fvalue (flds ! 0) else ''0'') time_str flds"

definition mock_text :: "fix_session \<Rightarrow> string \<Rightarrow> fix_field list \<Rightarrow> string" where
  "mock_text s time_str flds =
     wire_text s (if length flds > 1 \<and> ftag (flds ! 1) = 35 then fvalue (flds ! 1) else ''8'') time_str (drop 1 flds)"

lemma length_serialize_buf: "length serialize_buf = 4096"
  by (simp add: serialize_buf_def)

lemma serialize_outgoing:
  assumes "list_all (\<lambda>f. int32 (ftag f)) flds"
  shows "serialize_message (outgoing_fields s mt time_str flds) serialize_buf SOH =
    Defined (if length (wire_text s mt time_str flds) \<le> 4096 then Inr (wire_text s mt time_str flds) else Inl No_buffer_space)"
proof -
  let ?fs = "outgoing_fields s mt time_str flds"
  have "length serialize_buf < 2 ^ 31" by (simp add: length_serialize_buf)
  moreover have "\<forall>f\<in>set ?fs. int32 (ftag f)"
    using assms
    by (auto simp: outgoing_fields_def prepare_header_def list_all_iff int32_def int_min_def int_max_def)
  ultimately show ?thesis
    using serialize_message_spec [of serialize_buf ?fs SOH]
    by (simp add: outgoing_fields_def prepare_header_def wire_text_def numbered_text_def frame_fits_iff
        length_serialize_buf patch_overflows_small)
qed

lemma serialize_send:
  "list_all (\<lambda>f. int32 (ftag f)) flds \<Longrightarrow>
   serialize_message (outgoing_fields s (if ftag (flds ! 0) = 35 then fvalue (flds ! 0) else ''0'') time_str flds)
     serialize_buf SOH =
   Defined (if length (send_text s time_str flds) \<le> 4096 then Inr (send_text s time_str flds) else Inl No_buffer_space)"
  by (simp only: serialize_outgoing send_text_def)

lemma serialize_mock:
  "list_all (\<lambda>f. int32 (ftag f)) flds \<Longrightarrow>
   serialize_message (mock_response s time_str flds) serialize_buf SOH =
   Defined (if length (mock_text s time_str flds) \<le> 4096 then Inr (mock_text s time_str flds) else Inl No_buffer_space)"
  by (cases flds) (auto simp: mock_response_def mock_text_def serialize_outgoing Let_def)

section \<open>The numbers of the messages sent\<close>

lemma receive_message_out:
  assumes "receive_message s m = Defined (r, s')"
  shows "s_next_out s' = s_next_out s \<and> s_config s' = s_config s"
  using assms
proof (cases rule: receive_message_cases)
  case (expected mt)
  have "in_sequence t m mt n = (r, s') \<Longrightarrow> s_next_out s' = s_next_out t \<and> s_config s' = s_config t" for t n
    by (auto simp: in_sequence_def split: if_splits option.splits)
  from this [OF expected(5) [symmetric]] show ?thesis by simp
qed simp_all

text \<open>\<open>text\<close> is a message of the session with \<open>34=n\<close> and no second number.\<close>

definition sent_as :: "session_config \<Rightarrow> int \<Rightarrow> string \<Rightarrow> bool" where
  "sent_as cfg n text \<longleftrightarrow>
     (\<exists>msg_type time_str extra. list_all (\<lambda>f. \<not> header_tag (ftag f)) extra \<and>
        text = numbered_text cfg n msg_type time_str extra)"

lemma sent_as_wire: "sent_as (s_config s) (s_next_out s) (wire_text s mt time flds)"
  unfolding sent_as_def wire_text_def
  by (rule exI [of _ mt], rule exI [of _ time], rule exI [of _ "filter (\<lambda>f. \<not> header_tag (ftag f)) flds"])
    (simp add: list_all_iff)

text \<open>Calls of \<open>send\<close> with their results: the texts are numbered \<open>n\<close>, \<open>n + 1\<close> and so on.\<close>

fun numbered :: "session_config \<Rightarrow> int \<Rightarrow> (string \<times> bool) list \<Rightarrow> bool" where
  "numbered cfg n [] \<longleftrightarrow> True"
| "numbered cfg n (call # calls) \<longleftrightarrow> sent_as cfg n (fst call) \<and> numbered cfg (n + 1) calls"

lemma numbered_append [simp]:
  "numbered cfg n (xs @ ys) \<longleftrightarrow> numbered cfg n xs \<and> numbered cfg (n + int (length xs)) ys"
  by (induction xs arbitrary: n) (auto simp: add.assoc)

text \<open>
  What is needed of a connection for this: a record of the calls of \<open>send\<close>, which nothing
  else changes.
\<close>

locale logging_connection =
  fixes ops :: "'c connection_ops" and log :: "'c \<Rightarrow> (string \<times> bool) list"
  assumes log_send: "op_send ops d c = (ok, c') \<Longrightarrow> log c' = log c @ [(d, ok)]"
    and log_connect: "op_connect ops c = (ok, c') \<Longrightarrow> log c' = log c"
    and log_disconnect: "log (op_disconnect ops c) = log c"
    and log_receive: "op_receive ops t c = (r, c') \<Longrightarrow> log c' = log c"
begin

text \<open>From \<open>st\<close> to \<open>st'\<close> the calls of \<open>send\<close> were numbered by the counter, one each.\<close>

definition moved :: "'c runner \<Rightarrow> 'c runner \<Rightarrow> bool" where
  "moved st st' \<longleftrightarrow> s_config (rn_session st') = s_config (rn_session st) \<and>
     (\<exists>calls. log (rn_conn st') = log (rn_conn st) @ calls \<and>
        numbered (s_config (rn_session st)) (s_next_out (rn_session st)) calls \<and>
        s_next_out (rn_session st') = s_next_out (rn_session st) + int (length calls))"

text \<open>A failed step may have made one more call, which failed and is not counted.\<close>

definition failed :: "'c runner \<Rightarrow> 'c runner \<Rightarrow> bool" where
  "failed st st' \<longleftrightarrow> s_config (rn_session st') = s_config (rn_session st) \<and>
     (\<exists>calls. log (rn_conn st') = log (rn_conn st) @ calls \<and>
        numbered (s_config (rn_session st)) (s_next_out (rn_session st)) calls \<and>
        (s_next_out (rn_session st') = s_next_out (rn_session st) + int (length calls) \<or>
         s_next_out (rn_session st') = s_next_out (rn_session st) + int (length calls) - 1 \<and> calls \<noteq> [] \<and>
           \<not> snd (last calls)))"

lemma moved_refl: "log (rn_conn st') = log (rn_conn st) \<Longrightarrow> s_config (rn_session st') = s_config (rn_session st) \<Longrightarrow>
    s_next_out (rn_session st') = s_next_out (rn_session st) \<Longrightarrow> moved st st'"
  by (simp add: moved_def)

lemma moved_failed: "moved st st' \<Longrightarrow> failed st st'"
  unfolding moved_def failed_def by blast

lemma moved_trans: "moved st st1 \<Longrightarrow> moved st1 st2 \<Longrightarrow> moved st st2"
proof -
  assume "moved st st1" "moved st1 st2"
  then obtain xs ys where
    "log (rn_conn st1) = log (rn_conn st) @ xs" "numbered (s_config (rn_session st)) (s_next_out (rn_session st)) xs"
    "s_next_out (rn_session st1) = s_next_out (rn_session st) + int (length xs)"
    "log (rn_conn st2) = log (rn_conn st1) @ ys" "numbered (s_config (rn_session st1)) (s_next_out (rn_session st1)) ys"
    "s_next_out (rn_session st2) = s_next_out (rn_session st1) + int (length ys)"
    "s_config (rn_session st1) = s_config (rn_session st)" "s_config (rn_session st2) = s_config (rn_session st)"
    unfolding moved_def by auto
  then show ?thesis unfolding moved_def by (intro conjI exI [of _ "xs @ ys"]) simp_all
qed

lemma failed_trans: "moved st st1 \<Longrightarrow> failed st1 st2 \<Longrightarrow> failed st st2"
proof -
  assume "moved st st1" "failed st1 st2"
  then obtain xs ys where
    "log (rn_conn st1) = log (rn_conn st) @ xs" "numbered (s_config (rn_session st)) (s_next_out (rn_session st)) xs"
    "s_next_out (rn_session st1) = s_next_out (rn_session st) + int (length xs)"
    "log (rn_conn st2) = log (rn_conn st1) @ ys" "numbered (s_config (rn_session st1)) (s_next_out (rn_session st1)) ys"
    "s_next_out (rn_session st2) = s_next_out (rn_session st1) + int (length ys) \<or>
      s_next_out (rn_session st2) = s_next_out (rn_session st1) + int (length ys) - 1 \<and> ys \<noteq> [] \<and> \<not> snd (last ys)"
    "s_config (rn_session st1) = s_config (rn_session st)" "s_config (rn_session st2) = s_config (rn_session st)"
    unfolding moved_def failed_def by auto
  then show ?thesis unfolding failed_def by (intro conjI exI [of _ "xs @ ys"]) auto
qed

lemma moved_send:
  assumes "op_send ops (wire_text (rn_session st) mt time flds) (rn_conn st) = (ok, c)"
    and "on_message_sent (rn_session st) = Defined s" "rn_conn st' = c" "rn_session st' = s"
  shows "moved st st'"
proof -
  have "s = rn_session st\<lparr>s_next_out := s_next_out (rn_session st) + 1\<rparr>"
    using assms(2) by (auto simp: on_message_sent_def cpp_bind_Defined int_incr_def split: if_splits)
  with log_send [OF assms(1)] assms(3,4) sent_as_wire [of "rn_session st" mt time flds] show ?thesis
    by (simp add: moved_def)
qed

lemma moved_mocks:
  "w_ops w = ops \<Longrightarrow> typed_steps rules \<Longrightarrow> process_mocks w m rules st = Defined (b, st') \<Longrightarrow> moved st st'"
proof (induction w m rules st rule: process_mocks.induct)
  case (1 w m st)
  then show ?case by (simp add: moved_refl)
next
  case (2 w m rule rules st)
  let ?flds = "st_fields rule" and ?st1 = "st\<lparr>rn_stamps := rn_stamps st + 1\<rparr>"
  let ?data = "mock_text (rn_session st) (w_stamp w (rn_stamps st)) ?flds"
  have typed: "list_all (\<lambda>f. int32 (ftag f)) ?flds" using "2.prems"(2) by (simp add: typed_fields_def)
  show ?case
  proof (cases "?flds = [] \<or> get_field m (ftag (?flds ! 0)) \<noteq> Some (fvalue (?flds ! 0))")
    case True
    with "2.prems"(3) have "process_mocks w m rules st = Defined (b, st')"
      by (auto simp: Let_def split: if_splits)
    with True 2 show ?thesis by (cases "?flds = []") auto
  next
    case False
    note step = "2.prems"(3) [unfolded process_mocks.simps Let_def serialize_mock [OF typed]]
    show ?thesis
    proof (cases "length ?data \<le> 4096")
      case long: False
      with False step have rec: "process_mocks w m rules ?st1 = Defined (b, st')" by simp
      have "serialize_message (mock_response (rn_session st) (w_stamp w (rn_stamps st)) ?flds) serialize_buf SOH =
          Defined (Inl No_buffer_space)"
        using serialize_mock [OF typed] long by simp
      with False 2(2) [OF refl] rec "2.prems" have "moved ?st1 st'" by auto
      then show ?thesis by (simp add: moved_def)
    next
      case True
      obtain ok c where send: "op_send ops ?data (rn_conn st) = (ok, c)" by fastforce
      with False True step "2.prems"(1) obtain s where s: "on_message_sent (rn_session st) = Defined s"
        "st' = ?st1\<lparr>rn_conn := c, rn_session := s\<rparr>"
        by (auto simp: cpp_bind_Defined)
      show ?thesis by (rule moved_send [OF send [unfolded mock_text_def] s(1)]) (simp_all add: s(2))
    qed
  qed
qed

lemma moved_send_step:
  assumes "w_ops w = ops" "typed_fields flds" "send_step w n flds st = Defined (e, st')"
  shows "if e = None then moved st st' else failed st st'"
proof -
  let ?data = "send_text (rn_session st) (w_stamp w (rn_stamps st)) flds"
  have flds: "flds \<noteq> []" using assms(3) by (auto simp: send_step_def)
  have typed: "list_all (\<lambda>f. int32 (ftag f)) flds" using assms(2) by (simp add: typed_fields_def)
  note step = assms(3) [unfolded send_step_def Let_def serialize_send [OF typed]]
  show ?thesis
  proof (cases "length ?data \<le> 4096")
    case False
    with step flds have "e \<noteq> None" "moved st st'" by (auto intro: moved_refl)
    then show ?thesis by (simp add: moved_failed)
  next
    case True
    obtain ok c where send: "op_send ops ?data (rn_conn st) = (ok, c)" by fastforce
    show ?thesis
    proof (cases ok)
      case False
      with step assms(1) flds True send have st': "st' = st\<lparr>rn_stamps := rn_stamps st + 1, rn_conn := c\<rparr>" "e \<noteq> None"
        by auto
      have "sent_as (s_config (rn_session st)) (s_next_out (rn_session st)) ?data"
        unfolding send_text_def by (rule sent_as_wire)
      with log_send [OF send] False st' show ?thesis by (auto simp: failed_def)
    next
      case True
      with step assms(1) flds \<open>length ?data \<le> 4096\<close> send obtain s where s: "on_message_sent (rn_session st) = Defined s"
        "st' = st\<lparr>rn_stamps := rn_stamps st + 1, rn_conn := c, rn_session := s\<rparr>" "e = None"
        by (auto simp: cpp_bind_Defined)
      have "moved st st'"
        by (rule moved_send [OF send [unfolded send_text_def] s(1)]) (simp_all add: s(2))
      with s(3) show ?thesis by simp
    qed
  qed
qed

text \<open>A state whose mocks are typed, and what a part of a run keeps.\<close>

definition went :: "'c runner \<Rightarrow> 'c runner \<Rightarrow> bool" where
  "went st st' \<longleftrightarrow> moved st st' \<and> rn_mocks st' = rn_mocks st"

lemma went_same: "log (rn_conn st') = log (rn_conn st) \<Longrightarrow> rn_session st' = rn_session st \<Longrightarrow>
    rn_mocks st' = rn_mocks st \<Longrightarrow> went st st'"
  by (simp add: went_def moved_refl)

lemma went_expect_message:
  assumes "w_ops w = ops" "typed_steps (rn_mocks st)" "expect_message w n flds text st = Defined r"
  shows "went st (case r of Inl st' \<Rightarrow> st' | Inr (e, st') \<Rightarrow> st')"
proof (cases "parse text SOH")
  case (Inl e)
  with assms(3) show ?thesis by (auto simp: expect_message_def intro: went_same)
next
  case (Inr m)
  with assms(3) obtain p s where rec: "receive_message (rn_session st) m = Defined (p, s)"
    by (auto simp: expect_message_def cpp_bind_Defined)
  let ?st1 = "st\<lparr>rn_session := s\<rparr>"
  have 1: "moved st ?st1" using receive_message_out [OF rec] by (simp add: moved_refl)
  show ?thesis
  proof (cases "pr_action p = DisconnectAction \<or> match_fields m flds")
    case True
    with assms(3) Inr rec 1 show ?thesis
      by (auto simp: expect_message_def Let_def went_def split: if_splits)
  next
    case False
    with assms(3) Inr rec obtain h st2 where mocks: "process_mocks w m (rn_mocks st) ?st1 = Defined (h, st2)"
      by (auto simp: expect_message_def cpp_bind_Defined)
    have "moved st st2" by (rule moved_trans [OF 1 moved_mocks [OF assms(1,2) mocks]])
    with process_mocks_frame [OF mocks] assms(3) Inr rec False mocks show ?thesis
      by (auto simp: expect_message_def went_def split: if_splits)
  qed
qed

lemma went_expect_round:
  assumes "w_ops w = ops" "typed_steps (rn_mocks st)" "expect_round w n flds t st = Defined r"
  shows "went st (case r of Inl st' \<Rightarrow> st' | Inr (e, st') \<Rightarrow> st')"
proof -
  let ?st1 = "st\<lparr>rn_ticks := rn_ticks st + 1\<rparr>"
  show ?thesis
  proof (cases "w_clock w (rn_ticks st) - t > expect_timeout")
    case True
    with assms(3) show ?thesis by (auto simp: expect_round_def Let_def intro: went_same)
  next
    case False
    obtain o1 b where ex: "extract_next_message (rn_rx st) SOH = (o1, b)" by fastforce
    show ?thesis
    proof (cases o1)
      case None
      obtain rx c where rx: "op_receive ops 500 (rn_conn st) = (rx, c)" by fastforce
      from log_receive [OF rx] False None ex rx assms show ?thesis
        by (auto simp: expect_round_def Let_def intro: went_same)
    next
      case (Some data)
      with assms(3) False ex have "expect_message w n flds data (?st1\<lparr>rn_rx := b\<rparr>) = Defined r"
        by (simp add: expect_round_def Let_def)
      from went_expect_message [OF assms(1) _ this] assms(2) show ?thesis by (simp add: went_def moved_def)
    qed
  qed
qed

lemma moved_expect_step:
  assumes "w_ops w = ops" "typed_steps (rn_mocks st)" "expect_step w n flds st = Some (Defined (e, st'))"
  shows "went st st'"
proof -
  let ?t = "w_clock w (rn_ticks st)"
  have "went st (snd (e, st'))"
  proof (rule iterate_result [where P = "went st" and Q = "\<lambda>r. went st (snd r)"])
    show "iterate (expect_round w n flds ?t) (st\<lparr>rn_ticks := rn_ticks st + 1\<rparr>) = Some (Defined (e, st'))"
      using assms(3) by (simp add: expect_step_def Let_def)
    show "went st (st\<lparr>rn_ticks := rn_ticks st + 1\<rparr>)" by (simp add: went_def moved_refl)
    fix s assume s: "went st s"
    then have "typed_steps (rn_mocks s)" using assms(2) by (simp add: went_def)
    with s went_expect_round [OF assms(1) this, of n flds ?t] moved_trans
    show "round_ok (went st) (\<lambda>r. went st (snd r)) (expect_round w n flds ?t) s"
      by (fastforce simp: round_ok_def went_def split: cpp.split sum.split)
  qed
  then show ?thesis by simp
qed

lemma moved_run_step:
  assumes "w_ops w = ops" "typed_steps (rn_mocks st)" "typed_fields (st_fields step)"
    and "run_step w n step st = Some (Defined (e, st'))"
  shows "(if e = None then moved st st' else failed st st') \<and> typed_steps (rn_mocks st')"
proof (cases "st_type step")
  case Connect
  obtain ok c where "op_connect ops (rn_conn st) = (ok, c)" by fastforce
  with Connect assms log_connect [OF this] show ?thesis
    by (auto simp: run_step_def Let_def intro: moved_refl moved_failed [OF moved_refl])
next
  case Disconnect
  with assms have "st' = st\<lparr>rn_conn := op_disconnect ops (rn_conn st)\<rparr>" "e = None" by (simp_all add: run_step_def)
  with log_disconnect assms(2) show ?thesis by (simp add: moved_refl)
next
  case Send
  with assms(4) have send: "send_step w n (st_fields step) st = Defined (e, st')" by (simp add: run_step_def)
  then have "rn_mocks st' = rn_mocks st"
    by (auto simp: send_step_def Let_def cpp_bind_Defined split: if_splits cpp.splits sum.splits prod.splits)
  with moved_send_step [OF assms(1,3) send] assms(2) show ?thesis by simp
next
  case Expect
  with assms(4) have "expect_step w n (st_fields step) st = Some (Defined (e, st'))" by (simp add: run_step_def)
  from moved_expect_step [OF assms(1,2) this] assms(2) show ?thesis by (auto simp: went_def moved_failed)
next
  case Mock
  with assms show ?thesis by (auto simp: run_step_def intro: moved_refl)
qed

lemma moved_run_from:
  "w_ops w = ops \<Longrightarrow> typed_steps (rn_mocks st) \<Longrightarrow> typed_steps steps \<Longrightarrow>
     run_from w n steps st = Some (Defined (r, st')) \<Longrightarrow>
     (if rr_success r then moved st st' else failed st st')"
proof (induction steps arbitrary: n st)
  case Nil
  then show ?case by (auto intro: moved_refl)
next
  case (Cons step steps)
  then obtain o1 st1 where o1: "run_step w (n + 1) step st = Some (Defined (o1, st1))"
    by (auto split: option.splits cpp.splits)
  have 1: "if o1 = None then moved st st1 else failed st st1" "typed_steps (rn_mocks st1)"
    using moved_run_step [OF Cons.prems(1,2) _ o1] Cons.prems(3) by simp_all
  show ?case
  proof (cases o1)
    case None
    with Cons.prems o1 have "run_from w (n + 1) steps st1 = Some (Defined (r, st'))" by simp
    from Cons.IH [OF Cons.prems(1) 1(2) _ this] Cons.prems(3) 1(1) None moved_trans failed_trans
    show ?thesis by (auto split: if_splits)
  next
    case (Some e)
    with Cons.prems o1 1 show ?thesis by auto
  qed
qed

text \<open>Without mocks, an \<open>EXPECT\<close> step sends nothing.\<close>

definition quiet :: "'c runner \<Rightarrow> 'c runner \<Rightarrow> bool" where
  "quiet st st' \<longleftrightarrow> log (rn_conn st') = log (rn_conn st) \<and>
     s_next_out (rn_session st') = s_next_out (rn_session st) \<and> rn_mocks st' = []"

lemma quiet_trans: "quiet st st1 \<Longrightarrow> quiet st1 st2 \<Longrightarrow> quiet st st2"
  by (simp add: quiet_def)

lemma quiet_expect_message:
  assumes "rn_mocks st = []" "expect_message w n flds text st = Defined r"
  shows "quiet st (case r of Inl st' \<Rightarrow> st' | Inr (e, st') \<Rightarrow> st')"
proof (cases "parse text SOH")
  case (Inl e)
  with assms show ?thesis by (auto simp: expect_message_def quiet_def)
next
  case (Inr m)
  with assms(2) obtain p s where rec: "receive_message (rn_session st) m = Defined (p, s)"
    by (auto simp: expect_message_def cpp_bind_Defined)
  from receive_message_out [OF rec] rec assms Inr show ?thesis
    by (auto simp: expect_message_def quiet_def Let_def split: if_splits)
qed

lemma quiet_expect_round:
  assumes "w_ops w = ops" "rn_mocks st = []" "expect_round w n flds t st = Defined r"
  shows "quiet st (case r of Inl st' \<Rightarrow> st' | Inr (e, st') \<Rightarrow> st')"
proof (cases "w_clock w (rn_ticks st) - t > expect_timeout")
  case True
  with assms show ?thesis by (auto simp: expect_round_def Let_def quiet_def)
next
  case False
  obtain o1 b where ex: "extract_next_message (rn_rx st) SOH = (o1, b)" by fastforce
  show ?thesis
  proof (cases o1)
    case None
    obtain rx c where rx: "op_receive ops 500 (rn_conn st) = (rx, c)" by fastforce
    from log_receive [OF rx] False None ex rx assms show ?thesis
      by (auto simp: expect_round_def Let_def quiet_def)
  next
    case (Some data)
    let ?st2 = "st\<lparr>rn_ticks := rn_ticks st + 1, rn_rx := b\<rparr>"
    from assms(3) False ex Some have "expect_message w n flds data ?st2 = Defined r"
      by (simp add: expect_round_def Let_def)
    from quiet_expect_message [OF _ this] assms(2) show ?thesis by (simp add: quiet_def)
  qed
qed

lemma quiet_expect_step:
  assumes "w_ops w = ops" "rn_mocks st = []" "expect_step w n flds st = Some (Defined (e, st'))"
  shows "quiet st st'"
proof -
  let ?t = "w_clock w (rn_ticks st)"
  have "quiet st (snd (e, st'))"
  proof (rule iterate_result [where P = "quiet st" and Q = "\<lambda>r. quiet st (snd r)"])
    show "iterate (expect_round w n flds ?t) (st\<lparr>rn_ticks := rn_ticks st + 1\<rparr>) = Some (Defined (e, st'))"
      using assms(3) by (simp add: expect_step_def Let_def)
    show "quiet st (st\<lparr>rn_ticks := rn_ticks st + 1\<rparr>)" using assms(2) by (simp add: quiet_def)
    fix s assume s: "quiet st s"
    then have "rn_mocks s = []" by (simp add: quiet_def)
    from s quiet_trans quiet_expect_round [OF assms(1) this, of n flds ?t]
    show "round_ok (quiet st) (\<lambda>r. quiet st (snd r)) (expect_round w n flds ?t) s"
      by (fastforce simp: round_ok_def split: cpp.split sum.split)
  qed
  then show ?thesis by simp
qed

lemma quiet_run_from:
  "w_ops w = ops \<Longrightarrow> rn_mocks st = [] \<Longrightarrow> set (map st_type steps) \<subseteq> {Connect, Disconnect, Expect} \<Longrightarrow>
     run_from w n steps st = Some (Defined (r, st')) \<Longrightarrow> quiet st st'"
proof (induction steps arbitrary: n st)
  case Nil
  then show ?case by (simp add: quiet_def)
next
  case (Cons step steps)
  then obtain o1 st1 where o1: "run_step w (n + 1) step st = Some (Defined (o1, st1))"
    by (auto split: option.splits cpp.splits)
  obtain ok c where conn: "op_connect ops (rn_conn st) = (ok, c)" by fastforce
  have 1: "quiet st st1"
    using Cons.prems(1-3) o1 log_connect [OF conn] log_disconnect [of "rn_conn st"] conn
    by (auto simp: run_step_def quiet_def Let_def dest!: quiet_expect_step [OF Cons.prems(1,2)])
  show ?case
  proof (cases o1)
    case None
    with Cons.prems o1 have "run_from w (n + 1) steps st1 = Some (Defined (r, st'))" by simp
    with Cons.IH [OF Cons.prems(1), of st1] Cons.prems(3) 1 show ?thesis by (auto simp: quiet_def)
  next
    case (Some e)
    with Cons.prems o1 1 show ?thesis by simp
  qed
qed

end

text \<open>A connection with such a record keeps the contract of sending: the texts it accepted, strung together.\<close>

sublocale logging_connection \<subseteq> sends: connection "op_send ops" "\<lambda>c. concat (map fst (filter snd (log c)))"
  by unfold_locales (auto dest!: log_send intro: exI [of _ 0])

text \<open>For examples: while the runner waits, the server's side of an in-memory connection follows a script.\<close>

definition scripted_server :: "(nat \<Rightarrow> mem_conn \<Rightarrow> string list) \<Rightarrow> nat \<Rightarrow> mem_conn \<Rightarrow> mem_conn" where
  "scripted_server script t c = c\<lparr>mc_to_client := mc_to_client c @ script t c\<rparr>"

section \<open>What a successful step has done\<close>

text \<open>What arrived while waiting: \<open>rs\<close> are texts the connection returned.\<close>

definition arrived :: "'c world \<Rightarrow> string list \<Rightarrow> bool" where
  "arrived w rs \<longleftrightarrow> (\<forall>x\<in>set rs. \<exists>c c'. op_receive (w_ops w) 500 c = (Some x, c'))"

text \<open>
  Told without the step's own code: a connect succeeded; the message of a \<open>SEND\<close> was handed
  to the connection, which took it, and was counted; an \<open>EXPECT\<close> has found, in what came over
  the connection, a message with all expected values, which the session did not refuse; a
  mock was registered.
\<close>

definition step_done :: "'c world \<Rightarrow> scenario_step \<Rightarrow> 'c runner \<Rightarrow> 'c runner \<Rightarrow> bool" where
  "step_done w step st st' \<longleftrightarrow>
     (case st_type step of
        Connect \<Rightarrow> op_connect (w_ops w) (rn_conn st) = (True, rn_conn st') \<and> rn_session st' = rn_session st
      | Disconnect \<Rightarrow> rn_conn st' = op_disconnect (w_ops w) (rn_conn st) \<and> rn_session st' = rn_session st
      | Send \<Rightarrow>
          op_send (w_ops w) (send_text (rn_session st) (w_stamp w (rn_stamps st)) (st_fields step)) (rn_conn st) =
            (True, rn_conn st') \<and>
          rn_session st' = (rn_session st)\<lparr>s_next_out := s_next_out (rn_session st) + 1\<rparr>
      | Expect \<Rightarrow> (\<exists>rs before data m s p.
          arrived w rs \<and> suffix (before @ data @ rn_rx st') (rn_rx st @ concat rs) \<and> frameable SOH data \<and>
          parse data SOH = Inr m \<and> (\<forall>f\<in>set (st_fields step). get_field m (ftag f) = Some (fvalue f)) \<and>
          receive_message s m = Defined (p, rn_session st') \<and> pr_action p \<noteq> DisconnectAction)
      | Mock \<Rightarrow> rn_mocks st' = rn_mocks st @ [step] \<and> rn_conn st' = rn_conn st \<and> rn_session st' = rn_session st)"

fun all_done :: "'c world \<Rightarrow> scenario_step list \<Rightarrow> 'c runner \<Rightarrow> 'c runner \<Rightarrow> bool" where
  "all_done w [] st st' \<longleftrightarrow> st' = st"
| "all_done w (step # steps) st st' \<longleftrightarrow> (\<exists>st1. step_done w step st st1 \<and> all_done w steps st1 st')"

lemma extract_suffix: "extract_next_message b sep = (x, r) \<Longrightarrow> suffix r b"
  by (auto simp: extract_next_message_def Let_def suffix_drop intro: suffix_order.trans [OF suffix_drop]
      split: option.splits if_splits)

lemma expect_message_kept:
  "expect_message w n flds x st = Defined (Inl st') \<Longrightarrow> rn_rx st' = rn_rx st"
  by (auto simp: expect_message_def cpp_bind_Defined Let_def dest!: process_mocks_frame
      split: if_splits sum.splits)

text \<open>The receive buffer is what is left of what arrived.\<close>

definition from_arrived :: "'c world \<Rightarrow> string \<Rightarrow> 'c runner \<Rightarrow> bool" where
  "from_arrived w b0 st \<longleftrightarrow> (\<exists>rs. arrived w rs \<and> suffix (rn_rx st) (b0 @ concat rs))"

lemma from_arrived_round:
  assumes "from_arrived w b0 st" "expect_round w n flds t st = Defined (Inl st')"
  shows "from_arrived w b0 st'"
proof -
  obtain rs where rs: "arrived w rs" "suffix (rn_rx st) (b0 @ concat rs)"
    using assms(1) by (auto simp: from_arrived_def)
  have in_time: "\<not> w_clock w (rn_ticks st) - t > expect_timeout"
    using assms(2) by (auto simp: expect_round_def Let_def)
  obtain o1 b where ex: "extract_next_message (rn_rx st) SOH = (o1, b)" by fastforce
  have b: "suffix b (b0 @ concat rs)" using extract_suffix [OF ex] rs(2) by (rule suffix_order.trans)
  show ?thesis
  proof (cases o1)
    case (Some data)
    with assms(2) in_time ex have "rn_rx st' = b"
      by (auto simp: expect_round_def Let_def dest: expect_message_kept)
    with rs(1) b show ?thesis by (auto simp: from_arrived_def)
  next
    case None
    obtain rx c where rx: "op_receive (w_ops w) 500 (rn_conn st) = (rx, c)" by fastforce
    with assms(2) in_time ex None have st': "rn_rx st' = b @ (case rx of Some d \<Rightarrow> d | None \<Rightarrow> [])"
      by (auto simp: expect_round_def Let_def)
    show ?thesis
    proof (cases rx)
      case (Some d)
      have "arrived w (rs @ [d])" using rs(1) rx Some by (auto simp: arrived_def)
      moreover have "suffix (rn_rx st') (b0 @ concat (rs @ [d]))"
        using b st' Some by (auto simp: suffix_def)
      ultimately show ?thesis unfolding from_arrived_def by blast
    qed (use rs(1) b st' in \<open>auto simp: from_arrived_def\<close>)
  qed
qed

lemma expect_round_matched:
  assumes "from_arrived w b0 st" "expect_round w n flds t st = Defined (Inr (None, st'))"
  shows "\<exists>rs before data m s p. arrived w rs \<and> suffix (before @ data @ rn_rx st') (b0 @ concat rs) \<and>
    frameable SOH data \<and> parse data SOH = Inr m \<and> (\<forall>f\<in>set flds. get_field m (ftag f) = Some (fvalue f)) \<and>
    receive_message s m = Defined (p, rn_session st') \<and> pr_action p \<noteq> DisconnectAction"
proof -
  obtain rs where rs: "arrived w rs" "suffix (rn_rx st) (b0 @ concat rs)"
    using assms(1) by (auto simp: from_arrived_def)
  have in_time: "\<not> w_clock w (rn_ticks st) - t > expect_timeout"
    using assms(2) by (auto simp: expect_round_def Let_def)
  obtain o1 b where ex: "extract_next_message (rn_rx st) SOH = (o1, b)" by fastforce
  obtain rx c where "op_receive (w_ops w) 500 (rn_conn st) = (rx, c)" by fastforce
  with assms(2) in_time ex obtain data where data: "o1 = Some data"
    by (cases o1) (auto simp: expect_round_def Let_def)
  from extract_SomeD [OF ex [unfolded data]] obtain before where
    before: "rn_rx st = before @ data @ b" "frameable SOH data" by (auto simp: SOH_def is_digit_def)
  from assms(2) in_time ex data
  have msg: "expect_message w n flds data (st\<lparr>rn_ticks := rn_ticks st + 1, rn_rx := b\<rparr>) = Defined (Inr (None, st'))"
    by (simp add: expect_round_def Let_def)
  then obtain m p s where m: "parse data SOH = Inr m" "receive_message (rn_session st) m = Defined (p, s)"
    by (auto simp: expect_message_def cpp_bind_Defined split: sum.splits)
  with msg have "pr_action p \<noteq> DisconnectAction" "match_fields m flds" "rn_session st' = s" "rn_rx st' = b"
    by (auto simp: expect_message_def cpp_bind_Defined Let_def split: if_splits)
  with rs before m show ?thesis
    by (intro exI [of _ rs] exI [of _ before] exI [of _ data] exI [of _ m] exI [of _ "rn_session st"] exI [of _ p])
      (auto simp: match_fields_def list_all_iff)
qed

lemma expect_step_matched:
  assumes "expect_step w n flds st = Some (Defined (None, st'))"
  shows "\<exists>rs before data m s p. arrived w rs \<and> suffix (before @ data @ rn_rx st') (rn_rx st @ concat rs) \<and>
    frameable SOH data \<and> parse data SOH = Inr m \<and> (\<forall>f\<in>set flds. get_field m (ftag f) = Some (fvalue f)) \<and>
    receive_message s m = Defined (p, rn_session st') \<and> pr_action p \<noteq> DisconnectAction"
proof -
  let ?Q = "\<lambda>r :: string option \<times> 'a runner. fst r = None \<longrightarrow> (\<exists>rs before data m s p. arrived w rs \<and>
    suffix (before @ data @ rn_rx (snd r)) (rn_rx st @ concat rs) \<and>
    frameable SOH data \<and> parse data SOH = Inr m \<and> (\<forall>f\<in>set flds. get_field m (ftag f) = Some (fvalue f)) \<and>
    receive_message s m = Defined (p, rn_session (snd r)) \<and> pr_action p \<noteq> DisconnectAction)"
  have "?Q (None, st')"
  proof (rule iterate_result [where P = "from_arrived w (rn_rx st)" and Q = ?Q, OF assms [unfolded expect_step_def Let_def]])
    show "from_arrived w (rn_rx st) (st\<lparr>rn_ticks := rn_ticks st + 1\<rparr>)"
      by (auto simp: from_arrived_def arrived_def intro: exI [of _ "[]"])
    fix s assume s: "from_arrived w (rn_rx st) s"
    show "round_ok (from_arrived w (rn_rx st)) ?Q (expect_round w n flds (w_clock w (rn_ticks st))) s"
      unfolding round_ok_def
      using from_arrived_round [OF s, of n flds "w_clock w (rn_ticks st)"]
        expect_round_matched [OF s, of n flds "w_clock w (rn_ticks st)"]
      by (fastforce split: cpp.split sum.split)
  qed
  then show ?thesis by simp
qed

lemma run_step_done:
  assumes "run_step w n step st = Some (Defined (None, st'))" "typed_fields (st_fields step)"
  shows "step_done w step st st'"
proof (cases "st_type step")
  case Send
  have typed: "list_all (\<lambda>f. int32 (ftag f)) (st_fields step)" using assms(2) by (simp add: typed_fields_def)
  from assms(1) Send have "send_step w n (st_fields step) st = Defined (None, st')" by (simp add: run_step_def)
  with Send show ?thesis
    unfolding send_step_def Let_def serialize_send [OF typed]
    by (auto simp: step_done_def on_message_sent_def cpp_bind_Defined int_incr_def split: if_splits prod.splits)
next
  case Expect
  with assms(1) have "expect_step w n (st_fields step) st = Some (Defined (None, st'))" by (simp add: run_step_def)
  from expect_step_matched [OF this] Expect show ?thesis by (simp add: step_done_def)
qed (use assms(1) in \<open>auto simp: run_step_def step_done_def Let_def split: prod.splits if_splits\<close>)

lemma run_from_done:
  "run_from w n steps st = Some (Defined (r, st')) \<Longrightarrow> rr_success r \<Longrightarrow> typed_steps steps \<Longrightarrow>
     all_done w steps st st'"
proof (induction steps arbitrary: n st)
  case (Cons step steps)
  then obtain o1 st1 where o1: "run_step w (n + 1) step st = Some (Defined (o1, st1))"
    by (auto split: option.splits cpp.splits)
  with Cons.prems have "o1 = None" by (cases o1) auto
  with o1 Cons.prems Cons.IH [of "n + 1" st1] run_step_done [of w "n + 1" step st st1] show ?case by auto
qed auto

section \<open>Recording the calls of a connection\<close>

text \<open>
  Any connection becomes one with such a record when each call of \<open>send\<close> is noted beside its
  state.  The runner cannot tell the difference: its run is the same up to the notes.
\<close>

definition recorded :: "'c connection_ops \<Rightarrow> ('c \<times> (string \<times> bool) list) connection_ops" where
  "recorded ops =
     \<lparr>op_connect = \<lambda>(c, l). (case op_connect ops c of (ok, c') \<Rightarrow> (ok, (c', l))),
      op_disconnect = \<lambda>(c, l). (op_disconnect ops c, l),
      op_send = \<lambda>d (c, l). (case op_send ops d c of (ok, c') \<Rightarrow> (ok, (c', l @ [(d, ok)]))),
      op_receive = \<lambda>t (c, l). (case op_receive ops t c of (r, c') \<Rightarrow> (r, (c', l)))\<rparr>"

definition recording :: "'c world \<Rightarrow> ('c \<times> (string \<times> bool) list) world" where
  "recording w = \<lparr>w_ops = recorded (w_ops w), w_clock = w_clock w, w_stamp = w_stamp w\<rparr>"

definition with_calls :: "(string \<times> bool) list \<Rightarrow> 'c runner \<Rightarrow> ('c \<times> (string \<times> bool) list) runner" where
  "with_calls calls st = \<lparr>rn_session = rn_session st, rn_conn = (rn_conn st, calls), rn_mocks = rn_mocks st,
     rn_rx = rn_rx st, rn_ticks = rn_ticks st, rn_stamps = rn_stamps st\<rparr>"

definition forget :: "('c \<times> (string \<times> bool) list) runner \<Rightarrow> 'c runner" where
  "forget st = \<lparr>rn_session = rn_session st, rn_conn = fst (rn_conn st), rn_mocks = rn_mocks st,
     rn_rx = rn_rx st, rn_ticks = rn_ticks st, rn_stamps = rn_stamps st\<rparr>"

interpretation noted: logging_connection "recorded ops" snd for ops
  by unfold_locales (auto simp: recorded_def split: prod.splits)

lemma forget_simps [simp]:
  "rn_session (forget st) = rn_session st" "rn_conn (forget st) = fst (rn_conn st)"
  "rn_mocks (forget st) = rn_mocks st" "rn_rx (forget st) = rn_rx st" "rn_ticks (forget st) = rn_ticks st"
  "rn_stamps (forget st) = rn_stamps st" "forget (with_calls calls st0) = st0"
  "forget (st\<lparr>rn_session := s\<rparr>) = (forget st)\<lparr>rn_session := s\<rparr>"
  "forget (st\<lparr>rn_conn := c\<rparr>) = (forget st)\<lparr>rn_conn := fst c\<rparr>"
  "forget (st\<lparr>rn_mocks := ms\<rparr>) = (forget st)\<lparr>rn_mocks := ms\<rparr>"
  "forget (st\<lparr>rn_rx := b\<rparr>) = (forget st)\<lparr>rn_rx := b\<rparr>"
  "forget (st\<lparr>rn_ticks := k\<rparr>) = (forget st)\<lparr>rn_ticks := k\<rparr>"
  "forget (st\<lparr>rn_stamps := k\<rparr>) = (forget st)\<lparr>rn_stamps := k\<rparr>"
  by (simp_all add: forget_def with_calls_def)

lemma with_calls_forget: "with_calls (snd (rn_conn st)) (forget st) = st"
  by (simp add: forget_def with_calls_def)

lemma recording_simps [simp]:
  "w_clock (recording w) = w_clock w" "w_stamp (recording w) = w_stamp w" "w_ops (recording w) = recorded (w_ops w)"
  by (simp_all add: recording_def)

lemma recorded_calls:
  "op_connect ops (fst c) = map_prod id fst (op_connect (recorded ops) c)"
  "op_disconnect ops (fst c) = fst (op_disconnect (recorded ops) c)"
  "op_send ops d (fst c) = map_prod id fst (op_send (recorded ops) d c)"
  "op_receive ops t (fst c) = map_prod id fst (op_receive (recorded ops) t c)"
  by (simp_all add: recorded_def split: prod.split)

lemma send_step_forget:
  "send_step w n flds (forget st) = map_cpp (map_prod id forget) (send_step (recording w) n flds st)"
  by (auto simp: send_step_def Let_def recorded_calls cpp_bind_def split: cpp.split sum.split prod.split)

lemma process_mocks_forget:
  "process_mocks w m rules (forget st) = map_cpp (map_prod id forget) (process_mocks (recording w) m rules st)"
proof (induction rules arbitrary: st)
  case (Cons rule rules)
  have IH: "process_mocks w m rules ((forget st)\<lparr>rn_stamps := k\<rparr>) =
      map_cpp (map_prod id forget) (process_mocks (recording w) m rules (st\<lparr>rn_stamps := k\<rparr>))" for k
    using Cons [of "st\<lparr>rn_stamps := k\<rparr>"] by (simp add: id_def)
  show ?case
    by (auto simp: IH Cons Let_def recorded_calls cpp_bind_def id_def split: cpp.split sum.split prod.split)
qed simp

lemma expect_message_forget:
  "expect_message w n flds text (forget st) =
     map_cpp (map_sum forget (map_prod id forget)) (expect_message (recording w) n flds text st)"
proof -
  have mocks: "process_mocks w m rules ((forget st)\<lparr>rn_session := s\<rparr>) =
      map_cpp (map_prod id forget) (process_mocks (recording w) m rules (st\<lparr>rn_session := s\<rparr>))" for m rules s
    using process_mocks_forget [of w m rules "st\<lparr>rn_session := s\<rparr>"] by simp
  show ?thesis
    by (auto simp: expect_message_def mocks Let_def cpp_bind_def split: cpp.split sum.split prod.split)
qed

lemma expect_round_forget:
  "expect_round w n flds t (forget st) =
     map_cpp (map_sum forget (map_prod id forget)) (expect_round (recording w) n flds t st)"
proof -
  have message: "expect_message w n flds x ((forget st)\<lparr>rn_ticks := k, rn_rx := b\<rparr>) =
      map_cpp (map_sum forget (map_prod id forget)) (expect_message (recording w) n flds x (st\<lparr>rn_ticks := k, rn_rx := b\<rparr>))"
    for x k b
    using expect_message_forget [of w n flds x "st\<lparr>rn_ticks := k, rn_rx := b\<rparr>"] by simp
  show ?thesis
    by (auto simp: expect_round_def message Let_def recorded_calls split: option.split prod.split)
qed

lemma expect_step_forget:
  "expect_step w n flds (forget st) =
     map_option (map_cpp (map_prod id forget)) (expect_step (recording w) n flds st)"
proof -
  let ?t = "w_clock w (rn_ticks st)"
  have "iterate (expect_round w n flds ?t) (forget (st\<lparr>rn_ticks := rn_ticks st + 1\<rparr>)) =
      map_option (map_cpp (map_prod id forget))
        (iterate (expect_round (recording w) n flds ?t) (st\<lparr>rn_ticks := rn_ticks st + 1\<rparr>))"
    by (rule iterate_corresponds) (rule expect_round_forget)
  then show ?thesis by (simp add: expect_step_def Let_def)
qed

lemma run_step_forget:
  "run_step w n step (forget st) =
     map_option (map_cpp (map_prod id forget)) (run_step (recording w) n step st)"
  by (cases "st_type step")
    (auto simp: run_step_def expect_step_forget send_step_forget Let_def recorded_calls split: prod.split)

lemma run_from_forget:
  "run_from w n steps (forget st) =
     map_option (map_cpp (map_prod id forget)) (run_from (recording w) n steps st)"
  by (induction steps arbitrary: n st)
    (auto simp: run_step_forget split: option.split cpp.split prod.split)

lemma run_recorded:
  assumes "run w sc st = Some (Defined (r, st'))"
  shows "\<exists>calls. run (recording w) sc (with_calls [] st) = Some (Defined (r, with_calls calls st'))"
proof -
  have "run w sc st = map_option (map_cpp (map_prod id forget)) (run (recording w) sc (with_calls [] st))"
    using run_from_forget [of w 0 "sc_steps sc" "(with_calls [] st)\<lparr>rn_rx := []\<rparr>"] by (simp add: run_def)
  with assms obtain y where y: "run (recording w) sc (with_calls [] st) = Some y" "map_cpp (map_prod id forget) y = Defined (r, st')"
    by auto
  then obtain st2 where st2: "run (recording w) sc (with_calls [] st) = Some (Defined (r, st2))" "forget st2 = st'"
    by (cases y) auto
  with with_calls_forget [of st2] show ?thesis by metis
qed

lemma numbered_nth:
  assumes "numbered cfg n calls"
  shows "\<forall>i<length calls. \<exists>msg_type time_str extra. list_all (\<lambda>f. ftag f \<noteq> 34) extra \<and>
     fst (calls ! i) = frame SOH (sc_begin_string cfg)
       ([\<lparr>ftag = 35, fvalue = msg_type\<rparr>, \<lparr>ftag = 49, fvalue = sc_sender_comp_id cfg\<rparr>,
         \<lparr>ftag = 56, fvalue = sc_target_comp_id cfg\<rparr>, \<lparr>ftag = 34, fvalue = show_int (n + int i)\<rparr>,
         \<lparr>ftag = 52, fvalue = time_str\<rparr>] @ extra)"
  using assms
proof (induction calls arbitrary: n)
  case (Cons call calls)
  then obtain mt time extra where "list_all (\<lambda>f. \<not> header_tag (ftag f)) extra" "fst call = numbered_text cfg n mt time extra"
    by (auto simp: sent_as_def)
  then have first: "list_all (\<lambda>f. ftag f \<noteq> 34) extra" "fst call = numbered_text cfg n mt time extra"
    by (auto simp: header_tag_def list_all_iff)
  show ?case
  proof (intro allI impI)
    fix i assume i: "i < length (call # calls)"
    show "\<exists>msg_type time_str extra. list_all (\<lambda>f. ftag f \<noteq> 34) extra \<and>
       fst ((call # calls) ! i) = frame SOH (sc_begin_string cfg)
       ([\<lparr>ftag = 35, fvalue = msg_type\<rparr>, \<lparr>ftag = 49, fvalue = sc_sender_comp_id cfg\<rparr>,
         \<lparr>ftag = 56, fvalue = sc_target_comp_id cfg\<rparr>, \<lparr>ftag = 34, fvalue = show_int (n + int i)\<rparr>,
         \<lparr>ftag = 52, fvalue = time_str\<rparr>] @ extra)"
    proof (cases i)
      case 0
      with first show ?thesis unfolding numbered_text_def by auto
    next
      case (Suc j)
      with i Cons.IH [of "n + 1"] Cons.prems show ?thesis by (auto simp: algebra_simps)
    qed
  qed
qed simp

text \<open>The whole \<open>SEND\<close> step, branch by branch.\<close>

lemma send_step_eq:
  assumes "list_all (\<lambda>f. int32 (ftag f)) flds"
  shows "send_step w n flds st =
    (let data = send_text (rn_session st) (w_stamp w (rn_stamps st)) flds;
         (ok, c) = op_send (w_ops w) data (rn_conn st);
         st1 = st\<lparr>rn_stamps := rn_stamps st + 1\<rparr>
     in if flds = [] then Undefined
        else if length data > 4096 then Defined (Some (step_error n ''SEND'' ''Serialization failed''), st1)
        else if \<not> ok then Defined (Some (step_error n ''SEND'' ''Send failed''), st1\<lparr>rn_conn := c\<rparr>)
        else if s_next_out (rn_session st) = int_max then Undefined
        else Defined (None, st1\<lparr>rn_conn := c,
               rn_session := (rn_session st)\<lparr>s_next_out := s_next_out (rn_session st) + 1\<rparr>\<rparr>))"
  unfolding send_step_def Let_def serialize_send [OF assms]
  by (auto simp: on_message_sent_def int_incr_def split: prod.split)

section \<open>Properties\<close>

text \<open>
  C12: a \<open>SEND\<close> step hands the connection exactly one message: the header made from the
  session's configuration and next number, then the fields of the step that are not header
  fields, framed with length and checksum; it then counts the number up.  It fails, with
  the counter unchanged, when the message does not fit 4096 bytes or the connection
  refuses it, and it is undefined when the step has no field or the counter is exhausted.
\<close>

theorem send_step_exact:
  assumes "list_all (\<lambda>f. int32 (ftag f)) flds"
  shows "send_step w n flds st =
    (let data = send_text (rn_session st) (w_stamp w (rn_stamps st)) flds;
         (ok, c) = op_send (w_ops w) data (rn_conn st);
         st1 = st\<lparr>rn_stamps := rn_stamps st + 1\<rparr>
     in if flds = [] then Undefined
        else if length data > 4096 then Defined (Some (step_error n ''SEND'' ''Serialization failed''), st1)
        else if \<not> ok then Defined (Some (step_error n ''SEND'' ''Send failed''), st1\<lparr>rn_conn := c\<rparr>)
        else if s_next_out (rn_session st) = int_max then Undefined
        else Defined (None, st1\<lparr>rn_conn := c,
               rn_session := (rn_session st)\<lparr>s_next_out := s_next_out (rn_session st) + 1\<rparr>\<rparr>))"
  by (rule send_step_eq [OF assms])

definition sample_world :: "mem_conn world" where
  "sample_world = \<lparr>w_ops = mem_ops (scripted_server (\<lambda>t c. [])), w_clock = \<lambda>k. int k * 1000000000,
     w_stamp = \<lambda>k. ''20240101-00:00:00.000''\<rparr>"

theorem send_step_exact_witness:
  "\<exists>st. send_step sample_world 1 [\<lparr>ftag = 35, fvalue = ''A''\<rparr>]
      (new_runner (new_session default_config) (new_mem_conn\<lparr>mc_connected := True\<rparr>)) = Defined (None, st) \<and>
    s_next_out (rn_session st) = 2"
proof -
  let ?fs = "[\<lparr>ftag = 35, fvalue = ''A''\<rparr>]"
  let ?st = "new_runner (new_session default_config) (new_mem_conn\<lparr>mc_connected := True\<rparr>)"
  have ok: "list_all (\<lambda>f. int32 (ftag f)) ?fs" by code_simp
  have len: "length (send_text (new_session default_config) ''20240101-00:00:00.000'' ?fs) \<le> 4096" by code_simp
  show ?thesis
    unfolding send_step_exact [OF ok]
    using len by (simp add: Let_def sample_world_def new_runner_def mem_ops_def mem_send_def new_mem_conn_def
      new_session_def int_max_def)
qed

text \<open>
  C10: running a scenario comes to an end, whatever the scenario, the connection and the
  messages that arrive, as long as the clock goes on: no \<open>EXPECT\<close> waits for ever.
\<close>

theorem run_returns:
  assumes "\<forall>k. \<exists>n>k. w_clock w n - w_clock w k > expect_timeout"
  shows "\<exists>r. run w sc st = Some r"
  using run_from_returns [of w] assms by (simp add: run_def clock_goes_on_def)

theorem run_returns_witness:
  "\<exists>r. run sample_world (sc_expect [] (sc_connect (new_scenario ''x'')))
     (new_runner (new_session default_config) new_mem_conn) = Some r"
proof (rule run_returns, intro allI)
  fix k show "\<exists>n>k. w_clock sample_world n - w_clock sample_world k > expect_timeout"
    by (intro exI [of _ "k + 6"]) (simp add: sample_world_def expect_timeout_def)
qed

text \<open>
  The result of a run says what happened: success with all steps counted and no
  message, or the number of the step that failed, which its message names.
\<close>

theorem run_result_shape:
  assumes "run w sc st = Some (Defined (r, st'))"
  shows "if rr_success r then rr_steps_executed r = length (sc_steps sc) \<and> rr_error_message r = []
    else 1 \<le> rr_steps_executed r \<and> rr_steps_executed r \<le> length (sc_steps sc) \<and>
      (\<exists>a x. rr_error_message r = step_error (rr_steps_executed r) a x)"
  using run_from_result [OF assms [unfolded run_def]] by (auto split: if_splits)

theorem run_result_shape_witness:
  "\<exists>r st'. run sample_world (sc_disconnect (sc_connect (new_scenario ''x'')))
      (new_runner (new_session default_config) new_mem_conn) = Some (Defined (r, st')) \<and>
    rr_success r \<and> rr_steps_executed r = 2"
proof -
  let ?sc = "sc_disconnect (sc_connect (new_scenario ''x''))"
  have "case run sample_world ?sc (new_runner (new_session default_config) new_mem_conn) of
      Some (Defined (r, st')) \<Rightarrow> rr_success r | _ \<Rightarrow> False" by code_simp
  then obtain r st' where run: "run sample_world ?sc (new_runner (new_session default_config) new_mem_conn) =
      Some (Defined (r, st'))" "rr_success r"
    by (auto split: option.splits cpp.splits)
  from run_result_shape [OF run(1)] run show ?thesis
    by (simp add: sc_disconnect_def sc_connect_def add_step_steps new_scenario_def)
qed

text \<open>
  C11: over a whole run, over any connection, the messages for which \<open>send\<close> is called, by
  \<open>SEND\<close> steps and by mock responses, carry consecutive numbers in field 34, from the
  session's counter at the start; the counter ends behind the last one, except that the call
  whose failure ends a run is not counted.
\<close>

theorem run_numbers_messages:
  assumes "list_all (\<lambda>step. list_all (\<lambda>f. int32 (ftag f)) (st_fields step)) (sc_steps sc @ rn_mocks st)"
    and "run w sc st = Some (Defined (r, st'))"
  shows "\<exists>calls. run (recording w) sc (with_calls [] st) = Some (Defined (r, with_calls calls st')) \<and>
    (\<forall>i<length calls. \<exists>msg_type time_str extra. list_all (\<lambda>f. ftag f \<noteq> 34) extra \<and>
       fst (calls ! i) = frame SOH (sc_begin_string (s_config (rn_session st)))
         ([\<lparr>ftag = 35, fvalue = msg_type\<rparr>,
           \<lparr>ftag = 49, fvalue = sc_sender_comp_id (s_config (rn_session st))\<rparr>,
           \<lparr>ftag = 56, fvalue = sc_target_comp_id (s_config (rn_session st))\<rparr>,
           \<lparr>ftag = 34, fvalue = show_int (s_next_out (rn_session st) + int i)\<rparr>,
           \<lparr>ftag = 52, fvalue = time_str\<rparr>] @ extra)) \<and>
    (s_next_out (rn_session st') = s_next_out (rn_session st) + int (length calls) \<or>
     \<not> rr_success r \<and> calls \<noteq> [] \<and> \<not> snd (last calls) \<and>
       s_next_out (rn_session st') = s_next_out (rn_session st) + int (length calls) - 1)"
proof -
  obtain calls where calls: "run (recording w) sc (with_calls [] st) = Some (Defined (r, with_calls calls st'))"
    using run_recorded [OF assms(2)] by blast
  have typed: "typed_steps (rn_mocks ((with_calls [] st)\<lparr>rn_rx := []\<rparr>))" "typed_steps (sc_steps sc)"
    using assms(1) by (simp_all add: typed_steps_def typed_fields_def with_calls_def)
  from noted.moved_run_from [OF recording_simps(3) typed calls [unfolded run_def]]
  have "numbered (s_config (rn_session st)) (s_next_out (rn_session st)) calls \<and>
    (s_next_out (rn_session st') = s_next_out (rn_session st) + int (length calls) \<or>
     \<not> rr_success r \<and> calls \<noteq> [] \<and> \<not> snd (last calls) \<and>
       s_next_out (rn_session st') = s_next_out (rn_session st) + int (length calls) - 1)"
    by (auto simp: noted.moved_def noted.failed_def with_calls_def split: if_splits)
  then show ?thesis using calls numbered_nth by blast
qed

definition sample_sc :: scenario where
  "sample_sc = sc_send [\<lparr>ftag = 35, fvalue = ''A''\<rparr>] (sc_connect (new_scenario ''x''))"

definition sample_st :: "mem_conn runner" where
  "sample_st = new_runner (new_session default_config) new_mem_conn"

lemma sample_run:
  "\<exists>r st'. run sample_world sample_sc sample_st = Some (Defined (r, st')) \<and> rr_success r \<and>
     length (mc_to_server (rn_conn st')) = 1 \<and> s_next_out (rn_session st') = 2"
proof -
  have ok: "list_all (\<lambda>f. int32 (ftag f)) [\<lparr>ftag = 35, fvalue = ''A''\<rparr>]" by code_simp
  have len: "length (send_text (new_session default_config) ''20240101-00:00:00.000'' [\<lparr>ftag = 35, fvalue = ''A''\<rparr>]) \<le> 4096"
    by code_simp
  show ?thesis
    using len by (simp add: run_def sample_sc_def sample_st_def sample_world_def new_runner_def new_scenario_def
      sc_connect_def sc_send_def add_step_steps run_step_def send_step_eq [OF ok] Let_def mem_ops_def
      mem_connect_def mem_send_def new_mem_conn_def new_session_def int_max_def)
qed

theorem run_numbers_messages_witness:
  "\<exists>r st' data ok. run (recording sample_world) sample_sc (with_calls [] sample_st) =
       Some (Defined (r, with_calls [(data, ok)] st')) \<and>
     (\<exists>t extra. data = frame SOH ''FIX.4.2'' ([\<lparr>ftag = 35, fvalue = t\<rparr>, \<lparr>ftag = 49, fvalue = []\<rparr>,
       \<lparr>ftag = 56, fvalue = []\<rparr>, \<lparr>ftag = 34, fvalue = ''1''\<rparr>] @ extra))"
proof -
  obtain r st' where run: "run sample_world sample_sc sample_st = Some (Defined (r, st'))" "rr_success r"
      "s_next_out (rn_session st') = 2"
    using sample_run by blast
  have typed: "list_all (\<lambda>step. list_all (\<lambda>f. int32 (ftag f)) (st_fields step)) (sc_steps sample_sc @ rn_mocks sample_st)"
    by code_simp
  have init: "s_config (rn_session sample_st) = default_config" "s_next_out (rn_session sample_st) = 1"
    by (simp_all add: sample_st_def new_runner_def new_session_def)
  from run_numbers_messages [OF typed run(1)] obtain calls where
    calls: "run (recording sample_world) sample_sc (with_calls [] sample_st) = Some (Defined (r, with_calls calls st'))"
    and texts: "\<forall>i<length calls. \<exists>msg_type time_str extra. list_all (\<lambda>f. ftag f \<noteq> 34) extra \<and>
       fst (calls ! i) = frame SOH (sc_begin_string default_config)
         ([\<lparr>ftag = 35, fvalue = msg_type\<rparr>, \<lparr>ftag = 49, fvalue = sc_sender_comp_id default_config\<rparr>,
           \<lparr>ftag = 56, fvalue = sc_target_comp_id default_config\<rparr>, \<lparr>ftag = 34, fvalue = show_int (1 + int i)\<rparr>,
           \<lparr>ftag = 52, fvalue = time_str\<rparr>] @ extra)"
    and len: "length calls = 1"
    using run(2,3) unfolding init by auto
  obtain data ok where one: "calls = [(data, ok)]" using len by (cases calls) auto
  have "show_int 1 = ''1''" by code_simp
  with texts one obtain t time extra where "data = frame SOH ''FIX.4.2''
      ([\<lparr>ftag = 35, fvalue = t\<rparr>, \<lparr>ftag = 49, fvalue = []\<rparr>, \<lparr>ftag = 56, fvalue = []\<rparr>,
        \<lparr>ftag = 34, fvalue = ''1''\<rparr>, \<lparr>ftag = 52, fvalue = time\<rparr>] @ extra)"
    by (auto simp: default_config_def)
  then have "data = frame SOH ''FIX.4.2'' ([\<lparr>ftag = 35, fvalue = t\<rparr>, \<lparr>ftag = 49, fvalue = []\<rparr>,
       \<lparr>ftag = 56, fvalue = []\<rparr>, \<lparr>ftag = 34, fvalue = ''1''\<rparr>] @ (\<lparr>ftag = 52, fvalue = time\<rparr> # extra))"
    by simp
  with calls one show ?thesis by blast
qed

text \<open>
  C14: nothing but \<open>SEND\<close> steps and mocks transmits.  A scenario of connects, disconnects
  and expectations, over any connection, never calls \<open>send\<close> and leaves the outgoing counter
  as it was, whatever arrives: the replies the session asks for (a heartbeat to a test
  request, a logon, a resend request for a gap) are never sent.
\<close>

theorem expectations_send_nothing:
  assumes "rn_mocks st = []" "set (map st_type (sc_steps sc)) \<subseteq> {Connect, Disconnect, Expect}"
    and "run w sc st = Some (Defined (r, st'))"
  shows "run (recording w) sc (with_calls [] st) = Some (Defined (r, with_calls [] st')) \<and>
    s_next_out (rn_session st') = s_next_out (rn_session st)"
proof -
  obtain calls where calls: "run (recording w) sc (with_calls [] st) = Some (Defined (r, with_calls calls st'))"
    using run_recorded [OF assms(3)] by blast
  have "rn_mocks ((with_calls [] st)\<lparr>rn_rx := []\<rparr>) = []" using assms(1) by (simp add: with_calls_def)
  from noted.quiet_run_from [OF recording_simps(3) this assms(2) calls [unfolded run_def]]
  have "calls = []" "s_next_out (rn_session st') = s_next_out (rn_session st)"
    by (simp_all add: noted.quiet_def with_calls_def)
  with calls show ?thesis by simp
qed

text \<open>A logged-on session, a test request in the buffer of the connection.\<close>

definition test_request :: string where
  "test_request = frame SOH ''FIX.4.2'' [\<lparr>ftag = 35, fvalue = ''1''\<rparr>, \<lparr>ftag = 34, fvalue = ''1''\<rparr>]"

definition waiting_st :: "mem_conn runner" where
  "waiting_st = new_runner ((new_session default_config)\<lparr>s_logged_on := True\<rparr>)
     (new_mem_conn\<lparr>mc_to_client := [test_request]\<rparr>)"

definition waiting_sc :: scenario where
  "waiting_sc = sc_expect [\<lparr>ftag = 35, fvalue = ''1''\<rparr>] (sc_connect (new_scenario ''x''))"

theorem expectations_send_nothing_witness:
  "\<exists>r st'. run (recording sample_world) waiting_sc (with_calls [] waiting_st) =
      Some (Defined (r, with_calls [] st')) \<and> rr_success r \<and> s_next_in (rn_session st') = 2"
proof -
  have "case run sample_world waiting_sc waiting_st of
      Some (Defined (r, st')) \<Rightarrow> rr_success r \<and> s_next_in (rn_session st') = 2 | _ \<Rightarrow> False"
    by code_simp
  then obtain r st' where run: "run sample_world waiting_sc waiting_st = Some (Defined (r, st'))"
      "rr_success r" "s_next_in (rn_session st') = 2"
    by (auto split: option.splits cpp.splits)
  have st: "rn_mocks waiting_st = []" by (simp add: waiting_st_def new_runner_def)
  have types: "set (map st_type (sc_steps waiting_sc)) \<subseteq> {Connect, Disconnect, Expect}"
    by (simp add: waiting_sc_def sc_expect_def sc_connect_def add_step_steps new_scenario_def)
  from expectations_send_nothing [OF st types run(1)] run(2,3) show ?thesis by blast
qed

text \<open>
  A scenario whose \<open>SEND\<close> line has no fields is accepted by the scenario parser, and
  playing it is undefined behaviour: the runner reads the first field without looking
  whether there is one.
\<close>

theorem empty_send_undefined:
  "\<exists>sc. parse_dsl ''SEND'' = Inr sc \<and> (\<forall>w st. run w sc st = Some Undefined)"
proof -
  have "parse_dsl ''SEND'' = Inr (sc_send [] (new_scenario ''ParsedScenario''))" by code_simp
  then show ?thesis
    by (auto simp: run_def run_step_def send_step_def sc_send_def add_step_steps new_scenario_def)
qed

lemma silent_round:
  assumes "\<And>t c. op_receive (w_ops w) t c = (None, c)" "rn_rx st = []"
  shows "expect_round w n flds t st =
    (if w_clock w (rn_ticks st) - t > expect_timeout
     then Defined (Inr (Some (step_error n ''EXPECT'' ''Timeout waiting for message''), st\<lparr>rn_ticks := rn_ticks st + 1\<rparr>))
     else Defined (Inl (st\<lparr>rn_ticks := rn_ticks st + 1\<rparr>)))"
  using assms(2) by (simp add: expect_round_def Let_def assms(1) extract_next_message_def sv_find_str_def)

text \<open>
  An \<open>EXPECT\<close> step on a connection that delivers nothing fails with the timeout error
  once the clock has gone on, and leaves session and queues alone.
\<close>

theorem silence_times_out:
  assumes "\<And>t c. op_receive (w_ops w) t c = (None, c)" "rn_rx st = []"
    and "\<forall>k. \<exists>n>k. w_clock w n - w_clock w k > expect_timeout"
  shows "\<exists>k. expect_step w n flds st = Some (Defined
    (Some (step_error n ''EXPECT'' ''Timeout waiting for message''), st\<lparr>rn_ticks := k\<rparr>))"
proof -
  obtain r where r: "expect_step w n flds st = Some r"
    using expect_step_returns [of w n flds st] assms(3) by (auto simp: clock_goes_on_def)
  let ?t = "w_clock w (rn_ticks st)" and ?P = "\<lambda>s. \<exists>k. s = st\<lparr>rn_ticks := k\<rparr>"
  have round: "expect_round w n flds ?t s =
      (if w_clock w (rn_ticks s) - ?t > expect_timeout
       then Defined (Inr (Some (step_error n ''EXPECT'' ''Timeout waiting for message''), s\<lparr>rn_ticks := rn_ticks s + 1\<rparr>))
       else Defined (Inl (s\<lparr>rn_ticks := rn_ticks s + 1\<rparr>)))" if "?P s" for s
    using that silent_round [OF assms(1), of s n flds ?t] assms(2) by auto
  have "\<exists>k. r = Defined (Some (step_error n ''EXPECT'' ''Timeout waiting for message''), st\<lparr>rn_ticks := k\<rparr>)"
  proof (rule iterate_outcome [OF r [unfolded expect_step_def Let_def], of ?P])
    fix s assume "?P s"
    then show "case expect_round w n flds ?t s of
        Undefined \<Rightarrow> \<exists>k. Undefined = Defined (Some (step_error n ''EXPECT'' ''Timeout waiting for message''), st\<lparr>rn_ticks := k\<rparr>)
      | Defined (Inl s') \<Rightarrow> ?P s'
      | Defined (Inr x) \<Rightarrow> \<exists>k. Defined x = Defined (Some (step_error n ''EXPECT'' ''Timeout waiting for message''), st\<lparr>rn_ticks := k\<rparr>)"
      using round [of s] by auto
  qed auto
  with r show ?thesis by auto
qed

definition closed_world :: "unit world" where
  "closed_world = \<lparr>w_ops = \<lparr>op_connect = \<lambda>c. (True, c), op_disconnect = \<lambda>c. c,
      op_send = \<lambda>d c. (False, c), op_receive = \<lambda>t c. (None, c)\<rparr>,
     w_clock = \<lambda>k. int k * 1000000000, w_stamp = \<lambda>k. []\<rparr>"

theorem silence_times_out_witness:
  "\<exists>k. expect_step closed_world 1 [] (new_runner (new_session default_config) ()) =
    Some (Defined (Some ''Step 1 (EXPECT): Timeout waiting for message'',
      (new_runner (new_session default_config) ())\<lparr>rn_ticks := k\<rparr>))"
proof -
  have clk: "\<forall>k. \<exists>n>k. w_clock closed_world n - w_clock closed_world k > expect_timeout"
    by (rule allI, rule_tac x = "k + 6" in exI) (simp add: closed_world_def expect_timeout_def)
  have msg: "step_error 1 ''EXPECT'' ''Timeout waiting for message'' = ''Step 1 (EXPECT): Timeout waiting for message''"
    by code_simp
  have rx: "rn_rx (new_runner (new_session default_config) ()) = []" by (simp add: new_runner_def)
  have recv: "op_receive (w_ops closed_world) t c = (None, c)" for t c by (simp add: closed_world_def)
  show ?thesis using silence_times_out [OF recv rx clk, of 1 "[]"] unfolding msg .
qed

definition triggers :: "fix_message \<Rightarrow> scenario_step \<Rightarrow> bool" where
  "triggers m rule \<longleftrightarrow> st_fields rule \<noteq> [] \<and>
     get_field m (ftag (st_fields rule ! 0)) = Some (fvalue (st_fields rule ! 0))"

lemma process_mocks_skip:
  "list_all (\<lambda>r. \<not> triggers m r) pre \<Longrightarrow> process_mocks w m (pre @ rules) st = process_mocks w m rules st"
  by (induction pre) (auto simp: triggers_def Let_def)

text \<open>
  C34: the first active mock whose first field the received message carries answers it with
  the message made of its other fields under the session's header, and the outgoing
  counter goes up by one.  It goes up also when the connection refuses the response, whose
  failure nobody learns.
\<close>

theorem first_mock_answers:
  assumes "list_all (\<lambda>r. \<not> triggers m r) pre" "triggers m rule"
    and "list_all (\<lambda>f. int32 (ftag f)) (st_fields rule)"
    and "length (mock_text (rn_session st) (w_stamp w (rn_stamps st)) (st_fields rule)) \<le> 4096"
    and "s_next_out (rn_session st) < int_max"
  shows "process_mocks w m (pre @ rule # rules) st =
    Defined (True, st\<lparr>rn_stamps := rn_stamps st + 1,
      rn_conn := snd (op_send (w_ops w) (mock_text (rn_session st) (w_stamp w (rn_stamps st)) (st_fields rule)) (rn_conn st)),
      rn_session := (rn_session st)\<lparr>s_next_out := s_next_out (rn_session st) + 1\<rparr>\<rparr>)"
  using assms(2,5) unfolding process_mocks_skip [OF assms(1)]
  by (auto simp: triggers_def serialize_mock [OF assms(3)] assms(4) Let_def on_message_sent_def int_incr_def
      split: prod.split)

definition order_message :: fix_message where
  "order_message = \<lparr>m_raw = [], m_fields = [\<lparr>ftag = 8, fvalue = ''FIX.4.2''\<rparr>, \<lparr>ftag = 35, fvalue = ''D''\<rparr>]\<rparr>"

definition order_mock :: scenario_step where
  "order_mock = \<lparr>st_type = Mock, st_fields = [\<lparr>ftag = 35, fvalue = ''D''\<rparr>, \<lparr>ftag = 39, fvalue = ''2''\<rparr>], st_pool = []\<rparr>"

theorem first_mock_answers_witness:
  "\<exists>st. process_mocks closed_world order_message [order_mock] (new_runner (new_session default_config) ()) =
     Defined (True, st) \<and> s_next_out (rn_session st) = 2"
proof -
  let ?st = "new_runner (new_session default_config) ()"
  have 1: "triggers order_message order_mock" by code_simp
  have 2: "list_all (\<lambda>f. int32 (ftag f)) (st_fields order_mock)" by code_simp
  have 3: "length (mock_text (rn_session ?st) (w_stamp closed_world (rn_stamps ?st)) (st_fields order_mock)) \<le> 4096"
    unfolding closed_world_def new_runner_def by code_simp
  have 4: "s_next_out (rn_session ?st) < int_max" by (simp add: new_runner_def new_session_def int_max_def)
  have 5: "list_all (\<lambda>r. \<not> triggers order_message r) []" by simp
  from first_mock_answers [OF 5 1 2 3 4, of "[]"] show ?thesis
    by (simp add: new_runner_def new_session_def)
qed

end
