(* ===== verification/Sending_Time.thy ===== *)
theory Sending_Time
  imports Fixure_Prelude Machine
begin

text \<open>
  Sending times: \<open>get_sending_time\<close> of \<open>src/session.cpp\<close> writes the clock as
  \<open>YYYYMMDD-HH:MM:SS.mmm\<close>, \<open>parse_sending_time\<close> of \<open>src/replay.cpp\<close> reads such a text
  back into a point of time.  The C library's \<open>gmtime_r\<close> and \<open>timegm\<close> are written out for
  the Gregorian calendar.  A point of time is a number of nanoseconds since the epoch in 64
  bits (the system clock of libstdc++), whose overflow is undefined behaviour.
\<close>

section \<open>Calendar\<close>

record tm =
  tm_year :: int
  tm_mon :: int
  tm_mday :: int
  tm_hour :: int
  tm_min :: int
  tm_sec :: int

definition leap :: "int \<Rightarrow> bool" where
  "leap y \<longleftrightarrow> y mod 4 = 0 \<and> (y mod 100 \<noteq> 0 \<or> y mod 400 = 0)"

definition days_in_year :: "int \<Rightarrow> nat" where
  "days_in_year y = (if leap y then 366 else 365)"

definition month_lengths :: "int \<Rightarrow> nat list" where
  "month_lengths y = [31, if leap y then 29 else 28, 31, 30, 31, 30, 31, 31, 30, 31, 30, 31]"

function year_loop :: "int \<Rightarrow> nat \<Rightarrow> int \<times> nat" where
  "year_loop y d = (if d < days_in_year y then (y, d) else year_loop (y + 1) (d - days_in_year y))"
  by pat_completeness auto
termination
  by (relation "measure snd") (auto simp: days_in_year_def split: if_splits)

declare year_loop.simps [simp del]

fun month_loop :: "nat list \<Rightarrow> nat \<Rightarrow> nat \<times> nat" where
  "month_loop [] d = (0, d)"
| "month_loop (l # ls) d =
     (if d < l then (0, d) else (let (m, r) = month_loop ls (d - l) in (Suc m, r)))"

definition gmtime :: "nat \<Rightarrow> tm" where
  "gmtime t =
     (let (y, d) = year_loop 1970 (t div 86400);
          (m, r) = month_loop (month_lengths y) d
      in \<lparr>tm_year = y - 1900, tm_mon = int m, tm_mday = int r + 1,
          tm_hour = int (t div 3600 mod 24), tm_min = int (t div 60 mod 60), tm_sec = int (t mod 60)\<rparr>)"

definition leaps_until :: "int \<Rightarrow> int" where
  "leaps_until y = y div 4 - y div 100 + y div 400"

definition days_before_year :: "int \<Rightarrow> int" where
  "days_before_year y = 365 * (y - 1970) + (leaps_until (y - 1) - leaps_until 1969)"

text \<open>\<open>timegm\<close> brings a month outside the year into it and adds up all other fields.\<close>

definition timegm :: "tm \<Rightarrow> int" where
  "timegm t =
     (let y = tm_year t + 1900 + tm_mon t div 12;
          m = nat (tm_mon t mod 12)
      in 86400 * (days_before_year y + int (sum_list (take m (month_lengths y))) + tm_mday t - 1)
         + 3600 * tm_hour t + 60 * tm_min t + tm_sec t)"

section \<open>Writing\<close>

text \<open>The conversion \<open>%0wd\<close> of \<open>snprintf\<close>.\<close>

definition pad :: "nat \<Rightarrow> int \<Rightarrow> string" where
  "pad w z =
     (if z < 0 then CHR ''-'' # replicate (w - 1 - length (show_nat (nat (- z)))) (CHR ''0'') @ show_nat (nat (- z))
      else replicate (w - length (show_nat (nat z))) (CHR ''0'') @ show_nat (nat z))"

text \<open>The clock reads \<open>now\<close> nanoseconds after the epoch.\<close>

definition get_sending_time :: "nat \<Rightarrow> string" where
  "get_sending_time now =
     (let t = gmtime (now div 1000000000); ms = now div 1000000 mod 1000
      in pad 4 (tm_year t + 1900) @ pad 2 (tm_mon t + 1) @ pad 2 (tm_mday t) @ ''-'' @
         pad 2 (tm_hour t) @ '':'' @ pad 2 (tm_min t) @ '':'' @ pad 2 (tm_sec t) @ ''.'' @ pad 3 (int ms))"

section \<open>Reading\<close>

definition int64 :: "int \<Rightarrow> bool" where
  "int64 z \<longleftrightarrow> - 9223372036854775808 \<le> z \<and> z \<le> 9223372036854775807"

definition parse_sending_time :: "string \<Rightarrow> int cpp" where
  "parse_sending_time s =
     (if length s < 21 then Defined 0
      else
        (let year = from_chars_or0 (sv_substr s 0 4);
             month = from_chars_or0 (sv_substr s 4 2);
             day = from_chars_or0 (sv_substr s 6 2);
             hour = from_chars_or0 (sv_substr s 9 2);
             mins = from_chars_or0 (sv_substr s 12 2);
             sec = from_chars_or0 (sv_substr s 15 2);
             ms = from_chars_or0 (sv_substr s 18 3);
             t = timegm \<lparr>tm_year = year - 1900, tm_mon = month - 1, tm_mday = day,
                   tm_hour = hour, tm_min = mins, tm_sec = sec\<rparr>;
             point = t * 1000000000
         in if \<not> int64 point \<or> \<not> int64 (point + ms * 1000000) then Undefined
            else Defined (point + ms * 1000000)))"

section \<open>Lemmas\<close>

lemma leaps_step: "leaps_until y = leaps_until (y - 1) + (if leap y then 1 else 0)"
proof -
  have step: "y div k = (y - 1) div k + (if y mod k = 0 then 1 else 0)" if "k > 0" for k :: int
  proof (cases "y mod k = 0")
    case True
    then obtain q where q: "y = k * q" by (auto simp: mod_eq_0_iff_dvd)
    have "(k * q - 1) div k = q - 1"
      using that by (simp add: int_div_pos_eq [of _ _ "q - 1" "k - 1"] algebra_simps)
    with q that True show ?thesis by simp
  next
    case False
    then have "0 < y mod k" using pos_mod_sign [OF that, of y] by linarith
    then have "(y - 1) div k = y div k"
      using that by (intro int_div_pos_eq [of _ _ _ "y mod k - 1"]) (use pos_mod_bound [OF that, of y] in \<open>simp_all add: algebra_simps\<close>)
    with False show ?thesis by simp
  qed
  have count: "(if a then 1 else 0) - (if b then 1 else 0) + (if c then 1 else (0 :: int)) =
      (if a \<and> (\<not> b \<or> c) then 1 else 0)" if "c \<longrightarrow> b" "b \<longrightarrow> a" for a b c
    using that by (cases a; cases b; cases c; simp)
  have "y mod 400 = 0 \<longrightarrow> y mod 100 = 0" "y mod 100 = 0 \<longrightarrow> y mod 4 = 0"
    using dvd_trans [of 100 400 y] dvd_trans [of 4 100 y] by (simp_all add: mod_eq_0_iff_dvd)
  note count = count [OF this]
  have sum: "(p + a) - (q + b) + (r + c) = p - q + r + (a - b + c)" for p q r a b c :: int by simp
  show ?thesis
    unfolding leaps_until_def leap_def step [OF zero_less_numeral] count [symmetric] by (rule sum)
qed

lemma days_before_Suc: "days_before_year (y + 1) = days_before_year y + int (days_in_year y)"
  using leaps_step [of y] by (simp add: days_before_year_def days_in_year_def)

lemma leaps_mono: "y \<le> z \<Longrightarrow> leaps_until y \<le> leaps_until z"
proof (induction z rule: int_ge_induct)
  case (step z)
  then show ?case using leaps_step [of "z + 1"] by simp
qed simp

lemma days_before_ge: "1970 \<le> y \<Longrightarrow> 365 * (y - 1970) \<le> days_before_year y"
  using leaps_mono [of 1969 "y - 1"] by (simp add: days_before_year_def)

lemma days_before_1970: "days_before_year 1970 = 0"
  by (simp add: days_before_year_def)

lemma year_loop_days:
  "year_loop y d = (y', r) \<Longrightarrow>
     days_before_year y' + int r = days_before_year y + int d \<and> r < days_in_year y' \<and> y \<le> y'"
proof (induction y d rule: year_loop.induct)
  case (1 y d)
  show ?case
  proof (cases "d < days_in_year y")
    case True
    with 1(2) show ?thesis by (simp add: year_loop.simps [of y d])
  next
    case False
    with 1(2) have "year_loop (y + 1) (d - days_in_year y) = (y', r)" by (simp add: year_loop.simps [of y d])
    from 1(1) [OF False this] days_before_Suc [of y] False show ?thesis by auto
  qed
qed

lemma month_loop_days:
  "month_loop ls d = (m, r) \<Longrightarrow> d < sum_list ls \<Longrightarrow>
     m < length ls \<and> r < ls ! m \<and> sum_list (take m ls) + r = d"
proof (induction ls arbitrary: d m)
  case (Cons l ls)
  show ?case
  proof (cases "d < l")
    case False
    then obtain m' where "month_loop ls (d - l) = (m', r)" "m = Suc m'"
      using Cons.prems(1) by (auto split: prod.splits)
    moreover have "d - l < sum_list ls" using Cons.prems(2) False by simp
    ultimately show ?thesis using Cons.IH [of "d - l" m'] False by auto
  qed (use Cons.prems in auto)
qed simp

lemma sum_month_lengths: "sum_list (month_lengths y) = days_in_year y"
  by (simp add: month_lengths_def days_in_year_def)

lemma length_month_lengths [simp]: "length (month_lengths y) = 12"
  by (simp add: month_lengths_def)

lemma month_length_le: "m < 12 \<Longrightarrow> month_lengths y ! m \<le> 31"
proof -
  assume "m < 12"
  then have "month_lengths y ! m \<in> set (month_lengths y)" by (intro nth_mem) simp
  then show ?thesis by (auto simp: month_lengths_def split: if_splits)
qed

text \<open>The broken-down time of a moment is in range, and \<open>timegm\<close> gives the moment back.\<close>

lemma gmtime_props:
  obtains y m r where "gmtime t = \<lparr>tm_year = y - 1900, tm_mon = int m, tm_mday = int r + 1,
      tm_hour = int (t div 3600 mod 24), tm_min = int (t div 60 mod 60), tm_sec = int (t mod 60)\<rparr>"
    "1970 \<le> y" "365 * (y - 1970) \<le> int (t div 86400)" "m < 12" "r < 31"
    "days_before_year y + int (sum_list (take m (month_lengths y))) + int r = int (t div 86400)"
proof -
  obtain y d where y: "year_loop 1970 (t div 86400) = (y, d)" by fastforce
  obtain m r where m: "month_loop (month_lengths y) d = (m, r)" by fastforce
  note yd = year_loop_days [OF y, unfolded days_before_1970]
  have md: "m < 12" "r < month_lengths y ! m" "sum_list (take m (month_lengths y)) + r = d"
    using month_loop_days [OF m] yd by (simp_all add: sum_month_lengths)
  show thesis
  proof (rule that [of y m r])
    show "r < 31" using md(2) month_length_le [OF md(1), of y] by simp
    show "365 * (y - 1970) \<le> int (t div 86400)" using yd days_before_ge [of y] by linarith
    show "days_before_year y + int (sum_list (take m (month_lengths y))) + int r = int (t div 86400)"
      using yd md(3) by linarith
  qed (use y m yd md in \<open>simp_all add: gmtime_def\<close>)
qed

lemma timegm_gmtime: "timegm (gmtime t) = int t"
proof -
  obtain y m r where g: "gmtime t = \<lparr>tm_year = y - 1900, tm_mon = int m, tm_mday = int r + 1,
      tm_hour = int (t div 3600 mod 24), tm_min = int (t div 60 mod 60), tm_sec = int (t mod 60)\<rparr>"
    "m < 12" and days: "days_before_year y + int (sum_list (take m (month_lengths y))) + int r = int (t div 86400)"
    by (rule gmtime_props)
  have mon: "int m div 12 = 0" "int m mod 12 = int m" using g(2) by simp_all
  have "t div 3600 = t div 60 div 60" "t div 86400 = t div 3600 div 24"
    by (simp_all add: div_mult2_eq [symmetric])
  then have "t = 86400 * (t div 86400) + 3600 * (t div 3600 mod 24) + 60 * (t div 60 mod 60) + t mod 60"
    using div_mult_mod_eq [of t 60] div_mult_mod_eq [of "t div 60" 60] div_mult_mod_eq [of "t div 3600" 24]
    by linarith
  then have "int t = 86400 * int (t div 86400) + 3600 * int (t div 3600 mod 24) +
      60 * int (t div 60 mod 60) + int (t mod 60)" by linarith
  with days show ?thesis by (simp add: timegm_def g(1) mon Let_def algebra_simps)
qed

text \<open>Padded numbers are read back.\<close>

lemma length_show_nat_le: "n < 10 ^ w \<Longrightarrow> 0 < w \<Longrightarrow> length (show_nat n) \<le> w"
proof (induction w arbitrary: n)
  case (Suc w)
  show ?case
  proof (cases "n < 10")
    case True
    then show ?thesis by (simp add: show_nat.simps)
  next
    case False
    have "n div 10 < 10 ^ w" using Suc.prems(1) by (simp add: less_mult_imp_div_less mult.commute)
    moreover have "0 < w" using False Suc.prems(1) by (cases w) auto
    ultimately show ?thesis using Suc.IH [of "n div 10"] False by (subst show_nat.simps) simp
  qed
qed simp

lemma length_pad: "0 \<le> z \<Longrightarrow> z < 10 ^ w \<Longrightarrow> 0 < w \<Longrightarrow> length (pad w z) = w"
  using length_show_nat_le [of "nat z" w] by (simp add: pad_def nat_less_iff)

lemma digits_val_zeros: "digits_val (replicate k (CHR ''0'') @ ds) = digits_val ds"
proof -
  have "foldl (\<lambda>a c. 10 * a + digit_val c) 0 (replicate k (CHR ''0'')) = 0"
    by (induction k) (simp_all add: digit_val_def)
  then show ?thesis by (simp add: digits_val_def)
qed

lemma from_chars_pad: "0 \<le> z \<Longrightarrow> z \<le> int_max \<Longrightarrow> from_chars_or0 (pad w z) = z"
proof -
  assume z: "0 \<le> z" "z \<le> int_max"
  let ?s = "replicate (w - length (show_nat (nat z))) (CHR ''0'') @ show_nat (nat z)"
  obtain t where t: "t = ?s" by simp
  have digits: "\<forall>c\<in>set t. is_digit c"
    using show_nat_digits by (auto simp: t is_digit_def)
  have "t \<noteq> []" by (simp add: t)
  moreover from this have "hd t \<noteq> CHR ''-''" using digits by (cases t) auto
  moreover have tw: "takeWhile is_digit t = t" using digits by (simp add: takeWhile_eq_all_conv)
  moreover have "digits_val t = z" using z by (simp add: t digits_val_zeros)
  ultimately have "from_chars t = FC_ok z (length t)"
    using z by (simp add: from_chars_def Let_def int32_def int_min_def tw)
  then have "from_chars ?s = FC_ok z (length ?s)" by (simp only: t)
  with z show ?thesis by (simp add: pad_def from_chars_or0_def)
qed

lemma int64_sum:
  "0 \<le> a \<Longrightarrow> 0 \<le> b \<Longrightarrow> a + b \<le> 9223372036854775807 \<Longrightarrow> int64 a \<and> int64 (a + b)"
  by (simp add: int64_def)

lemma slices:
  assumes "length y = 4" "length mo = 2" "length d = 2" "length h = 2" "length mi = 2" "length s = 2" "length ms = 3"
  defines "t \<equiv> y @ mo @ d @ ''-'' @ h @ '':'' @ mi @ '':'' @ s @ ''.'' @ ms"
  shows "length t = 21" "sv_substr t 0 4 = y" "sv_substr t 4 2 = mo" "sv_substr t 6 2 = d"
    "sv_substr t 9 2 = h" "sv_substr t 12 2 = mi" "sv_substr t 15 2 = s" "sv_substr t 18 3 = ms"
  using assms by (simp_all add: t_def sv_substr_def)

section \<open>Properties\<close>

text \<open>
  C31: the sending time of every clock reading of the system (64 bits of nanoseconds, after
  the epoch) has 21 characters, and reading it gives the clock back, cut to milliseconds.
\<close>

theorem sending_time_roundtrip:
  assumes "now < 2 ^ 63"
  shows "length (get_sending_time now) = 21 \<and>
    parse_sending_time (get_sending_time now) = Defined (int (now div 1000000 * 1000000))"
proof -
  let ?t = "now div 1000000000" and ?ms = "now div 1000000 mod 1000"
  obtain y m r where g: "gmtime ?t = \<lparr>tm_year = y - 1900, tm_mon = int m, tm_mday = int r + 1,
      tm_hour = int (?t div 3600 mod 24), tm_min = int (?t div 60 mod 60), tm_sec = int (?t mod 60)\<rparr>"
    and y: "1970 \<le> y" "365 * (y - 1970) \<le> int (?t div 86400)" and mr: "m < 12" "r < 31"
    by (rule gmtime_props)
  have "?t div 86400 \<le> 106751" using assms by simp
  then have "int (?t div 86400) \<le> int 106751" by (simp only: of_nat_le_iff)
  from order_trans [OF y(2) this] have y9: "y \<le> 9999" by simp
  have again: "timegm \<lparr>tm_year = y - 1900, tm_mon = int m, tm_mday = int r + 1,
      tm_hour = int (?t div 3600 mod 24), tm_min = int (?t div 60 mod 60), tm_sec = int (?t mod 60)\<rparr> = int ?t"
    using timegm_gmtime [of ?t] by (simp only: g)
  let ?h = "int (?t div 3600 mod 24)" and ?mi = "int (?t div 60 mod 60)" and ?s = "int (?t mod 60)"
  have sent: "get_sending_time now = pad 4 y @ pad 2 (int m + 1) @ pad 2 (int r + 1) @ ''-'' @
      pad 2 ?h @ '':'' @ pad 2 ?mi @ '':'' @ pad 2 ?s @ ''.'' @ pad 3 (int ?ms)"
    by (simp only: get_sending_time_def Let_def g tm.simps) simp
  have small: "?h < 24" "?mi < 60" "?s < 60" "int ?ms < 1000" by simp_all
  have lens: "length (pad 4 y) = 4" "length (pad 2 (int m + 1)) = 2" "length (pad 2 (int r + 1)) = 2"
    "length (pad 2 ?h) = 2" "length (pad 2 ?mi) = 2" "length (pad 2 ?s) = 2" "length (pad 3 (int ?ms)) = 3"
    using y y9 mr small by (simp_all add: length_pad)
  have vals: "from_chars_or0 (pad 4 y) = y" "from_chars_or0 (pad 2 (int m + 1)) = int m + 1"
    "from_chars_or0 (pad 2 (int r + 1)) = int r + 1" "from_chars_or0 (pad 2 ?h) = ?h"
    "from_chars_or0 (pad 2 ?mi) = ?mi" "from_chars_or0 (pad 2 ?s) = ?s" "from_chars_or0 (pad 3 (int ?ms)) = int ?ms"
    using y y9 mr small by (simp_all add: from_chars_pad int_max_def)
  have sum: "int ?t * 1000000000 + int ?ms * 1000000 = int (now div 1000000 * 1000000)"
  proof -
    have "?t = now div 1000000 div 1000" by (simp add: div_mult2_eq [symmetric])
    then have "now div 1000000 = 1000 * ?t + ?ms" using div_mult_mod_eq [of "now div 1000000" 1000] by linarith
    then show ?thesis by linarith
  qed
  have "now div 1000000 * 1000000 \<le> now" by simp
  with assms have "int (now div 1000000 * 1000000) \<le> 9223372036854775807" by simp
  then have "int ?t * 1000000000 + int ?ms * 1000000 \<le> 9223372036854775807" by (simp only: sum)
  from int64_sum [OF _ _ this]
  have "int64 (int ?t * 1000000000) \<and> int64 (int ?t * 1000000000 + int ?ms * 1000000)" by simp
  then have range: "int64 (int ?t * 1000000000)" "int64 (int (now div 1000000 * 1000000))"
    by (simp_all only: sum)
  show ?thesis
    unfolding sent parse_sending_time_def slices [OF lens] vals Let_def
    by (simp only: add_diff_cancel_right' again sum range less_irrefl if_False if_True simp_thms)
qed

theorem sending_time_roundtrip_witness:
  "parse_sending_time (get_sending_time 1709210096789012345) = Defined 1709210096789000000"
  using sending_time_roundtrip [of 1709210096789012345] by simp

text \<open>
  A text of 21 characters in the place of a sending time is undefined behaviour when
  its digits are missing: the year is read as 0, whose nanoseconds do not fit 64 bits.
\<close>

theorem unreadable_time_undefined:
  "parse_sending_time (replicate 21 (CHR ''X'')) = Undefined"
  by code_simp

end
