(* ===== verification/Conversation.thy ===== *)
theory Conversation
  imports Runner Sending_Time
begin

text \<open>
  The components together: a runner plays a scenario over a connection, the bytes travel as
  a stream cut anywhere, and at the other end a receive buffer, the parser and a session
  take them apart again.
\<close>

section \<open>What a peer reads\<close>



lemma soh_facts: "SOH \<noteq> CHR ''=''" "\<not> is_digit SOH"
  by (simp_all add: SOH_def is_digit_def)


text \<open>The sending times of the program are such texts.\<close>

lemma pad_chars: "c \<in> set (pad w z) \<Longrightarrow> is_digit c \<or> c = CHR ''-''"
  by (auto simp: pad_def show_nat_digits is_digit_def [of "CHR ''0''"] split: if_splits)

lemma sending_time_no_soh: "SOH \<notin> set (get_sending_time now)"
  using pad_chars [of SOH] soh_facts by (auto simp: get_sending_time_def Let_def SOH_def)



section \<open>Sending a list of messages\<close>







section \<open>Receiving them\<close>





section \<open>Properties\<close>




end
