(* ===== verification/Replay.thy ===== *)
theory Replay
  imports Sending_Time Connections Serializer "HOL-Library.Sublist"
begin

text \<open>
  \<open>SessionReplayer\<close> of \<open>src/replay.cpp\<close> and \<open>include/fixure/replay.hpp\<close>: the lines of a
  log file sent over a connection, on request with the pauses of the original sending
  times.  The file system is a map from paths to contents; sleeping and sending are
  recorded, in order, in the state.
\<close>

section \<open>State\<close>

datatype replay_event = Slept int | Transmitted string

record 'c replayer =
  rp_conn :: 'c
  rp_sent :: nat
  rp_last_time :: int
  rp_first :: bool
  rp_events :: "replay_event list"

record replay_result =
  rpr_messages_sent :: nat
  rpr_success :: bool
  rpr_error_message :: string

text \<open>The state at the start of \<open>replay_file\<close>; a default time point is the epoch.\<close>

definition new_replayer :: "'c \<Rightarrow> 'c replayer" where
  "new_replayer c = \<lparr>rp_conn = c, rp_sent = 0, rp_last_time = 0, rp_first = True, rp_events = []\<rparr>"

section \<open>One line\<close>

definition line_end :: "char \<Rightarrow> bool" where
  "line_end ch \<longleftrightarrow> ch = CHR 0x0D \<or> ch = CHR 0x0A \<or> ch = CHR '' ''"

text \<open>The loop around \<open>pop_back\<close>.\<close>

function strip_line :: "string \<Rightarrow> string" where
  "strip_line l = (if l \<noteq> [] \<and> line_end (last l) then strip_line (butlast l) else l)"
  by pat_completeness auto
termination
  by (relation "measure length") auto

declare strip_line.simps [simp del]

definition message_time :: "char \<Rightarrow> bool \<Rightarrow> string \<Rightarrow> int cpp" where
  "message_time sep preserve_timing l =
     (if \<not> preserve_timing then Defined 0
      else
        (case parse l sep of
           Inl _ \<Rightarrow> Defined 0
         | Inr m \<Rightarrow> (case get_field m 52 of None \<Rightarrow> Defined 0 | Some t \<Rightarrow> parse_sending_time t)))"

text \<open>The pause before the message: whole milliseconds, if the time has moved on.\<close>

definition pause :: "bool \<Rightarrow> int \<Rightarrow> 'c replayer \<Rightarrow> 'c replayer cpp" where
  "pause preserve_timing msg_time st =
     (if preserve_timing \<and> \<not> rp_first st \<and> msg_time \<noteq> 0 \<and> msg_time > rp_last_time st then
        (if int64 (msg_time - rp_last_time st)
         then Defined (st\<lparr>rp_events := rp_events st @ [Slept ((msg_time - rp_last_time st) div 1000000)]\<rparr>)
         else Undefined)
      else Defined st)"

text \<open>The body of the loop; \<open>Inr\<close> is the early return.\<close>

definition replay_line ::
  "(string \<Rightarrow> 'c \<Rightarrow> bool \<times> 'c) \<Rightarrow> char \<Rightarrow> bool \<Rightarrow> string \<Rightarrow> 'c replayer \<Rightarrow>
     ('c replayer + replay_result \<times> 'c replayer) cpp" where
  "replay_line send sep preserve_timing raw st =
     (let l = strip_line raw in
      if l = [] \<or> l ! 0 = CHR ''#'' then Defined (Inl st)
      else cpp_bind (message_time sep preserve_timing l) (\<lambda>msg_time.
        cpp_bind (pause preserve_timing msg_time st) (\<lambda>st1.
          let (ok, c) = send l (rp_conn st1);
              st2 = st1\<lparr>rp_conn := c, rp_events := rp_events st1 @ [Transmitted l]\<rparr>
          in if \<not> ok then
               Defined (Inr (\<lparr>rpr_messages_sent = rp_sent st2, rpr_success = False,
                 rpr_error_message = ''Send failed at message index '' @ show_nat (rp_sent st2)\<rparr>, st2))
             else
               (let st3 = st2\<lparr>rp_sent := rp_sent st2 + 1\<rparr>
                in Defined (Inl (if preserve_timing \<and> msg_time \<noteq> 0
                     then st3\<lparr>rp_last_time := msg_time, rp_first := False\<rparr> else st3))))))"

fun replay_lines ::
  "(string \<Rightarrow> 'c \<Rightarrow> bool \<times> 'c) \<Rightarrow> char \<Rightarrow> bool \<Rightarrow> string list \<Rightarrow> 'c replayer \<Rightarrow>
     (replay_result \<times> 'c replayer) cpp" where
  "replay_lines send sep preserve_timing [] st =
     Defined (\<lparr>rpr_messages_sent = rp_sent st, rpr_success = True, rpr_error_message = []\<rparr>, st)"
| "replay_lines send sep preserve_timing (l # ls) st =
     cpp_bind (replay_line send sep preserve_timing l st) (\<lambda>r.
       case r of
         Inl st1 \<Rightarrow> replay_lines send sep preserve_timing ls st1
       | Inr (res, st1) \<Rightarrow> Defined (res, st1))"

definition replay_file ::
  "(string \<Rightarrow> 'c \<Rightarrow> bool \<times> 'c) \<Rightarrow> (string \<Rightarrow> string option) \<Rightarrow> string \<Rightarrow> char \<Rightarrow> bool \<Rightarrow> 'c \<Rightarrow>
     (replay_result \<times> 'c replayer) cpp" where
  "replay_file send files file_path sep preserve_timing c =
     (case files file_path of
        None \<Rightarrow> Defined (\<lparr>rpr_messages_sent = 0, rpr_success = False,
          rpr_error_message = ''Could not open log file: '' @ file_path\<rparr>, new_replayer c)
      | Some content \<Rightarrow> replay_lines send sep preserve_timing (split_lines content) (new_replayer c))"

section \<open>What is sent\<close>

text \<open>The messages of a log: its lines, stripped, without the empty ones and the comments.\<close>

definition log_messages :: "string list \<Rightarrow> string list" where
  "log_messages ls = filter (\<lambda>l. l \<noteq> [] \<and> hd l \<noteq> CHR ''#'') (map strip_line ls)"

lemma log_messages_simps [simp]:
  "log_messages [] = []"
  "log_messages (l # ls) =
     (if strip_line l = [] \<or> hd (strip_line l) = CHR ''#'' then log_messages ls
      else strip_line l # log_messages ls)"
  by (simp_all add: log_messages_def)

text \<open>The result of sending a list of texts as the replayer reports it.\<close>

definition report :: "nat \<Rightarrow> nat \<Rightarrow> bool \<Rightarrow> replay_result" where
  "report before n all =
     \<lparr>rpr_messages_sent = before + n, rpr_success = all,
      rpr_error_message = (if all then [] else ''Send failed at message index '' @ show_nat (before + n))\<rparr>"

lemma pause_fields:
  "pause pt mt st = Defined st1 \<Longrightarrow> rp_conn st1 = rp_conn st \<and> rp_sent st1 = rp_sent st \<and>
     rp_last_time st1 = rp_last_time st \<and> rp_first st1 = rp_first st"
  by (auto simp: pause_def split: if_splits)

lemma replay_line_skip:
  "strip_line l = [] \<or> hd (strip_line l) = CHR ''#'' \<Longrightarrow> replay_line send sep pt l st = Defined (Inl st)"
  by (cases "strip_line l") (auto simp: replay_line_def)

lemma replay_lines_sends:
  "replay_lines send sep pt ls st = Defined (r, st') \<Longrightarrow>
     (let (n, all, c) = send_all send (log_messages ls) (rp_conn st)
      in r = report (rp_sent st) n all \<and> rp_conn st' = c)"
proof (induction ls arbitrary: st)
  case Nil
  then show ?case by (auto simp: report_def)
next
  case (Cons l ls)
  let ?l = "strip_line l"
  show ?case
  proof (cases "?l = [] \<or> hd ?l = CHR ''#''")
    case True
    with Cons replay_line_skip [OF True, of send sep pt st] show ?thesis by simp
  next
    case False
    then have go: "\<not> (?l = [] \<or> ?l ! 0 = CHR ''#'')" by (auto simp: hd_conv_nth)
    from Cons.prems go obtain mt st1 where mt: "message_time sep pt ?l = Defined mt"
        and st1: "pause pt mt st = Defined st1"
      by (auto simp: replay_line_def Let_def cpp_bind_Defined)
    obtain ok c1 where send: "send ?l (rp_conn st) = (ok, c1)" by fastforce
    show ?thesis
    proof (cases ok)
      case False
      with Cons.prems go mt st1 send pause_fields [OF st1] \<open>\<not> (?l = [] \<or> hd ?l = CHR ''#'')\<close> show ?thesis
        by (auto simp: replay_line_def Let_def report_def)
    next
      case True
      let ?st = "\<lambda>b. if b then st1\<lparr>rp_conn := c1, rp_events := rp_events st1 @ [Transmitted ?l],
          rp_sent := rp_sent st + 1, rp_last_time := mt, rp_first := False\<rparr>
        else st1\<lparr>rp_conn := c1, rp_events := rp_events st1 @ [Transmitted ?l], rp_sent := rp_sent st + 1\<rparr>"
      have "replay_lines send sep pt ls (?st (pt \<and> mt \<noteq> 0)) = Defined (r, st')"
        using Cons.prems go mt st1 send pause_fields [OF st1] True
        by (cases "pt \<and> mt \<noteq> 0") (auto simp: replay_line_def Let_def split: if_splits)
      from Cons.IH [OF this] send True \<open>\<not> (?l = [] \<or> hd ?l = CHR ''#'')\<close> show ?thesis
        by (auto simp: report_def split: prod.splits if_splits)
    qed
  qed
qed

section \<open>When it is sent\<close>

text \<open>How long the replay has slept at each transmission.\<close>

fun due :: "int \<Rightarrow> replay_event list \<Rightarrow> int list" where
  "due acc [] = []"
| "due acc (Slept d # es) = due (acc + d) es"
| "due acc (Transmitted l # es) = acc # due acc es"

fun slept :: "replay_event list \<Rightarrow> int" where
  "slept [] = 0"
| "slept (Slept d # es) = d + slept es"
| "slept (Transmitted l # es) = slept es"

lemma due_append [simp]: "due acc (es @ fs) = due acc es @ due (acc + slept es) fs"
  by (induction acc es rule: due.induct) (simp_all add: algebra_simps)

lemma slept_append [simp]: "slept (es @ fs) = slept es + slept fs"
  by (induction es rule: slept.induct) simp_all

lemma parse_sending_time_ms: "parse_sending_time s = Defined v \<Longrightarrow> 1000000 dvd v"
  by (auto simp: parse_sending_time_def Let_def split: if_splits)

lemma message_time_ms: "message_time sep pt l = Defined t \<Longrightarrow> 1000000 dvd t"
  by (auto simp: message_time_def dest: parse_sending_time_ms split: if_splits sum.splits option.splits)

lemma message_time_int64: "message_time sep pt l = Defined t \<Longrightarrow> int64 t"
  by (auto simp: message_time_def parse_sending_time_def Let_def int64_def
      split: if_splits sum.splits option.splits)

text \<open>The state keeps pace: it has slept the time from \<open>t0\<close> to the last message.\<close>

definition paced :: "int \<Rightarrow> int list \<Rightarrow> 'c replayer \<Rightarrow> bool" where
  "paced t0 ts st \<longleftrightarrow>
     slept (rp_events st) = (if rp_first st then 0 else (rp_last_time st - t0) div 1000000) \<and>
     (if rp_first st then ts = [] \<or> hd ts = t0
      else 0 < rp_last_time st \<and> 1000000 dvd rp_last_time st \<and> (\<forall>t\<in>set ts. rp_last_time st \<le> t))"

lemma paced_pause:
  assumes "paced t0 (t # ts) st" "0 < t" "int64 t" "1000000 dvd t" "1000000 dvd t0"
  obtains st1 where "pause True t st = Defined st1" "slept (rp_events st1) = (t - t0) div 1000000"
    "due 0 (rp_events st1) = due 0 (rp_events st)"
proof (cases "rp_first st \<or> t \<le> rp_last_time st")
  case True
  with assms(1) have "slept (rp_events st) = (t - t0) div 1000000"
    by (auto simp: paced_def)
  moreover from True have "pause True t st = Defined st" by (auto simp: pause_def)
  ultimately show thesis using that by blast
next
  case False
  let ?l = "rp_last_time st"
  have l: "0 < ?l" "1000000 dvd ?l" "slept (rp_events st) = (?l - t0) div 1000000"
    using assms(1) False by (auto simp: paced_def)
  have "int64 (t - ?l)" using l(1) False assms(3) by (simp add: int64_def)
  then have pause: "pause True t st = Defined (st\<lparr>rp_events := rp_events st @ [Slept ((t - ?l) div 1000000)]\<rparr>)"
    using False assms(2) by (simp add: pause_def)
  have "(?l - t0) div 1000000 + (t - ?l) div 1000000 = (t - t0) div 1000000"
    using l(2) assms(4,5) by (auto simp: dvd_def div_diff)
  with pause l(3) show thesis by (intro that [OF pause]) simp_all
qed

lemma replay_lines_paced:
  assumes "list_all2 (\<lambda>l t. message_time sep True l = Defined t \<and> 0 < t) (log_messages ls) ts"
    and "sorted ts" "paced t0 ts st" "1000000 dvd t0"
  shows "\<exists>r st' xs. replay_lines send sep True ls st = Defined (r, st') \<and>
    due 0 (rp_events st') = due 0 (rp_events st) @ xs \<and>
    prefix xs (map (\<lambda>t. (t - t0) div 1000000) ts) \<and>
    (rpr_success r \<longrightarrow> xs = map (\<lambda>t. (t - t0) div 1000000) ts)"
  using assms(1-3)
proof (induction ls arbitrary: ts st)
  case Nil
  then show ?case by auto
next
  case (Cons l ls)
  let ?l = "strip_line l" and ?f = "\<lambda>t. (t - t0) div 1000000"
  show ?case
  proof (cases "?l = [] \<or> hd ?l = CHR ''#''")
    case True
    with Cons.IH [of ts st] Cons.prems replay_line_skip [OF True, of send sep True st] show ?thesis by simp
  next
    case False
    with Cons.prems(1) obtain t us where ts: "ts = t # us" and t: "message_time sep True ?l = Defined t" "0 < t"
        and us: "list_all2 (\<lambda>l t. message_time sep True l = Defined t \<and> 0 < t) (log_messages ls) us"
      by (auto simp: list_all2_Cons1)
    obtain st1 where st1: "pause True t st = Defined st1" "slept (rp_events st1) = ?f t"
        "due 0 (rp_events st1) = due 0 (rp_events st)"
      using paced_pause [OF Cons.prems(3) [unfolded ts] t(2) message_time_int64 [OF t(1)] message_time_ms [OF t(1)] assms(4)]
      by blast
    obtain ok c where send: "send ?l (rp_conn st1) = (ok, c)" by fastforce
    have go: "\<not> (?l = [] \<or> ?l ! 0 = CHR ''#'')" using False by (auto simp: hd_conv_nth)
    show ?thesis
    proof (cases ok)
      case no: False
      let ?st = "st1\<lparr>rp_conn := c, rp_events := rp_events st1 @ [Transmitted ?l]\<rparr>"
      have "replay_lines send sep True (l # ls) st = Defined (report (rp_sent st) 0 False, ?st)"
        using go t(1) st1(1) send no pause_fields [OF st1(1)] by (simp add: replay_line_def Let_def report_def)
      moreover have "due 0 (rp_events ?st) = due 0 (rp_events st) @ [?f t]" using st1 by simp
      ultimately show ?thesis by (auto simp: ts report_def)
    next
      case yes: True
      let ?st = "st1\<lparr>rp_conn := c, rp_events := rp_events st1 @ [Transmitted ?l], rp_sent := rp_sent st1 + 1,
          rp_last_time := t, rp_first := False\<rparr>"
      have step: "replay_lines send sep True (l # ls) st = replay_lines send sep True ls ?st"
        using go t st1(1) send yes by (simp add: replay_line_def Let_def)
      have "paced t0 us ?st"
        using Cons.prems(2) ts t(2) st1(2) message_time_ms [OF t(1)] by (simp add: paced_def)
      with Cons.IH [OF us, of ?st] Cons.prems(2) ts obtain r st' xs where
        "replay_lines send sep True ls ?st = Defined (r, st')"
        "due 0 (rp_events st') = due 0 (rp_events ?st) @ xs" "prefix xs (map ?f us)"
        "rpr_success r \<longrightarrow> xs = map ?f us" by auto
      moreover have "due 0 (rp_events ?st) = due 0 (rp_events st) @ [?f t]" using st1 by simp
      ultimately show ?thesis using step by (intro exI [of _ r] exI [of _ st'] exI [of _ "?f t # xs"]) (simp add: ts)
    qed
  qed
qed

section \<open>Properties\<close>

text \<open>
  C20: a replay that returns has sent the stripped lines of the log that are neither empty
  nor comments, in order, up to the first refused one: its result counts them, names the
  index of the refused one, and the connection is as after sending just these texts.
  Timing changes nothing of this.
\<close>

theorem replay_sends_log:
  assumes "replay_file send files path sep preserve_timing c = Defined (r, st)"
    and "files path = Some content"
  shows "(let (n, all, c') = send_all send (log_messages (split_lines content)) c
    in rpr_messages_sent r = n \<and> rpr_success r = all \<and> rp_conn st = c' \<and>
      rpr_error_message r = (if all then [] else ''Send failed at message index '' @ show_nat n))"
  using replay_lines_sends [of send sep preserve_timing "split_lines content" "new_replayer c" r st] assms
  by (auto simp: replay_file_def report_def new_replayer_def)

definition sample_log :: string where
  "sample_log = ''# log'' @ [newline] @ ''8=a '' @ [CHR 0x0D, newline, newline] @ ''8=b'' @ [newline]"

theorem replay_sends_log_witness:
  "\<exists>r st. replay_file mem_send (\<lambda>p. Some sample_log) ''f'' SOH False (new_mem_conn\<lparr>mc_connected := True\<rparr>) = Defined (r, st) \<and>
     rpr_messages_sent r = 2 \<and> mc_to_server (rp_conn st) = [''8=a'', ''8=b'']"
proof -
  let ?run = "replay_file mem_send (\<lambda>p. Some sample_log) ''f'' SOH False (new_mem_conn\<lparr>mc_connected := True\<rparr>)"
  have "case ?run of Defined _ \<Rightarrow> True | Undefined \<Rightarrow> False" by code_simp
  then obtain r st where run: "?run = Defined (r, st)" by (cases ?run) auto
  have "log_messages (split_lines sample_log) = [''8=a'', ''8=b'']" by code_simp
  with replay_sends_log [OF run refl] run show ?thesis
    by (simp add: mem_send_def new_mem_conn_def)
qed

text \<open>
  A successful replay writes to the connection, over the in-memory connection or any
  other that keeps the contract of sending, exactly the concatenation of the messages of
  the log, and a failed one a prefix of it: no separator is added between two messages.
\<close>

theorem replay_writes_log:
  assumes "\<And>d c c'. send d c = (True, c') \<Longrightarrow> written c' = written c @ d"
    and "\<And>d c c'. send d c = (False, c') \<Longrightarrow> \<exists>k. written c' = written c @ take k d"
    and "replay_file send files path sep preserve_timing c = Defined (r, st)"
    and "files path = Some content"
  shows "\<exists>data. written (rp_conn st) = written c @ data \<and>
    prefix data (concat (log_messages (split_lines content))) \<and>
    (rpr_success r \<longrightarrow> data = concat (log_messages (split_lines content)))"
proof -
  let ?ms = "log_messages (split_lines content)"
  have conn: "connection send written"
    by unfold_locales (fact assms(1), fact assms(2))
  obtain n all c' where sent: "send_all send ?ms c = (n, all, c')" by (cases "send_all send ?ms c") auto
  then have r: "rpr_success r = all" "rp_conn st = c'"
    using replay_lines_sends [of send sep preserve_timing "split_lines content" "new_replayer c" r st] assms(3,4)
    by (auto simp: replay_file_def report_def new_replayer_def)
  note w = connection.send_all_written [OF conn sent]
  show ?thesis
  proof (cases all)
    case True
    with w r show ?thesis by auto
  next
    case False
    with w obtain k where k: "n < length ?ms" "written c' = written c @ concat (take n ?ms) @ take k (?ms ! n)"
      by auto
    have "concat ?ms = concat (take n ?ms @ ?ms ! n # drop (Suc n) ?ms)"
      using id_take_nth_drop [OF k(1)] by simp
    then have "prefix (concat (take n ?ms) @ take k (?ms ! n)) (concat ?ms)"
      by (simp add: take_is_prefix prefix_prefix)
    with k(2) r False show ?thesis by auto
  qed
qed

theorem replay_writes_log_witness:
  "\<exists>r st. replay_file mem_send (\<lambda>p. Some sample_log) ''f'' SOH False (new_mem_conn\<lparr>mc_connected := True\<rparr>) = Defined (r, st) \<and>
     concat (mc_to_server (rp_conn st)) = ''8=a8=b''"
proof -
  let ?run = "replay_file mem_send (\<lambda>p. Some sample_log) ''f'' SOH False (new_mem_conn\<lparr>mc_connected := True\<rparr>)"
  have "case ?run of Defined (r, st) \<Rightarrow> rpr_success r | Undefined \<Rightarrow> False" by code_simp
  then obtain r st where run: "?run = Defined (r, st)" "rpr_success r" by (cases ?run) auto
  have "concat (log_messages (split_lines sample_log)) = ''8=a8=b''" by code_simp
  moreover have "\<exists>k. concat (mc_to_server c') = concat (mc_to_server c) @ take k d"
    if "mem_send d c = (False, c')" for d c c'
    using mem.send_fails [OF that] .
  ultimately show ?thesis
    using replay_writes_log [of mem_send "\<lambda>c. concat (mc_to_server c)", OF mem.send_succeeds _ run(1) refl] run
    by (auto simp: new_mem_conn_def)
qed

text \<open>
  C19: with timing, on a log whose messages all carry a sending time after the epoch and
  whose times do not go back, the replay has slept, whenever it sends a message, exactly
  the milliseconds between the first message's time and this one's; it never overflows.
\<close>

theorem replay_keeps_pace:
  assumes "files path = Some content"
    and "list_all2 (\<lambda>l t. message_time sep True l = Defined t \<and> 0 < t) (log_messages (split_lines content)) ts"
    and "sorted ts"
  shows "\<exists>r st. replay_file send files path sep True c = Defined (r, st) \<and>
    prefix (due 0 (rp_events st)) (map (\<lambda>t. (t - hd ts) div 1000000) ts) \<and>
    (rpr_success r \<longrightarrow> due 0 (rp_events st) = map (\<lambda>t. (t - hd ts) div 1000000) ts)"
proof -
  define t0 where "t0 = (if ts = [] then 0 else hd ts)"
  have "1000000 dvd t0"
    using assms(2) message_time_ms by (cases ts) (auto simp: t0_def list_all2_Cons2)
  moreover have "paced t0 ts (new_replayer c)" by (simp add: paced_def new_replayer_def t0_def)
  ultimately obtain r st xs where "replay_lines send sep True (split_lines content) (new_replayer c) = Defined (r, st)"
      "due 0 (rp_events st) = due 0 (rp_events (new_replayer c)) @ xs"
      "prefix xs (map (\<lambda>t. (t - t0) div 1000000) ts)"
      "rpr_success r \<longrightarrow> xs = map (\<lambda>t. (t - t0) div 1000000) ts"
    using replay_lines_paced [OF assms(2,3), of t0 "new_replayer c" send] by blast
  moreover have "map (\<lambda>t. (t - t0) div 1000000) ts = map (\<lambda>t. (t - hd ts) div 1000000) ts"
    by (cases ts) (simp_all add: t0_def)
  ultimately show ?thesis using assms(1) by (auto simp: replay_file_def new_replayer_def)
qed

definition timed_log :: string where
  "timed_log =
     frame SOH ''FIX.4.2'' [\<lparr>ftag = 52, fvalue = ''20240229-12:34:56.789''\<rparr>] @ [newline] @
     frame SOH ''FIX.4.2'' [\<lparr>ftag = 52, fvalue = ''20240301-00:00:00.000''\<rparr>] @ [newline]"

theorem replay_keeps_pace_witness:
  "\<exists>r st. replay_file mem_send (\<lambda>p. Some timed_log) ''f'' SOH True (new_mem_conn\<lparr>mc_connected := True\<rparr>) = Defined (r, st) \<and>
     prefix (due 0 (rp_events st)) [0, 41103211]"
proof -
  let ?ts = "[1709210096789000000, 1709251200000000000]"
  have "list_all2 (\<lambda>l t. message_time SOH True l = Defined t \<and> 0 < t) (log_messages (split_lines timed_log)) ?ts"
    by code_simp
  from replay_keeps_pace [of "\<lambda>p. Some timed_log", OF refl this, of mem_send "''f''"
    "new_mem_conn\<lparr>mc_connected := True\<rparr>"]
  show ?thesis by auto
qed

definition garbage_log :: string where
  "garbage_log = frame SOH ''FIX.4.2'' [\<lparr>ftag = 52, fvalue = replicate 21 (CHR ''X'')\<rparr>]"

text \<open>
  With timing, a log with a well-formed message whose sending time has 21 characters
  but no digits makes the replay undefined, on every connection; without timing it is sent.
\<close>

theorem replay_garbage_time:
  "replay_file send (\<lambda>p. Some garbage_log) path SOH True c = Undefined \<and>
   (\<exists>r st. replay_file send (\<lambda>p. Some garbage_log) path SOH False c = Defined (r, st) \<and>
     rp_events st = [Transmitted garbage_log])"
proof -
  have lines: "split_lines garbage_log = [garbage_log]" "strip_line garbage_log = garbage_log"
    "garbage_log \<noteq> [] \<and> garbage_log ! 0 \<noteq> CHR ''#''" "message_time SOH True garbage_log = Undefined"
    by code_simp+
  show ?thesis
    by (cases "fst (send garbage_log c)")
      (auto simp: replay_file_def lines replay_line_def Let_def new_replayer_def message_time_def [of _ False]
        pause_def split: prod.splits)
qed

end
