(* ===== verification/Listener.thy ===== *)
theory Listener
  imports Fixure_Prelude Machine
begin

text \<open>
  \<open>Proxy::start\<close> and \<open>Proxy::stop\<close> of \<open>src/proxy.cpp\<close>: the listening socket and the loop
  that accepts clients.  The system calls are a parameter; \<open>la_stops\<close> tells, after a
  \<open>select\<close>, whether another thread has called \<open>stop\<close> meanwhile, and \<open>la_spawn\<close> starts the
  detached thread that handles a client.  The loop is an \<open>iterate\<close>: it may go on for ever.
\<close>

section \<open>State\<close>

record 'w listen_api =
  la_socket :: "'w \<Rightarrow> int \<times> 'w"
  la_reuse :: "int \<Rightarrow> 'w \<Rightarrow> 'w"
  la_bind :: "int \<Rightarrow> 16 word \<Rightarrow> 'w \<Rightarrow> int \<times> 'w"
  la_getsockname :: "int \<Rightarrow> 'w \<Rightarrow> 16 word option \<times> 'w"
  la_listen :: "int \<Rightarrow> nat \<Rightarrow> 'w \<Rightarrow> int \<times> 'w"
  la_select :: "int \<Rightarrow> bool \<Rightarrow> 'w \<Rightarrow> int \<times> bool \<times> 'w"
  la_accept :: "int \<Rightarrow> 'w \<Rightarrow> int \<times> 'w"
  la_spawn :: "int \<Rightarrow> 'w \<Rightarrow> 'w"
  la_close :: "int \<Rightarrow> 'w \<Rightarrow> 'w"
  la_stops :: "'w \<Rightarrow> bool"

record 'w listener =
  li_port :: int
  li_running :: bool
  li_fd :: int
  li_world :: 'w

definition new_listener :: "int \<Rightarrow> 'w \<Rightarrow> 'w listener" where
  "new_listener local_port w = \<lparr>li_port = local_port, li_running = False, li_fd = -1, li_world = w\<rparr>"

section \<open>Operations\<close>

definition proxy_stop :: "'w listen_api \<Rightarrow> 'w listener \<Rightarrow> 'w listener" where
  "proxy_stop api s =
     (let s1 = s\<lparr>li_running := False\<rparr> in
      if li_fd s1 \<ge> 0 then s1\<lparr>li_fd := -1, li_world := la_close api (li_fd s1) (li_world s1)\<rparr> else s1)"

definition FD_SETSIZE :: int where "FD_SETSIZE = 1024"

text \<open>One round of the loop; \<open>Inr\<close> leaves it.\<close>

definition accept_round :: "'w listen_api \<Rightarrow> 'w listener \<Rightarrow> ('w listener + 'w listener) cpp" where
  "accept_round api s =
     (if \<not> li_running s then Defined (Inr s)
      else
        (let in_set = (li_fd s \<ge> 0 \<and> li_fd s < FD_SETSIZE);
             (retval, interrupted, w) = la_select api (li_fd s + 1) in_set (li_world s);
             s1 = s\<lparr>li_world := w\<rparr>;
             s2 = (if la_stops api w then proxy_stop api s1 else s1)
         in if retval < 0 then (if interrupted then Defined (Inl s2) else Defined (Inr s2))
            else if retval = 0 then Defined (Inl s2)
            else
              (let (client_fd, w2) = la_accept api (li_fd s2) (li_world s2);
                   s3 = s2\<lparr>li_world := w2\<rparr>
               in if client_fd < 0 then (if \<not> li_running s3 then Defined (Inr s3) else Defined (Inl s3))
                  else Defined (Inl (s3\<lparr>li_world := la_spawn api client_fd (li_world s3)\<rparr>)))))"

text \<open>Everything before the loop: \<open>False\<close> for the three early returns.\<close>

definition open_listener :: "'w listen_api \<Rightarrow> 'w listener \<Rightarrow> bool \<times> 'w listener" where
  "open_listener api s0 =
     (let (fd, w1) = la_socket api (li_world s0);
          s1 = s0\<lparr>li_running := True, li_fd := fd, li_world := w1\<rparr>
      in if fd < 0 then (False, s1)
         else
           (let (bound, w2) = la_bind api fd (word_of_int (li_port s1)) (la_reuse api fd w1);
                s2 = s1\<lparr>li_world := w2\<rparr>
            in if bound < 0 then (False, s2)
               else
                 (let s3 = (if li_port s2 = 0 then
                        (let (p, w3) = la_getsockname api fd w2
                         in case p of None \<Rightarrow> s2\<lparr>li_world := w3\<rparr>
                            | Some port \<Rightarrow> s2\<lparr>li_world := w3, li_port := uint port\<rparr>)
                      else s2);
                      (listening, w4) = la_listen api fd 3 (li_world s3)
                  in (\<not> listening < 0, s3\<lparr>li_world := w4\<rparr>))))"

definition proxy_start :: "'w listen_api \<Rightarrow> 'w listener \<Rightarrow> (bool \<times> 'w listener) cpp option" where
  "proxy_start api s0 =
     (let (opened, s1) = open_listener api s0 in
      if \<not> opened then Some (Defined (False, s1))
      else
        (case iterate (accept_round api) s1 of
           None \<Rightarrow> None
         | Some Undefined \<Rightarrow> Some Undefined
         | Some (Defined s2) \<Rightarrow> Some (Defined (True, s2))))"

section \<open>Lemmas\<close>

lemma stop_simps [simp]:
  "li_running (proxy_stop api s) = False" "li_port (proxy_stop api s) = li_port s"
  "li_fd (proxy_stop api s) < 0"
  by (auto simp: proxy_stop_def Let_def)

lemma stop_twice: "proxy_stop api (proxy_stop api s) = proxy_stop api s"
  by (auto simp: proxy_stop_def Let_def)

lemma accept_round_defined: "accept_round api s \<noteq> Undefined"
  by (auto simp: accept_round_def Let_def split: prod.split)

lemma open_listener_state:
  "open_listener api s = (b, s') \<Longrightarrow> li_running s' \<and> li_fd s' = fst (la_socket api (li_world s)) \<and>
     (b \<longrightarrow> 0 \<le> li_fd s')"
  by (auto simp: open_listener_def Let_def split: prod.splits option.splits if_splits)

text \<open>The flag and the descriptor go together: they change only in \<open>stop\<close>.\<close>

definition listening_on :: "int \<Rightarrow> int \<Rightarrow> 'w listener \<Rightarrow> bool" where
  "listening_on fd port s \<longleftrightarrow> li_port s = port \<and> (if li_running s then li_fd s = fd else li_fd s < 0)"

lemma listening_round:
  assumes "listening_on fd port s"
  shows "case accept_round api s of Undefined \<Rightarrow> False
    | Defined (Inl s') \<Rightarrow> listening_on fd port s' | Defined (Inr s') \<Rightarrow> listening_on fd port s'"
  using assms by (auto simp: accept_round_def listening_on_def Let_def split: prod.split)

section \<open>Properties\<close>

text \<open>
  \<open>start\<close> returns false exactly when the socket cannot be created, bound or listened on,
  and then leaves the proxy marked as running with the descriptor open; when it returns
  true, the proxy has either been stopped and its descriptor closed, or still holds it.
\<close>

theorem start_outcome:
  assumes "proxy_start api (new_listener port w) = Some (Defined (ok, s))"
  shows "ok = fst (open_listener api (new_listener port w)) \<and>
    (\<not> ok \<longrightarrow> li_running s \<and> li_fd s = fst (la_socket api w)) \<and>
    (ok \<longrightarrow> (if li_running s then li_fd s = fst (la_socket api w) else li_fd s < 0))"
proof -
  obtain b s1 where open1: "open_listener api (new_listener port w) = (b, s1)" by fastforce
  from open_listener_state [OF open1]
  have s1: "li_running s1" "li_fd s1 = fst (la_socket api w)" by (simp_all add: new_listener_def)
  show ?thesis
  proof (cases b)
    case False
    with assms open1 s1 show ?thesis by (simp add: proxy_start_def)
  next
    case True
    with assms open1 obtain s2 where it: "iterate (accept_round api) s1 = Some (Defined s2)" "ok" "s = s2"
      by (auto simp: proxy_start_def split: option.splits cpp.splits)
    have "listening_on (li_fd s1) (li_port s1) s2"
    proof (rule iterate_result [where P = "listening_on (li_fd s1) (li_port s1)", OF it(1)])
      show "listening_on (li_fd s1) (li_port s1) s1" using s1 by (simp add: listening_on_def)
      fix t :: "'a listener" assume "listening_on (li_fd s1) (li_port s1) t"
      from listening_round [OF this, of api]
      show "round_ok (listening_on (li_fd s1) (li_port s1)) (listening_on (li_fd s1) (li_port s1)) (accept_round api) t"
        by (auto simp: round_ok_def split: cpp.splits sum.splits)
    qed
    with it s1 open1 True show ?thesis by (auto simp: listening_on_def split: if_splits)
  qed
qed

text \<open>A world that is the number of selects until \<open>stop\<close> is called; no client comes.\<close>

definition countdown_api :: "nat listen_api" where
  "countdown_api = \<lparr>la_socket = \<lambda>w. (5, w), la_reuse = \<lambda>fd w. w, la_bind = \<lambda>fd p w. (0, w),
     la_getsockname = \<lambda>fd w. (Some 4711, w), la_listen = \<lambda>fd n w. (0, w),
     la_select = \<lambda>n b w. (0, False, w - 1), la_accept = \<lambda>fd w. (-1, w), la_spawn = \<lambda>fd w. w,
     la_close = \<lambda>fd w. w, la_stops = \<lambda>w. w = 0\<rparr>"

theorem start_outcome_witness:
  "\<exists>s. proxy_start countdown_api (new_listener 0 2) = Some (Defined (True, s)) \<and>
     li_port s = 4711 \<and> li_fd s < 0"
proof -
  have "case proxy_start countdown_api (new_listener 0 2) of
      Some (Defined (ok, s)) \<Rightarrow> ok \<and> li_port s = 4711 \<and> \<not> li_running s | _ \<Rightarrow> False"
    by code_simp
  then obtain s where s: "proxy_start countdown_api (new_listener 0 2) = Some (Defined (True, s))"
    "li_port s = 4711" "\<not> li_running s"
    by (auto split: option.splits cpp.splits)
  from start_outcome [OF s(1)] s show ?thesis by auto
qed

text \<open>
  C38: \<open>start\<close> comes back after \<open>stop\<close>: when another thread calls it at the latest at the
  n-th \<open>select\<close> from now, whatever the calls return in between, the loop ends.
\<close>

theorem start_ends_after_stop:
  assumes "\<And>n b w. \<not> la_stops api (snd (snd (la_select api n b w))) \<Longrightarrow>
      left (snd (snd (la_select api n b w))) < (left w :: nat)"
    and "\<And>fd w. left (snd (la_accept api fd w)) \<le> left w"
    and "\<And>fd w. left (la_spawn api fd w) \<le> left w"
  shows "\<exists>r. proxy_start api s = Some (Defined r)"
proof -
  obtain b s1 where open1: "open_listener api s = (b, s1)" by fastforce
  let ?m = "\<lambda>t :: 'a listener. if li_running t then Suc (left (li_world t)) else 0"
  have "\<exists>r. iterate (accept_round api) s1 = Some r"
  proof (rule iterate_ends [where P = "\<lambda>_. True" and m = ?m])
    fix t t' :: "'a listener"
    assume round: "accept_round api t = Defined (Inl t')"
    then have run: "li_running t" by (auto simp: accept_round_def split: if_splits)
    define w where "w = snd (snd (la_select api (li_fd t + 1) (li_fd t \<ge> 0 \<and> li_fd t < FD_SETSIZE) (li_world t)))"
    show "True \<and> ?m t' < ?m t"
    proof (cases "la_stops api w")
      case True
      with round have "\<not> li_running t'"
        by (auto simp: accept_round_def w_def Let_def split: if_splits prod.splits)
      with run show ?thesis by simp
    next
      case False
      then have "left w < left (li_world t)" unfolding w_def by (rule assms(1))
      moreover have "left (li_world t') \<le> left w"
        using round False assms(2) [of "li_fd t" w]
        by (auto simp: accept_round_def w_def Let_def split: if_splits prod.splits dest: order_trans [OF assms(3)])
      ultimately show ?thesis using run by simp
    qed
  qed simp
  then obtain r where r: "iterate (accept_round api) s1 = Some r" by blast
  have "r \<noteq> Undefined"
  proof (rule iterate_outcome [OF r, of "\<lambda>_. True"])
    fix t show "case accept_round api t of Undefined \<Rightarrow> Undefined \<noteq> Undefined
      | Defined (Inl s') \<Rightarrow> True | Defined (Inr r) \<Rightarrow> Defined r \<noteq> Undefined"
      using accept_round_defined [of api t] by (auto split: cpp.split sum.split)
  qed simp
  then show ?thesis using r open1 by (cases r) (auto simp: proxy_start_def)
qed

text \<open>
  A busy world: a client is accepted at every other \<open>select\<close>, a signal interrupts the
  others, and \<open>stop\<close> is called after any number of them.
\<close>

definition busy_api :: "nat listen_api" where
  "busy_api = countdown_api\<lparr>la_select := \<lambda>n b w. (if even w then 1 else -1, odd w, w - 1),
     la_accept := \<lambda>fd w. (7, w)\<rparr>"

theorem start_ends_after_stop_witness:
  "\<forall>selects. \<exists>r. proxy_start busy_api (new_listener 0 selects) = Some (Defined r)"
  by (intro allI start_ends_after_stop [where left = "\<lambda>w. w"]) (auto simp: busy_api_def countdown_api_def)

end
