(* ===== verification/Cli.thy ===== *)
theory Cli
  imports Runner Replay Listener Dictionary
begin

text \<open>
  The command line of \<open>app/main.cpp\<close>.  \<open>argv\<close> is the list of arguments with the program
  name first.  Files, sockets, the clock and the texts of the sending times are arguments;
  the printed lines are part of the result.  An exception that nobody catches ends the
  program and is a result of its own.
\<close>

section \<open>Results\<close>

datatype out_line = Out string | Err string

datatype cli_exit = Exit int | Uncaught string

section \<open>Helpers of the standard library\<close>

definition stoi_space :: "char \<Rightarrow> bool" where
  "stoi_space c \<longleftrightarrow> c = CHR '' '' \<or> (9 \<le> (of_char c :: nat) \<and> (of_char c :: nat) \<le> 13)"

text \<open>\<open>std::stoi\<close>: white space, a sign, digits; what follows the digits is ignored.\<close>

definition stoi :: "string \<Rightarrow> string + int" where
  "stoi s =
     (let t = dropWhile stoi_space s;
          neg = (t \<noteq> [] \<and> hd t = CHR ''-'');
          u = (if t \<noteq> [] \<and> (hd t = CHR ''-'' \<or> hd t = CHR ''+'') then tl t else t);
          ds = takeWhile is_digit u;
          v = (if neg then - digits_val ds else digits_val ds)
      in if ds = [] then Inl ''std::invalid_argument''
         else if int32 v then Inr v else Inl ''std::out_of_range'')"

text \<open>The format \<open>{:<4}\<close>.\<close>

definition left4 :: "string \<Rightarrow> string" where
  "left4 s = s @ replicate (4 - length s) (CHR '' '')"

section \<open>Usage\<close>

definition usage :: "out_line list" where
  "usage = map Err
     [''fixure: FIX Protocol test harness and mock container'',
      ''Usage:'',
      ''  fixure validate <msg_string_or_file> [--dict <xml_dict_path>] [--separator <char>]'',
      ''  fixure run <scenario_file> <host> <port>'',
      ''  fixure replay <log_file> <host> <port> [--preserve-timing]'',
      ''  fixure proxy <local_port> <target_host> <target_port> [--dict <xml_dict_path>]'']"

section \<open>validate\<close>

fun validate_options :: "string list \<Rightarrow> string \<times> char \<Rightarrow> string \<times> char" where
  "validate_options [] opts = opts"
| "validate_options [a] opts = opts"
| "validate_options (a # b # rest) (dict_path, separator) =
     (if a = ''--dict'' then validate_options rest (b, separator)
      else if a = ''--separator'' then
        validate_options rest (dict_path,
          (if b = ''|'' \<or> b = [CHR 0x5C, CHR ''x'', CHR ''0'', CHR ''1'']
           then (if b = ''|'' then CHR ''|'' else CHR 0x01)
           else if b \<noteq> [] then hd b else separator))
      else validate_options (b # rest) (dict_path, separator))"

definition cli_validate ::
  "((int \<times> bool) list \<Rightarrow> (int \<times> bool) list) \<Rightarrow> (string \<Rightarrow> string option) \<Rightarrow> string list \<Rightarrow>
     cli_exit \<times> out_line list" where
  "cli_validate iter files argv =
     (let target = argv ! 2;
          (dict_path, separator) = validate_options (drop 3 argv) ([], SOH);
          raw_content = (case files target of Some content \<Rightarrow> content | None \<Rightarrow> target)
      in case parse raw_content separator of
           Inl e \<Rightarrow> (Exit 1, [Err (''FAIL: Parse failed: '' @ parse_error_name e)])
         | Inr m \<Rightarrow>
             (let shown = Out (''PASS: Message parsed successfully. Field count: '' @ show_nat (field_count m))
                    # map (\<lambda>f. Out (''  Tag '' @ left4 (show_int (ftag f)) @ '' = '' @ fvalue f)) (m_fields m)
              in if dict_path = [] then (Exit 0, shown)
                 else
                   (case load_xml files dict_path of
                      Inl err \<Rightarrow> (Exit 1, shown @ [Err (''FAIL: Could not load data dictionary: '' @ err)])
                    | Inr d \<Rightarrow>
                        (case get_field m 35 of
                           None \<Rightarrow> (Exit 1, shown @ [Err ''FAIL: MsgType (35) tag missing in message''])
                         | Some msg_type \<Rightarrow>
                             (case validate_message iter d msg_type m of
                                Some err \<Rightarrow> (Exit 1, shown @ [Err (''FAIL: Message validation failed: '' @ err)])
                              | None \<Rightarrow> (Exit 0, shown @ [Out ''PASS: Message is valid according to data dictionary.'']))))))"

section \<open>run\<close>

definition cli_config :: session_config where
  "cli_config = \<lparr>sc_begin_string = ''FIX.4.2'', sc_sender_comp_id = ''FIXURE_CLIENT'',
     sc_target_comp_id = ''SUT'', sc_heartbeat_interval = 30\<rparr>"

text \<open>The surroundings of the program.\<close>

record 'w system =
  sy_iter :: "(int \<times> bool) list \<Rightarrow> (int \<times> bool) list"
  sy_files :: "string \<Rightarrow> string option"
  sy_sockets :: "'w socket_api"
  sy_listen :: "'w listen_api"
  sy_clock :: "nat \<Rightarrow> int"
  sy_stamps :: "nat \<Rightarrow> string"
  sy_world :: 'w

definition run_world :: "'w system \<Rightarrow> 'w tcp_conn world" where
  "run_world sys = \<lparr>w_ops = tcp_ops (sy_sockets sys), w_clock = sy_clock sys, w_stamp = sy_stamps sys\<rparr>"

definition cli_run :: "'w system \<Rightarrow> string list \<Rightarrow> (cli_exit \<times> out_line list) cpp option" where
  "cli_run sys argv =
     (if length argv < 5 then Some (Defined (Exit 1, usage))
      else
        (case stoi (argv ! 4) of
           Inl ex \<Rightarrow> Some (Defined (Uncaught ex, []))
         | Inr port \<Rightarrow>
             (case load_from_file (sy_files sys) (argv ! 2) of
                Inl err \<Rightarrow> Some (Defined (Exit 1, [Err (''FAIL: Could not load scenario: '' @ err)]))
              | Inr sc \<Rightarrow>
                  (let banner = Out (''Running scenario '' @ [CHR 0x27] @ argv ! 2 @ [CHR 0x27] @ '' against '' @
                         argv ! 3 @ '':'' @ show_int port @ ''...'')
                   in case run (run_world sys) sc
                          (new_runner (new_session cli_config) (new_tcp_conn (argv ! 3) port (sy_world sys))) of
                        None \<Rightarrow> None
                      | Some Undefined \<Rightarrow> Some Undefined
                      | Some (Defined (r, st)) \<Rightarrow>
                          Some (Defined
                            (if rr_success r
                             then (Exit 0, [banner, Out (''PASS: Scenario executed successfully ('' @
                                    show_nat (rr_steps_executed r) @ '' steps).'')])
                             else (Exit 1, [banner, Err (''FAIL: Scenario execution failed: '' @ rr_error_message r)])))))))"

section \<open>replay\<close>

definition cli_replay :: "'w system \<Rightarrow> string list \<Rightarrow> (cli_exit \<times> out_line list) cpp" where
  "cli_replay sys argv =
     (if length argv < 5 then Defined (Exit 1, usage)
      else
        (case stoi (argv ! 4) of
           Inl ex \<Rightarrow> Defined (Uncaught ex, [])
         | Inr port \<Rightarrow>
             (let preserve_timing = list_ex (\<lambda>a. a = ''--preserve-timing'') (drop 5 argv);
                  (connected, c) = tcp_connect (sy_sockets sys) (new_tcp_conn (argv ! 3) port (sy_world sys))
              in if \<not> connected
                 then Defined (Exit 1, [Err (''FAIL: Could not connect to target '' @ argv ! 3 @ '':'' @ show_int port)])
                 else
                   (let banner = Out (''Replaying logs from '' @ [CHR 0x27] @ argv ! 2 @ [CHR 0x27] @ '' to '' @
                          argv ! 3 @ '':'' @ show_int port @ ''...'')
                    in cpp_bind (replay_file (tcp_send (sy_sockets sys)) (sy_files sys) (argv ! 2) SOH preserve_timing c)
                         (\<lambda>(r, st). Defined
                            (if rpr_success r
                             then (Exit 0, [banner, Out (''PASS: Replayed '' @ show_nat (rpr_messages_sent r) @ '' messages.'')])
                             else (Exit 1, [banner, Err (''FAIL: Replay failed: '' @ rpr_error_message r)])))))))"

section \<open>proxy\<close>

fun proxy_options :: "(string \<Rightarrow> string option) \<Rightarrow> string list \<Rightarrow> dictionary option \<Rightarrow> string + dictionary option" where
  "proxy_options files [] dict = Inr dict"
| "proxy_options files [a] dict = Inr dict"
| "proxy_options files (a # b # rest) dict =
     (if a = ''--dict'' then
        (case load_xml files b of
           Inl err \<Rightarrow> Inl err
         | Inr d \<Rightarrow> proxy_options files rest (Some d))
      else proxy_options files (b # rest) dict)"

text \<open>What the proxy prints while it runs is not part of this result.\<close>

definition cli_proxy :: "'w system \<Rightarrow> string list \<Rightarrow> (cli_exit \<times> out_line list) cpp option" where
  "cli_proxy sys argv =
     (if length argv < 5 then Some (Defined (Exit 1, usage))
      else
        (case stoi (argv ! 2) of
           Inl ex \<Rightarrow> Some (Defined (Uncaught ex, []))
         | Inr local_port \<Rightarrow>
             (case stoi (argv ! 4) of
                Inl ex \<Rightarrow> Some (Defined (Uncaught ex, []))
              | Inr target_port \<Rightarrow>
                  (case proxy_options (sy_files sys) (drop 5 argv) None of
                     Inl err \<Rightarrow> Some (Defined (Exit 1, [Err (''FAIL: Could not load data dictionary: '' @ err)]))
                   | Inr dict \<Rightarrow>
                       (case proxy_start (sy_listen sys) (new_listener local_port (sy_world sys)) of
                          None \<Rightarrow> None
                        | Some Undefined \<Rightarrow> Some Undefined
                        | Some (Defined (started, p)) \<Rightarrow>
                            Some (Defined (if started then Exit 0 else Exit 1, [])))))))"

section \<open>main\<close>

definition cli_main :: "'w system \<Rightarrow> string list \<Rightarrow> (cli_exit \<times> out_line list) cpp option" where
  "cli_main sys argv =
     (if length argv < 3 then Some (Defined (Exit 1, usage))
      else if argv ! 1 = ''validate'' then Some (Defined (cli_validate (sy_iter sys) (sy_files sys) argv))
      else if argv ! 1 = ''run'' then cli_run sys argv
      else if argv ! 1 = ''replay'' then Some (cli_replay sys argv)
      else if argv ! 1 = ''proxy'' then cli_proxy sys argv
      else Some (Defined (Exit 1, usage)))"

section \<open>Lemmas\<close>

lemma stoi_range: "stoi s = Inr n \<Longrightarrow> int32 n"
  by (auto simp: stoi_def Let_def split: if_splits)

lemma stoi_show_int: "int32 z \<Longrightarrow> rest = [] \<or> \<not> is_digit (hd rest) \<Longrightarrow> stoi (show_int z @ rest) = Inr z"
proof -
  assume z: "int32 z" and rest: "rest = [] \<or> \<not> is_digit (hd rest)"
  have nospace: "\<not> stoi_space c" if "is_digit c \<or> c = CHR ''-''" for c
    using that by (auto simp: is_digit_def stoi_space_def)
  have digits: "takeWhile is_digit (show_nat n @ rest) = show_nat n" for n
    using rest by (intro takeWhile_digits_append) (auto simp: show_nat_digits)
  have hd: "is_digit (hd (show_nat n @ rest))" for n using hd_show_nat [of n] by simp
  have sign: "hd (show_nat n @ rest) \<noteq> CHR ''-''" "hd (show_nat n @ rest) \<noteq> CHR ''+''" for n
    using hd [of n] by (auto simp: is_digit_def)
  show ?thesis
  proof (cases "z < 0")
    case True
    then have "dropWhile stoi_space (show_int z @ rest) = show_int z @ rest"
      using nospace [of "CHR ''-''"] by (simp add: show_int_def)
    with True z show ?thesis by (simp add: stoi_def Let_def show_int_def digits)
  next
    case False
    have "dropWhile stoi_space (show_nat n @ rest) = show_nat n @ rest" for n
      using nospace [of "hd (show_nat n @ rest)"] hd [of n] by (cases "show_nat n @ rest") auto
    with False z sign [of "nat z"] show ?thesis by (simp add: stoi_def Let_def show_int_def digits)
  qed
qed

lemma load_parsed: "load_xml files path = Inr d \<Longrightarrow> \<exists>xml. files path = Some xml \<and> parse_xml xml = Inr d"
  by (auto simp: load_xml_def split: option.splits)

section \<open>Properties\<close>

text \<open>
  C32: \<open>fixure validate\<close> exits with 0 exactly when the text (of the file of that name, or the
  argument itself) parses with the chosen separator and, if a dictionary is given, the
  dictionary loads, the message has a type it defines and carries every field required for
  it; otherwise with 1.
\<close>

theorem validate_exit_code:
  assumes "\<And>es. set (sy_iter sys es) = set es" "length argv \<ge> 3" "argv ! 1 = ''validate''"
    and "validate_options (drop 3 argv) ([], SOH) = (dict_path, separator)"
    and "raw = (case sy_files sys (argv ! 2) of Some content \<Rightarrow> content | None \<Rightarrow> argv ! 2)"
  shows "\<exists>code printed. cli_main sys argv = Some (Defined (Exit code, printed)) \<and> code \<in> {0, 1} \<and>
    (code = 0 \<longleftrightarrow> (\<exists>m. parse raw separator = Inr m \<and>
       (dict_path = [] \<or> (\<exists>d mt. load_xml (sy_files sys) dict_path = Inr d \<and> get_field m 35 = Some mt \<and>
          d_messages d mt \<noteq> None \<and> (\<forall>t. is_required d mt t \<longrightarrow> get_field m t \<noteq> None)))))"
proof -
  have valid: "validate_message (sy_iter sys) d mt m = None \<longleftrightarrow>
      d_messages d mt \<noteq> None \<and> (\<forall>t. is_required d mt t \<longrightarrow> get_field m t \<noteq> None)"
    if "load_xml (sy_files sys) dict_path = Inr d" for d mt m
    using load_parsed [OF that] validate_message_spec [of _ d "sy_iter sys" mt m] assms(1) by blast
  have main: "cli_main sys argv = Some (Defined (cli_validate (sy_iter sys) (sy_files sys) argv))"
    using assms(2,3) by (simp add: cli_main_def)
  show ?thesis
  proof (cases "parse raw separator")
    case (Inl e)
    then show ?thesis by (simp add: main cli_validate_def assms(4) assms(5) [symmetric])
  next
    case (Inr m)
    note v = main cli_validate_def assms(4) assms(5) [symmetric] Inr Let_def
    show ?thesis
    proof (cases "dict_path = []")
      case False
      show ?thesis
      proof (cases "load_xml (sy_files sys) dict_path")
        case (Inr d)
        show ?thesis
        proof (cases "get_field m 35")
          case (Some mt)
          with False Inr valid [OF Inr, of mt m] show ?thesis
            by (cases "validate_message (sy_iter sys) d mt m") (simp_all add: v)
        qed (use False Inr in \<open>simp add: v\<close>)
      qed (use False in \<open>simp add: v\<close>)
    qed (simp add: v)
  qed
qed


text \<open>
  \<open>fixure run\<close> comes to an end, whatever the scenario and the peer, when the clock goes on.
\<close>

theorem run_command_returns:
  assumes "\<forall>k. \<exists>n>k. sy_clock sys n - sy_clock sys k > expect_timeout"
  shows "\<exists>r. cli_main sys [prog, ''run'', path, host, port] = Some r"
proof -
  have "clock_goes_on (w_clock (run_world sys))" using assms by (simp add: clock_goes_on_def run_world_def)
  from run_from_returns [OF this]
  have ret: "(run (run_world sys) sc st = None) = False" for sc st by (simp add: run_def)
  show ?thesis
    by (auto simp: ret cli_main_def cli_run_def Let_def split: sum.split option.split cpp.split)
qed

text \<open>
  The ports are read without a check.  A port that does not begin with a number ends the
  program with an exception nobody catches, in every command with a port; a number may be
  followed by anything, and need not be a port.
\<close>

theorem ports_unchecked:
  "(\<forall>sys prog path host port ex. stoi port = Inl ex \<longrightarrow>
      cli_main sys [prog, ''run'', path, host, port] = Some (Defined (Uncaught ex, [])) \<and>
      cli_main sys [prog, ''replay'', path, host, port] = Some (Defined (Uncaught ex, [])) \<and>
      cli_main sys [prog, ''proxy'', port, host, path] = Some (Defined (Uncaught ex, []))) \<and>
   stoi ''http'' = Inl ''std::invalid_argument'' \<and>
   (\<forall>z rest. int32 z \<longrightarrow> rest = [] \<or> \<not> is_digit (hd rest) \<longrightarrow> stoi (show_int z @ rest) = Inr z)"
proof -
  have "stoi ''http'' = Inl ''std::invalid_argument''" by code_simp
  then show ?thesis
    by (auto simp: cli_main_def cli_run_def cli_replay_def cli_proxy_def stoi_show_int)
qed


text \<open>A system for the witnesses: a few files, sockets that accept two bytes at a time.\<close>

definition sample_system :: "string system" where
  "sample_system = \<lparr>sy_iter = rev,
     sy_files = \<lambda>p. if p = ''d.xml'' then Some sample_xml else if p = ''s.txt'' then Some ''CONNECT'' else None,
     sy_sockets = two_byte_socket,
     sy_listen = \<lparr>la_socket = \<lambda>w. (-1, w), la_reuse = \<lambda>fd w. w, la_bind = \<lambda>fd p w. (0, w),
       la_getsockname = \<lambda>fd w. (None, w), la_listen = \<lambda>fd n w. (0, w), la_select = \<lambda>n b w. (-1, False, w),
       la_accept = \<lambda>fd w. (-1, w), la_spawn = \<lambda>fd w. w, la_close = \<lambda>fd w. w, la_stops = \<lambda>w. True\<rparr>,
     sy_clock = \<lambda>k. int k * 1000000000, sy_stamps = \<lambda>k. [], sy_world = []\<rparr>"

text \<open>A message of type D without the required field 1.\<close>

definition bare_order :: string where
  "bare_order = frame (CHR ''|'') ''F'' [\<lparr>ftag = 35, fvalue = ''D''\<rparr>]"

theorem validate_exit_code_witness:
  "\<exists>code printed. cli_main sample_system [''fixure'', ''validate'', bare_order, ''--dict'', ''d.xml'', ''--separator'', ''|''] =
     Some (Defined (Exit code, printed)) \<and> code = 1"
proof -
  let ?argv = "[''fixure'', ''validate'', bare_order, ''--dict'', ''d.xml'', ''--separator'', ''|'']"
  have opts: "validate_options (drop 3 ?argv) ([], SOH) = (''d.xml'', CHR ''|'')" by code_simp
  have raw: "bare_order = (case sy_files sample_system (?argv ! 2) of Some content \<Rightarrow> content | None \<Rightarrow> ?argv ! 2)"
    by code_simp
  have iter: "set (sy_iter sample_system es) = set es" for es by (simp add: sample_system_def)
  have "case parse bare_order (CHR ''|'') of Inr m \<Rightarrow> get_field m 35 = Some ''D'' \<and> get_field m 1 = None | Inl _ \<Rightarrow> False"
    by code_simp
  moreover have "case load_xml (sy_files sample_system) ''d.xml'' of Inr d \<Rightarrow> is_required d ''D'' 1 | Inl _ \<Rightarrow> False"
    by code_simp
  ultimately show ?thesis
    using validate_exit_code [OF iter _ _ opts raw] by (fastforce split: sum.splits)
qed


theorem run_command_returns_witness:
  "\<exists>r. cli_main sample_system [''fixure'', ''run'', ''s.txt'', ''h'', ''80''] = Some r"
proof (rule run_command_returns, intro allI)
  fix k show "\<exists>n>k. sy_clock sample_system n - sy_clock sample_system k > expect_timeout"
    by (intro exI [of _ "k + 6"]) (simp add: sample_system_def expect_timeout_def)
qed

theorem ports_unchecked_witness:
  "cli_main sample_system [''fixure'', ''run'', ''s.txt'', ''h'', ''http''] =
     Some (Defined (Uncaught ''std::invalid_argument'', [])) \<and> stoi (show_int 80 @ ''x'') = Inr 80"
proof -
  have 80: "int32 80" "''x'' = [] \<or> \<not> is_digit (hd ''x'')" by code_simp+
  note all = ports_unchecked
  note http = all [THEN conjunct2, THEN conjunct1]
  have "cli_main sample_system [''fixure'', ''run'', ''s.txt'', ''h'', ''http''] =
      Some (Defined (Uncaught ''std::invalid_argument'', []))"
    by (rule all [THEN conjunct1, THEN spec, THEN spec, THEN spec, THEN spec, THEN spec, THEN spec, THEN mp, OF http, THEN conjunct1])
  moreover have "stoi (show_int 80 @ ''x'') = Inr 80"
    by (rule all [THEN conjunct2, THEN conjunct2, THEN spec, THEN spec, THEN mp, OF 80(1), THEN mp, OF 80(2)])
  ultimately show ?thesis ..
qed

end
