(* ===== verification/Spec2Isabelle.thy ===== *)
theory Spec2Isabelle
  imports Repeating_Groups Proxy Conversation Cli
begin

text \<open>
  A verification library of fixure, a test harness for the FIX protocol (C++23).  It parses
  and serializes FIX messages, keeps a FIX session, plays scenarios against a system under
  test, replays logs and sits between two peers as an inspecting proxy.  Paths below are
  under \<open>src/\<close> of the repository.

  \<^bold>\<open>Parts of the program and their theories\<close>

  \<^item> \<open>Fixure_Prelude\<close>: what the code uses of the C++ standard library on texts:
    \<open>string_view::find\<close> and \<open>substr\<close>, lines of a file, \<open>from_chars\<close> (its three outcomes
    and the range of \<open>int\<close>) and \<open>to_chars\<close>, with the lemmas all components share.
    \<open>Machine\<close>: results that may be undefined behaviour (\<open>cpp\<close>), runs of a step function, the
    locale \<open>invariant_machine\<close>, and \<open>iterate\<close>, a loop that may not end (\<open>None\<close>).
  \<^item> \<open>Parser\<close> and \<open>Wire_Format\<close>: \<open>FixMessage\<close> of \<open>src/parser.cpp\<close>.  \<open>parse_loop\<close> walks the
    buffer by positions as the code does; \<open>parse_finish\<close> checks body length and checksum
    (a wrapping 32-bit word).  \<open>Wire_Format\<close> says declaratively what a laid-out message is
    and which check fails first, and proves the loop equal to that.
    \<open>Repeating_Groups\<close>: \<open>get_group\<close> against cutting a list at its delimiters.
  \<^item> \<open>Serializer\<close>: \<open>serialize_message\<close> on a buffer of fixed capacity: the placeholder for the
    body length, the patch, and the byte-wise overlapping moves in both directions.  The
    specification is \<open>frame\<close>, the text of a message; the locale \<open>bounded_sink\<close> is the
    interface of the writers.
  \<^item> \<open>Session\<close>: \<open>FixSession\<close> of \<open>src/session.cpp\<close> (\<open>fix_session\<close> has its three counters and
    flags); \<open>receive_message\<close> is the whole handler, with the overflow of a counter as
    \<open>Undefined\<close>.  \<open>Sending_Time\<close>: \<open>get_sending_time\<close> and \<open>parse_sending_time\<close> with the
    calendar of \<open>gmtime_r\<close> and \<open>timegm\<close>.
  \<^item> \<open>Framing\<close>: \<open>extract_next_message\<close> (one copy in \<open>src/runner.cpp\<close>, one in
    \<open>src/proxy.cpp\<close>, proved equal) and the receive buffer around it.
  \<^item> \<open>Dictionary\<close>: the XML scanner, the maps and \<open>validate_message\<close> of \<open>src/dictionary.cpp\<close>.
    The file system is a map and the iteration order of the hash table an argument.
  \<^item> \<open>Scenario\<close>: the DSL parser and the builder of \<open>src/scenario.cpp\<close>.
  \<^item> \<open>Connections\<close>: the connections of \<open>src/runner.cpp\<close>.  The in-memory one is a pair of
    queues with its operations and a step relation (\<open>mem_step\<close>) whose steps are calls of
    them by two threads, a receiving call in two halves when it waits; the TCP one works on \<open>socket_api\<close>, a record of system calls over an arbitrary state of the
    outside world.  The locale \<open>connection\<close> is what senders rely on, \<open>working_line\<close> what they
    get while nothing fails; both connections are shown to provide it.
  \<^item> \<open>Runner\<close>: \<open>ScenarioRunner\<close>: every step type, the \<open>EXPECT\<close> loop as an \<open>iterate\<close>, mocks.
    The locale \<open>logging_connection\<close> is a connection with a record of the calls of \<open>send\<close>
    (by a \<open>sublocale\<close> it keeps the contract of sending); \<open>recording\<close> turns any connection into
    one, and the run over it is proved the same up to the record, so that what a run sends
    can be told for every connection.
  \<^item> \<open>Replay\<close>: \<open>SessionReplayer\<close> of \<open>src/replay.cpp\<close>; sleeping is an event of the state.
  \<^item> \<open>Inspection\<close>, \<open>Proxy\<close>, \<open>Listener\<close>: \<open>src/proxy.cpp\<close>.  \<open>Inspection\<close> has the shared state of
    both directions and \<open>analyze_message\<close>; \<open>Proxy\<close> has \<open>handle_connection\<close> and the two
    threads of \<open>forward_traffic\<close>, which advance by single steps under any schedule;
    \<open>Listener\<close> has \<open>start\<close> and \<open>stop\<close>.  The locale \<open>socket_log\<close> states what is documented of
    the sockets and is interpreted on scripted ones.
  \<^item> \<open>Conversation\<close>: a runner, a stream cut anywhere, and a peer with buffer, parser and
    session.  \<open>Cli\<close>: \<open>app/main.cpp\<close>, all four commands.

  \<^bold>\<open>How the parts interact\<close>

  The runner asks the session for a header (\<open>prepare_header\<close>), appends the step's fields,
  serializes them into 4096 bytes and gives the text to its connection; what arrives goes
  through the receive buffer, the extraction and the parser into \<open>receive_message\<close>, then to
  the expectation or a mock.  The replayer sends lines as they are and reads their sending
  time through the parser.  The proxy forwards raw bytes and runs the extraction, the parser
  and the dictionary on a copy.  The command line builds each of them from its arguments.

  \<^bold>\<open>What the lemmas show\<close>

  \<^item> Round trips: serializing and parsing, dictionaries and scenarios rendered and read back,
    groups, sending times.
  \<^item> Equivalence and refinement: the parser's loop and its declarative checks, the exact
    error of every laid-out text, the in-place serializer and \<open>frame\<close>, \<open>get_group\<close> and
    cutting, the extraction and frameable messages, the DSL loop and parsing by lines, a
    replay and sending a list.
  \<^item> Invariants and safety: counters in range, strictly increasing delivery, numbering over
    whole runs, queues that neither lose nor repeat, forwarded bytes unchanged under every
    schedule of the proxy's threads, inspection that peers cannot notice.
  \<^item> Termination and liveness: runs end when the clock goes on and the accept loop ends after
    \<open>stop\<close>.  A thread of the proxy ends after \<open>stop\<close> in a bounded number of moves not spent
    sleeping in \<open>recv\<close> or \<open>send\<close>; asleep there it stays, which is a theorem too.  Gaps are
    recovered, what a scenario sends arrives in order.
  \<^item> Errors: undefined behaviour where the model has it (a counter at its maximum, a \<open>SEND\<close>
    without fields, unreadable years with timing, the \<open>int\<close> sum of the serializer's patch),
    timeouts, failed sends, ports.
  \<^item> Deviations found while modelling are theorems too: a tag ending in 10 or a cut behind a
    first byte breaks the framing, a \<open>|\<close> in a value makes the proxy reject a valid message,
    both proxy threads close both descriptors, the replies a session asks for are not sent,
    dictionaries with messages before fields require nothing.

  \<^bold>\<open>Bounds and conventions\<close>

  \<open>int\<close> is an integer with the range of 32 bits written out (\<open>int32\<close>), the checksum a
  \<open>32 word\<close>, a port a \<open>16 word\<close> when it is bound.  The serializer's theorems hold for buffers
  below two gigabytes, where its casts are exact; its one overflow there is \<open>Undefined\<close>.  No
  definition has fuel: loops are recursive on a measure (bytes left, lines left) or an
  \<open>iterate\<close> whose end is a theorem, from a clock that goes on or a \<open>stop\<close> that comes.  Clocks
  are sequences of readings in nanoseconds, each taken once; the time point of libstdc++ has
  64 bits.  Where the model tells undefined behaviour from a result it is \<open>Undefined\<close>, never a
  default value: the increments of the sequence numbers, the first field of an empty step,
  the 64-bit time points of the replay, and in the serializer the \<open>int\<close> sum and accesses past
  the buffer.  Other sums (differences of clock readings, counts of steps) are integers
  without a bound.

  \<^bold>\<open>Not modelled\<close>

  \<^item> The lifetimes of string views (all values are texts of their own), memory and moves.
  \<^item> The branches for Windows, and the sockets themselves, which are arguments of the model.
  \<^item> The number \<open>strtod\<close> computes (an argument of \<open>get_double\<close>); the wording and colours of
    the lines the proxy prints, which are events; the printing to streams.
  \<^item> Data races: an inspected message is one step, although two threads of the proxy share
    unsynchronised state; \<open>stop\<close> takes effect at a \<open>select\<close>, its race on the listening
    descriptor is left out; the detached threads of the accept loop are spawned and not
    followed, and what a destroyed \<open>Proxy\<close> would do to threads asleep is not told.
  \<^item> The unit tests under \<open>tests/\<close>, whose expected values agree with the model.
\<close>

end
